(* ===== verification/Prelude.thy ===== *)
theory Prelude
  imports Main "HOL-Library.Word"
begin

text \<open>
  Shared vocabulary of the development: the fixed-width integers and byte strings of the Go
  sources, the big-endian accessors of the standard library package \<^verbatim>\<open>encoding/binary\<close>,
  \<^verbatim>\<open>bytes.Compare\<close>, truncating division of \<^verbatim>\<open>time.Duration\<close> values, and the lemma collections
  that the component theories fill.  Go strings and \<^verbatim>\<open>[]byte\<close> values are both lists of
  8-bit words; \<^verbatim>\<open>nil\<close> and the empty slice are not distinguished.
\<close>

unbundle bit_operations_syntax

type_synonym byte = "8 word"
type_synonym u8 = "8 word"
type_synonym u16 = "16 word"
type_synonym u32 = "32 word"
type_synonym u64 = "64 word"
type_synonym bytes = "byte list"

named_theorems wire_simps \<open>symbolic execution of the packer and unpacker primitives\<close>
named_theorems safe_intros \<open>readers that keep the message and only move forward\<close>
named_theorems append_intros \<open>packer operations that only append\<close>

subsection \<open>Big-endian integers\<close>

definition be16 :: "u16 \<Rightarrow> bytes" where
  "be16 v = [ucast (drop_bit 8 v), ucast v]"

definition be32 :: "u32 \<Rightarrow> bytes" where
  "be32 v = [ucast (drop_bit 24 v), ucast (drop_bit 16 v), ucast (drop_bit 8 v), ucast v]"

definition be64 :: "u64 \<Rightarrow> bytes" where
  "be64 v = be32 (ucast (drop_bit 32 v)) @ be32 (ucast v)"

fun rd16 :: "bytes \<Rightarrow> u16" where
  "rd16 (a # b # _) = push_bit 8 (ucast a) OR ucast b"
| "rd16 _ = 0"

fun rd32 :: "bytes \<Rightarrow> u32" where
  "rd32 (a # b # c # d # _) =
     push_bit 24 (ucast a) OR push_bit 16 (ucast b) OR push_bit 8 (ucast c) OR ucast d"
| "rd32 _ = 0"

lemma length_be16 [simp]: "length (be16 v) = 2"
  by (simp add: be16_def)

lemma length_be32 [simp]: "length (be32 v) = 4"
  by (simp add: be32_def)

lemma length_be64 [simp]: "length (be64 v) = 8"
  by (simp add: be64_def)

lemma rd16_be16 [simp]: "rd16 (be16 v @ s) = v"
  by (auto simp: be16_def bit_simps intro!: bit_word_eqI)

lemma rd16_be16_Nil [simp]: "rd16 (be16 v) = v"
  using rd16_be16 [of v "[]"] by simp

lemma rd32_be32 [simp]: "rd32 (be32 v @ s) = v"
proof (rule bit_word_eqI)
  fix n assume "n < LENGTH(32)"
  then consider "n < 8" | "8 \<le> n \<and> n < 16" | "16 \<le> n \<and> n < 24" | "24 \<le> n \<and> n < 32"
    by fastforce
  then show "bit (rd32 (be32 v @ s)) n = bit v n"
    by cases (auto simp: be32_def bit_simps)
qed

lemma rd32_be32_Nil [simp]: "rd32 (be32 v) = v"
  using rd32_be32 [of v "[]"] by simp

lemma byte_bit_high [simp]: "8 \<le> n \<Longrightarrow> \<not> bit (b :: byte) n"
  using bit_imp_le_length [of b n] by auto

lemma be16_rd16: "length b = 2 \<Longrightarrow> be16 (rd16 b) = b"
  by (cases b rule: rd16.cases) (auto simp: be16_def bit_simps intro!: bit_word_eqI)

lemma be32_rd32: "length b = 4 \<Longrightarrow> be32 (rd32 b) = b"
  by (cases b rule: rd32.cases) (auto simp: be32_def bit_simps intro!: bit_word_eqI)

text \<open>Joining two 32-bit halves is the inverse of splitting a 64-bit word.\<close>

definition join64 :: "u32 \<Rightarrow> u32 \<Rightarrow> u64" where
  "join64 hi lo = push_bit 32 (ucast hi) OR ucast lo"

lemma join64_split [simp]: "join64 (ucast (drop_bit 32 v)) (ucast v) = v"
  by (auto simp: join64_def bit_simps intro!: bit_word_eqI)

subsection \<open>Bytes\<close>

lemma unat_byte_less [simp]: "unat (b :: byte) < 256"
  using unsigned_less [of b] by simp

lemma unat_byte_le [simp]: "unat (b :: byte) \<le> 255"
  using unat_byte_less [of b] by linarith

lemma byte_exhaustive:
  assumes "list_all (\<lambda>n. P (word_of_nat n :: byte)) [0..<256]"
  shows "P b"
proof -
  have "P (word_of_nat (unat b))"
    using assms unat_byte_less [of b] unfolding list_all_iff by (metis atLeastLessThan_iff set_upt zero_le)
  then show ?thesis by simp
qed

lemma unat_of_nat_byte [simp]: "n < 256 \<Longrightarrow> unat (word_of_nat n :: byte) = n"
  by (simp add: unat_of_nat)

lemma unat_of_nat_u16 [simp]: "n < 65536 \<Longrightarrow> unat (word_of_nat n :: u16) = n"
  by (simp add: unat_of_nat)

lemma unat_u16_less [simp]: "unat (v :: u16) < 65536"
  using unsigned_less [of v] by simp

lemma unat_u32_less [simp]: "unat (v :: u32) < 4294967296"
  using unsigned_less [of v] by simp

subsection \<open>Comparison of byte strings\<close>

text \<open>\<^verbatim>\<open>bytes.Compare\<close>: lexicographic, a proper prefix is smaller.\<close>

fun cmp_bytes :: "bytes \<Rightarrow> bytes \<Rightarrow> int" where
  "cmp_bytes [] [] = 0"
| "cmp_bytes [] (y # ys) = - 1"
| "cmp_bytes (x # xs) [] = 1"
| "cmp_bytes (x # xs) (y # ys) = (if x < y then - 1 else if y < x then 1 else cmp_bytes xs ys)"

lemma cmp_bytes_refl [simp]: "cmp_bytes xs xs = 0"
  by (induction xs) auto

lemma cmp_bytes_0 [simp]: "cmp_bytes xs ys = 0 \<longleftrightarrow> xs = ys"
  by (induction xs ys rule: cmp_bytes.induct) auto

lemma cmp_bytes_anti: "cmp_bytes ys xs = - cmp_bytes xs ys"
  by (induction xs ys rule: cmp_bytes.induct) auto

lemma cmp_bytes_range: "cmp_bytes xs ys \<in> {-1, 0, 1}"
  by (induction xs ys rule: cmp_bytes.induct) auto

lemma cmp_bytes_trans: "cmp_bytes xs ys \<le> 0 \<Longrightarrow> cmp_bytes ys zs \<le> 0 \<Longrightarrow> cmp_bytes xs zs \<le> 0"
proof (induction xs ys arbitrary: zs rule: cmp_bytes.induct)
  case (2 y ys)
  then show ?case by (cases zs) auto
next
  case (4 x xs y ys)
  then show ?case by (cases zs) (auto split: if_splits)
qed auto

subsection \<open>Durations\<close>

text \<open>
  \<^verbatim>\<open>time.Duration\<close> is a signed 64-bit number of nanoseconds.  Every product the sources form
  (at most \<open>2 ^ 32 - 1\<close> seconds) fits, so durations are integers here; division truncates
  towards zero, and conversion to \<^verbatim>\<open>uint32\<close> or \<^verbatim>\<open>uint16\<close> keeps the low bits.
\<close>

type_synonym duration = int

definition Second :: duration where "Second = 1000000000"
definition Millisecond :: duration where "Millisecond = 1000000"

definition tdiv :: "int \<Rightarrow> int \<Rightarrow> int" where
  "tdiv a b = sgn a * sgn b * (\<bar>a\<bar> div \<bar>b\<bar>)"

definition secs32 :: "duration \<Rightarrow> u32" where
  "secs32 d = word_of_int (tdiv d Second)"

definition of_secs :: "u32 \<Rightarrow> duration" where
  "of_secs v = uint v * Second"

lemma Second_pos [simp]: "0 < Second"
  by (simp add: Second_def)

lemma tdiv_nonneg: "0 \<le> a \<Longrightarrow> 0 < b \<Longrightarrow> tdiv a b = a div b"
  by (cases "a = 0") (auto simp: tdiv_def)

lemma of_secs_nonneg [simp]: "0 \<le> of_secs v"
  by (simp add: of_secs_def Second_def)

lemma tdiv_of_secs [simp]: "tdiv (of_secs v) Second = uint v"
  by (simp add: tdiv_nonneg) (simp add: of_secs_def Second_def)

lemma secs32_of_secs [simp]: "secs32 (of_secs v) = v"
  by (simp add: secs32_def)

subsection \<open>Results\<close>

text \<open>Sequencing of fallible code: \<^verbatim>\<open>if err != nil { return err }\<close>.\<close>

definition ebind :: "'e + 'a \<Rightarrow> ('a \<Rightarrow> 'e + 'b) \<Rightarrow> 'e + 'b" where
  "ebind r f = (case r of Inl e \<Rightarrow> Inl e | Inr x \<Rightarrow> f x)"

lemma ebind_simps [simp]: "ebind (Inl e) f = Inl e" "ebind (Inr x) f = f x"
  by (simp_all add: ebind_def)

lemma ebind_Inr [simp]: "ebind r f = Inr y \<longleftrightarrow> (\<exists>x. r = Inr x \<and> f x = Inr y)"
  by (cases r) auto

lemma ebind_InrE: "ebind r f = Inr y \<Longrightarrow> (\<And>x. r = Inr x \<Longrightarrow> f x = Inr y \<Longrightarrow> thesis) \<Longrightarrow> thesis"
  by auto

end
