(* ===== verification/Wire_Errors.thy ===== *)
theory Wire_Errors
  imports Prelude
begin

text \<open>
  The error values of the wire packages (\<^verbatim>\<open>wire/errors.go\<close> and the sentinel errors of
  \<^verbatim>\<open>wirebb\<close>, \<^verbatim>\<open>rdata\<close> and \<^verbatim>\<open>wire\<close>).  A Go error that wraps a sentinel
  (\<^verbatim>\<open>fmt.Errorf("%w: ...", ErrX)\<close>) is the constructor of the sentinel applied to the constant
  part of the message, so that every failing branch of the sources is a distinct value.
  \<open>GoPanic\<close> is a run-time panic of the Go code.  \<open>Diverges\<close> is no error of the program: it is the value of a loop that used up its iteration
  bound, and the development shows that no loop of the program has it.
\<close>

datatype section_id =
    SectionUnknown | SectionHeader | SectionQuestion | SectionAnswer
  | SectionAuthority | SectionAdditional | SectionOPT

datatype wire_error =
    ErrInvalidName string
  | ErrTruncated
  | ErrInvalidRData string
  | ErrInvalidMessage string
  | ErrInvalidTTL string
  | ErrInvalidCookie
  | ErrOther string
  | GoPanic string
  | Diverges
  | MessageParseError section_id int nat wire_error

text \<open>\<^verbatim>\<open>MessageParseError.Section/Index/Offset/Cause\<close>, and \<^verbatim>\<open>errors.Is(err, ErrInvalidMessage)\<close>, which
  the type's own \<^verbatim>\<open>Is\<close> method makes true of every parse error.\<close>

fun error_section :: "wire_error \<Rightarrow> section_id option" where
  "error_section (MessageParseError s i ofs c) = Some s"
| "error_section _ = None"

fun error_offset :: "wire_error \<Rightarrow> nat option" where
  "error_offset (MessageParseError s i ofs c) = Some ofs"
| "error_offset _ = None"

fun is_ErrInvalidMessage :: "wire_error \<Rightarrow> bool" where
  "is_ErrInvalidMessage (ErrInvalidMessage _) = True"
| "is_ErrInvalidMessage (MessageParseError s i ofs c) = True"
| "is_ErrInvalidMessage _ = False"

end
