(* ===== verification/Wire_Name.thy ===== *)
theory Wire_Name
  imports Wire_Errors
begin

text \<open>
  Domain names (\<^verbatim>\<open>wire/wirebb/name.go\<close>): the type \<^verbatim>\<open>Name\<close>, its accessors, the presentation
  format (\<^verbatim>\<open>Parse\<close>, \<^verbatim>\<open>String\<close>), construction from labels, and the two wire decoders.  A loop
  over an offset into the immutable string \<^verbatim>\<open>n.wire\<close> is a recursion over the suffix that starts
  at that offset.  The index loops of the decoders, which jump, keep their offsets.
\<close>

subsection \<open>The type and its accessors\<close>

datatype wname = Name (wire: bytes)

definition maxLabelLen :: nat where "maxLabelLen = 63"
definition maxNameLen :: nat where "maxNameLen = 255"
definition maxPtrHops :: nat where "maxPtrHops = 32"

definition zeroName :: wname where "zeroName = Name []"

definition IsValid :: "wname \<Rightarrow> bool" where
  "IsValid n = (length (wire n) > 0)"

definition IsRoot :: "wname \<Rightarrow> bool" where
  "IsRoot n = (wire n = [0])"

definition Root :: wname where
  "Root = Name [0]"

function numLabels_loop :: "bytes \<Rightarrow> nat \<Rightarrow> nat" where
  "numLabels_loop w count =
     (case w of
        [] \<Rightarrow> count
      | b # r \<Rightarrow> let l = unat b in if l = 0 then count else numLabels_loop (drop l r) (count + 1))"
  by pat_completeness auto
termination by (relation "measure (\<lambda>(w, c). length w)") auto

declare numLabels_loop.simps [simp del]

definition NumLabels :: "wname \<Rightarrow> nat" where
  "NumLabels n = (if \<not> IsValid n then 0 else numLabels_loop (wire n) 0)"

function labels_loop :: "bytes \<Rightarrow> bytes list" where
  "labels_loop w =
     (case w of
        [] \<Rightarrow> []
      | b # r \<Rightarrow> let l = unat b in if l = 0 then [] else take l r # labels_loop (drop l r))"
  by pat_completeness auto
termination by (relation "measure length") auto

declare labels_loop.simps [simp del]

definition Labels :: "wname \<Rightarrow> bytes list" where
  "Labels n = (if \<not> IsValid n then [] else labels_loop (wire n))"

definition Parent :: "wname \<Rightarrow> wname option" where
  "Parent n =
     (if \<not> IsValid n \<or> IsRoot n then None
      else let first = unat (wire n ! 0) in Some (Name (drop (1 + first) (wire n))))"

definition NameEqual :: "wname \<Rightarrow> wname \<Rightarrow> bool" where
  "NameEqual n m = (wire n = wire m)"

definition AppendWire :: "wname \<Rightarrow> bytes \<Rightarrow> bytes" where
  "AppendWire n b = (if \<not> IsValid n then b @ [0] else b @ wire n)"

definition WireLen :: "wname \<Rightarrow> nat" where
  "WireLen n = (if \<not> IsValid n then 1 else length (wire n))"

definition foldByte :: "byte \<Rightarrow> byte" where
  "foldByte c = (if c \<ge> 65 \<and> c \<le> 90 then c + (97 - 65) else c)"

subsection \<open>Presentation format\<close>

text \<open>The characters the parser and printer treat specially.\<close>

abbreviation chDot :: byte where "chDot \<equiv> 0x2E"
abbreviation chBackslash :: byte where "chBackslash \<equiv> 0x5C"
abbreviation ch0 :: byte where "ch0 \<equiv> 0x30"
abbreviation ch9 :: byte where "ch9 \<equiv> 0x39"

text \<open>\<^verbatim>\<open>fmt.Fprintf("\%03d", c)\<close> without the backslash.\<close>

definition dec3 :: "byte \<Rightarrow> bytes" where
  "dec3 c = [ch0 + word_of_nat (unat c div 100), ch0 + word_of_nat (unat c div 10 mod 10),
             ch0 + word_of_nat (unat c mod 10)]"

definition escapeByte :: "byte \<Rightarrow> bytes" where
  "escapeByte c =
     (if c = chDot \<or> c = chBackslash then [chBackslash, c]
      else if c < 0x21 \<or> c > 0x7e then chBackslash # dec3 c
      else [c])"

function string_loop :: "bytes \<Rightarrow> bytes" where
  "string_loop w =
     (case w of
        [] \<Rightarrow> []
      | b # r \<Rightarrow>
          let l = unat b in
          if l = 0 then []
          else concat (map escapeByte (take l r)) @ [chDot] @ string_loop (drop l r))"
  by pat_completeness auto
termination by (relation "measure length") auto

declare string_loop.simps [simp del]

definition NameString :: "wname \<Rightarrow> bytes" where
  "NameString n =
     (if \<not> IsValid n then [] else if IsRoot n then [chDot] else string_loop (wire n))"

definition parse_flush :: "bytes \<Rightarrow> bytes \<Rightarrow> wire_error + bytes" where
  "parse_flush w label =
     (if length label = 0 then Inl (ErrInvalidName ''empty label'')
      else if length label > maxLabelLen then Inl (ErrInvalidName ''label too long'')
      else
        let w' = w @ [word_of_nat (length label)] @ label in
        if length w' > maxNameLen then Inl (ErrInvalidName ''name too long'')
        else Inr w')"

definition parse_appendLabel :: "bytes \<Rightarrow> byte \<Rightarrow> wire_error + bytes" where
  "parse_appendLabel label c =
     (if c = 0 then Inl (ErrInvalidName ''0x00 in label'')
      else if length label \<ge> maxLabelLen then Inl (ErrInvalidName ''label too long'')
      else Inr (label @ [c]))"

definition isDigit :: "byte \<Rightarrow> bool" where
  "isDigit c = (c \<ge> ch0 \<and> c \<le> ch9)"

text \<open>The octet an escape denotes and the text behind it; \<^verbatim>\<open>s\<close> starts after the backslash.\<close>

fun parse_escape :: "bytes \<Rightarrow> wire_error + byte \<times> bytes" where
  "parse_escape [] = Inl (ErrInvalidName ''trailing backslash'')"
| "parse_escape (nxt # s1) =
     (if isDigit nxt then
        (case s1 of
           d2 # d3 # s3 \<Rightarrow>
             if \<not> isDigit d2 \<or> \<not> isDigit d3 then Inl (ErrInvalidName ''bad decimal escape'')
             else
               let v = unat (nxt - ch0) * 100 + unat (d2 - ch0) * 10 + unat (d3 - ch0) in
               if v > 255 then Inl (ErrInvalidName ''decimal escape > 255'')
               else Inr (word_of_nat v, s3)
         | _ \<Rightarrow> Inl (ErrInvalidName ''truncated decimal escape''))
      else Inr (foldByte nxt, s1))"

lemma parse_escape_length: "parse_escape s = Inr (c, s') \<Longrightarrow> length s' < length s"
  by (cases s) (auto simp: Let_def split: if_splits list.splits)

function parse_loop :: "bytes \<Rightarrow> bytes \<Rightarrow> bytes \<Rightarrow> wire_error + bytes \<times> bytes" where
  "parse_loop [] w label = Inr (w, label)"
| "parse_loop (c # s) w label =
     (if c = chDot then
        (case parse_flush w label of
           Inl e \<Rightarrow> Inl e
         | Inr w' \<Rightarrow> parse_loop s w' [])
      else if c = chBackslash then
        (case parse_escape s of
           Inl e \<Rightarrow> Inl e
         | Inr (c', s') \<Rightarrow>
             (case parse_appendLabel label c' of
                Inl e \<Rightarrow> Inl e
              | Inr label' \<Rightarrow> parse_loop s' w label'))
      else
        (case parse_appendLabel label (foldByte c) of
           Inl e \<Rightarrow> Inl e
         | Inr label' \<Rightarrow> parse_loop s w label'))"
  by pat_completeness auto
termination
  by (relation "measure (\<lambda>(s, w, label). length s)") (auto dest: parse_escape_length)

definition Parse :: "bytes \<Rightarrow> wire_error + wname" where
  "Parse s =
     (if s = [] then Inl (ErrInvalidName ''empty'')
      else if s = [chDot] then Inr Root
      else
        (case parse_loop s [] [] of
           Inl e \<Rightarrow> Inl e
         | Inr (w, label) \<Rightarrow>
             (case (if length label > 0 then parse_flush w label else Inr w) of
                Inl e \<Rightarrow> Inl e
              | Inr w' \<Rightarrow>
                  if length (w' @ [0]) > maxNameLen then Inl (ErrInvalidName ''name too long'')
                  else Inr (Name (w' @ [0])))))"

fun fromLabels_loop :: "bytes list \<Rightarrow> bytes \<Rightarrow> wire_error + bytes" where
  "fromLabels_loop [] w = Inr w"
| "fromLabels_loop (l # ls) w =
     (if length l = 0 then Inl (ErrInvalidName ''empty label'')
      else if length l > maxLabelLen then Inl (ErrInvalidName ''label too long'')
      else fromLabels_loop ls (w @ [word_of_nat (length l)] @ map foldByte l))"

definition FromLabels :: "bytes list \<Rightarrow> wire_error + wname" where
  "FromLabels ls =
     (if ls = [] then Inr Root
      else
        (case fromLabels_loop ls [] of
           Inl e \<Rightarrow> Inl e
         | Inr w \<Rightarrow>
             if length (w @ [0]) > maxNameLen then Inl (ErrInvalidName ''name too long'')
             else Inr (Name (w @ [0]))))"

subsection \<open>Wire decoding\<close>

function decodeUncompressed_loop ::
    "bytes \<Rightarrow> nat \<Rightarrow> nat \<Rightarrow> bytes \<Rightarrow> wire_error + wname \<times> nat" where
  "decodeUncompressed_loop msg cur tot out =
     (if cur \<ge> length msg then Inl (ErrInvalidName ''truncated'')
      else
        let b = msg ! cur in
        if b AND 0xc0 = 0 then
          let l = unat b in
          if l = 0 then
            if tot + 1 > maxNameLen then Inl (ErrInvalidName ''name too long'')
            else Inr (Name (out @ [0]), cur + 1)
          else if cur + 1 + l > length msg then Inl (ErrInvalidName ''truncated label'')
          else if tot + (1 + l) > maxNameLen then Inl (ErrInvalidName ''name too long'')
          else decodeUncompressed_loop msg (cur + (1 + l)) (tot + (1 + l))
                 (out @ [b] @ map foldByte (take l (drop (cur + 1) msg)))
        else if b AND 0xc0 = 0xc0 then Inl (ErrInvalidName ''compression pointer'')
        else Inl (ErrInvalidName ''reserved label type''))"
  by pat_completeness auto
termination
  by (relation "measure (\<lambda>(msg, cur, tot, out). length msg - cur)") auto

declare decodeUncompressed_loop.simps [simp del]

definition DecodeWireUncompressed :: "bytes \<Rightarrow> nat \<Rightarrow> wire_error + wname \<times> nat" where
  "DecodeWireUncompressed msg off =
     (if off \<ge> length msg then Inl (ErrInvalidName ''offset out of range'')
      else decodeUncompressed_loop msg off 0 [])"

text \<open>\<^verbatim>\<open>nextOff\<close> is \<^const>\<open>None\<close> while the source's variable still holds \<open>-1\<close>.\<close>

function decode_loop ::
    "bytes \<Rightarrow> nat \<Rightarrow> nat option \<Rightarrow> nat \<Rightarrow> nat \<Rightarrow> bytes \<Rightarrow> wire_error + wname \<times> nat" where
  "decode_loop msg cur nextOff hops tot out =
     (if cur \<ge> length msg then Inl (ErrInvalidName ''truncated'')
      else
        let b = msg ! cur in
        if b AND 0xc0 = 0 then
          let l = unat b in
          if l = 0 then
            let nextOff' = (case nextOff of None \<Rightarrow> cur + 1 | Some o' \<Rightarrow> o') in
            if tot + 1 > maxNameLen then Inl (ErrInvalidName ''name too long'')
            else Inr (Name (out @ [0]), nextOff')
          else if cur + 1 + l > length msg then Inl (ErrInvalidName ''truncated label'')
          else if tot + (1 + l) > maxNameLen then Inl (ErrInvalidName ''name too long'')
          else decode_loop msg (cur + (1 + l)) nextOff hops (tot + (1 + l))
                 (out @ [b] @ map foldByte (take l (drop (cur + 1) msg)))
        else if b AND 0xc0 = 0xc0 then
          if cur + 1 \<ge> length msg then Inl (ErrInvalidName ''truncated pointer'')
          else
            let ptr = push_bit 8 (unat (b AND 0x3f)) OR unat (msg ! (cur + 1));
                nextOff' = (case nextOff of None \<Rightarrow> cur + 2 | Some o' \<Rightarrow> o') in
            if ptr \<ge> cur then Inl (ErrInvalidName ''forward or self pointer'')
            else if hops + 1 > maxPtrHops then Inl (ErrInvalidName ''pointer loop'')
            else decode_loop msg ptr (Some nextOff') (hops + 1) tot out
        else Inl (ErrInvalidName ''reserved label type''))"
  by pat_completeness auto
termination
  by (relation "measure (\<lambda>(msg, cur, nextOff, hops, tot, out).
        (maxPtrHops - hops) + (maxNameLen - tot))") auto

declare decode_loop.simps [simp del]

definition DecodeWire :: "bytes \<Rightarrow> nat \<Rightarrow> wire_error + wname \<times> nat" where
  "DecodeWire msg off =
     (if off \<ge> length msg then Inl (ErrInvalidName ''offset out of range'')
      else decode_loop msg off None 0 0 [])"

subsection \<open>Specification: label sequences\<close>

text \<open>
  The abstract view of a name is its list of labels.  \<^term>\<open>wire_of ls\<close> is the uncompressed
  encoding of RFC 1035; a name is well formed when its string is that encoding of labels of 1 to
  63 octets and at most 255 octets in all, and canonical when no octet is an upper-case letter.
\<close>

definition label_ok :: "bytes \<Rightarrow> bool" where
  "label_ok l \<longleftrightarrow> 0 < length l \<and> length l \<le> maxLabelLen"

definition enc_label :: "bytes \<Rightarrow> bytes" where
  "enc_label l = word_of_nat (length l) # l"

definition wire_of :: "bytes list \<Rightarrow> bytes" where
  "wire_of ls = concat (map enc_label ls) @ [0]"

definition wf_name :: "wname \<Rightarrow> bool" where
  "wf_name n \<longleftrightarrow> list_all label_ok (Labels n) \<and> wire n = wire_of (Labels n) \<and>
     length (wire n) \<le> maxNameLen"

definition canonical :: "wname \<Rightarrow> bool" where
  "canonical n \<longleftrightarrow> map foldByte (wire n) = wire n"

definition no_nul :: "wname \<Rightarrow> bool" where
  "no_nul n \<longleftrightarrow> list_all (\<lambda>l. 0 \<notin> set l) (Labels n)"

text \<open>
  \<^term>\<open>names_at msg off ls h n\<close>: the octets of \<^term>\<open>msg\<close> at \<^term>\<open>off\<close> denote the labels
  \<^term>\<open>ls\<close>, following \<^term>\<open>h\<close> compression pointers, and occupy \<^term>\<open>n\<close> octets before the first
  jump.  Every pointer points strictly backwards.
\<close>

inductive names_at :: "bytes \<Rightarrow> nat \<Rightarrow> bytes list \<Rightarrow> nat \<Rightarrow> nat \<Rightarrow> bool" for msg where
  at_root: "off < length msg \<Longrightarrow> msg ! off = 0 \<Longrightarrow> names_at msg off [] 0 1"
| at_label:
    "label_ok l \<Longrightarrow> off + 1 + length l \<le> length msg \<Longrightarrow> msg ! off = word_of_nat (length l) \<Longrightarrow>
     take (length l) (drop (off + 1) msg) = l \<Longrightarrow> names_at msg (off + (1 + length l)) ls h n \<Longrightarrow>
     names_at msg off (l # ls) h (1 + length l + n)"
| at_pointer:
    "off + 1 < length msg \<Longrightarrow> msg ! off AND 0xc0 = 0xc0 \<Longrightarrow>
     ptr = push_bit 8 (unat (msg ! off AND 0x3f)) OR unat (msg ! (off + 1)) \<Longrightarrow> ptr < off \<Longrightarrow>
     names_at msg ptr ls h n \<Longrightarrow> names_at msg off ls (h + 1) 2"

subsection \<open>Octets\<close>

lemma byte_and_c0_0: "b AND 0xc0 = 0 \<longleftrightarrow> unat (b :: byte) < 64"
proof -
  have "(0xc0 :: byte) = NOT (mask 6)" by (simp add: mask_eq_exp_minus_1)
  then have "b AND 0xc0 = 0 \<longleftrightarrow> take_bit 6 b = b" by (auto simp: bit_eq_iff bit_simps)
  also have "\<dots> \<longleftrightarrow> take_bit 6 (unat b) = unat b"
    by (metis unsigned_take_bit_eq word_unat_eq_iff)
  also have "\<dots> \<longleftrightarrow> unat b < 64" by (simp add: take_bit_nat_eq_self_iff)
  finally show ?thesis .
qed

lemma unat_not_byte: "unat (NOT b) = 255 - unat (b :: byte)"
proof -
  have "unat (- 1 - b) = unat (- 1 :: byte) - unat b" by (rule unat_sub) simp
  moreover have "unat (- 1 :: byte) = 255" by code_simp
  moreover have "NOT b = - 1 - b" by (simp add: not_eq_complement)
  ultimately show ?thesis by simp
qed

lemma byte_and_c0_c0: "b AND 0xc0 = 0xc0 \<longleftrightarrow> 192 \<le> unat (b :: byte)"
proof -
  have "b AND 0xc0 = 0xc0 \<longleftrightarrow> NOT b AND 0xc0 = 0" by (auto simp: bit_eq_iff bit_simps)
  also have "\<dots> \<longleftrightarrow> unat (NOT b) < 64" by (rule byte_and_c0_0)
  also have "\<dots> \<longleftrightarrow> 192 \<le> unat b" by (simp add: unat_not_byte) arith
  finally show ?thesis .
qed

lemma byte_c0_or:
  assumes "h < 64"
  shows "(0xc0 OR word_of_nat h) AND 0xc0 = (0xc0 :: byte) \<and>
    (0xc0 OR word_of_nat h) AND 0x3f = (word_of_nat h :: byte)"
proof -
  have "list_all (\<lambda>h. (0xc0 OR word_of_nat h) AND 0xc0 = (0xc0 :: byte) \<and>
    (0xc0 OR word_of_nat h) AND 0x3f = (word_of_nat h :: byte)) [0..<64]"
    by code_simp
  with assms show ?thesis by (simp add: list_all_iff)
qed

lemma push8_or_byte: "push_bit 8 a OR unat (b :: byte) = a * 256 + unat b"
proof -
  have "push_bit 8 a AND unat b = 0" by (auto simp: bit_eq_iff bit_simps)
  then show ?thesis by (simp add: disjunctive_add_eq_or [symmetric] push_bit_eq_mult)
qed

lemma pointer_roundtrip:
  assumes "ptr < 16384"
  shows "push_bit 8 (unat ((0xc0 OR word_of_nat (drop_bit 8 ptr)) AND 0x3f :: byte)) OR
    unat (word_of_nat ptr :: byte) = ptr"
proof -
  have h: "drop_bit 8 ptr < 64" using assms by (simp add: drop_bit_eq_div)
  then have "unat (word_of_nat (drop_bit 8 ptr) :: byte) = ptr div 256"
    by (simp add: drop_bit_eq_div)
  with byte_c0_or [OF h] show ?thesis unfolding push8_or_byte by (simp add: unat_of_nat)
qed

lemma foldByte_idem [simp]: "foldByte (foldByte c) = foldByte c"
  unfolding foldByte_def by (auto simp: word_le_nat_alt unat_word_ariths)

lemma foldByte_comp [simp]: "foldByte \<circ> foldByte = foldByte"
  by (simp add: fun_eq_iff)

lemma foldByte_small: "unat b < 65 \<Longrightarrow> foldByte b = b"
  by (auto simp: foldByte_def word_le_nat_alt)

subsection \<open>Label sequences\<close>

lemma wire_of_Nil [simp]: "wire_of [] = [0]"
  by (simp add: wire_of_def)

lemma wire_of_Cons [simp]: "wire_of (l # ls) = word_of_nat (length l) # l @ wire_of ls"
  by (simp add: wire_of_def enc_label_def)

lemma wire_of_neq_Nil [simp]: "wire_of ls \<noteq> []"
  by (simp add: wire_of_def)

lemma label_okD: "label_ok l \<Longrightarrow> 0 < length l \<and> length l < 64"
  by (auto simp: label_ok_def maxLabelLen_def)

lemma label_len_byte [simp]:
  "label_ok l \<Longrightarrow> unat (word_of_nat (length l) :: byte) = length l"
  by (auto dest: label_okD)

lemma label_len_neq_0 [simp]: "label_ok l \<Longrightarrow> (word_of_nat (length l) :: byte) \<noteq> 0"
  by (metis label_len_byte label_okD less_irrefl unat_0)

lemma label_ok_fold [simp]: "label_ok (map foldByte l) = label_ok l"
  by (simp add: label_ok_def)

lemma labels_loop_simps [simp]:
  "labels_loop [] = []"
  "labels_loop (b # r) = (if b = 0 then [] else take (unat b) r # labels_loop (drop (unat b) r))"
  by (simp_all add: labels_loop.simps [of "[]"] labels_loop.simps [of "b # r"] Let_def unat_eq_0)

lemma numLabels_loop_simps [simp]:
  "numLabels_loop [] c = c"
  "numLabels_loop (b # r) c = (if b = 0 then c else numLabels_loop (drop (unat b) r) (c + 1))"
  by (simp_all add: numLabels_loop.simps [of "[]"] numLabels_loop.simps [of "b # r"]
      Let_def unat_eq_0)

lemma string_loop_simps [simp]:
  "string_loop [] = []"
  "string_loop (b # r) =
     (if b = 0 then []
      else concat (map escapeByte (take (unat b) r)) @ [chDot] @ string_loop (drop (unat b) r))"
  by (simp_all add: string_loop.simps [of "[]"] string_loop.simps [of "b # r"] Let_def unat_eq_0)

lemma labels_loop_wire_of [simp]: "list_all label_ok ls \<Longrightarrow> labels_loop (wire_of ls) = ls"
  by (induction ls) auto

lemma string_loop_wire_of:
  "list_all label_ok ls \<Longrightarrow>
   string_loop (wire_of ls) = concat (map (\<lambda>l. concat (map escapeByte l) @ [chDot]) ls)"
  by (induction ls) auto

lemma numLabels_loop_eq: "numLabels_loop w c = c + length (labels_loop w)"
proof (induction w c rule: numLabels_loop.induct)
  case (1 w c)
  then show ?case by (cases w) (auto simp: unat_gt_0)
qed

lemma NumLabels_eq: "NumLabels n = length (Labels n)"
  by (simp add: NumLabels_def Labels_def numLabels_loop_eq)

lemma Labels_wire_of [simp]: "list_all label_ok ls \<Longrightarrow> Labels (Name (wire_of ls)) = ls"
  by (simp add: Labels_def IsValid_def)

lemma wf_nameI:
  "list_all label_ok ls \<Longrightarrow> length (wire_of ls) \<le> maxNameLen \<Longrightarrow> wf_name (Name (wire_of ls))"
  by (simp add: wf_name_def)

lemma wf_nameE:
  assumes "wf_name n"
  obtains ls where "n = Name (wire_of ls)" "Labels n = ls" "list_all label_ok ls"
    "length (wire_of ls) \<le> maxNameLen"
  using assms unfolding wf_name_def by (metis wname.collapse)

lemma wf_name_valid [simp]: "wf_name n \<Longrightarrow> IsValid n"
  by (auto elim!: wf_nameE simp: IsValid_def)

lemma map_fold_wire_of:
  "list_all label_ok ls \<Longrightarrow> map foldByte (wire_of ls) = wire_of (map (map foldByte) ls)"
  by (induction ls) (auto simp: foldByte_small dest: label_okD)

lemma length_wire_of_fold [simp]: "length (wire_of (map (map foldByte) ls)) = length (wire_of ls)"
  by (induction ls) auto

lemma list_all_label_ok_fold [simp]:
  "list_all label_ok (map (map foldByte) ls) = list_all label_ok ls"
  by (induction ls) auto

lemma canonical_fold: "list_all label_ok ls \<Longrightarrow> canonical (Name (wire_of (map (map foldByte) ls)))"
  by (simp add: canonical_def map_fold_wire_of)

lemma map_fix_iff: "map f xs = xs \<longleftrightarrow> (\<forall>x \<in> set xs. f x = x)"
  by (induction xs) auto

lemma canonical_labels:
  assumes "list_all label_ok ls"
  shows "canonical (Name (wire_of ls)) \<longleftrightarrow> (\<forall>l \<in> set ls. \<forall>c \<in> set l. foldByte c = c)"
  using assms
  by (induction ls) (auto simp: canonical_def foldByte_small map_fix_iff dest: label_okD)

lemma wf_name_Root [simp]: "wf_name Root" "canonical Root" "no_nul Root" "Labels Root = []"
  using wf_nameI [of "[]"]
  by (simp_all add: Root_def maxNameLen_def canonical_def foldByte_def no_nul_def Labels_def)

subsection \<open>The decoders against the specification\<close>

lemma names_at_labels_ok: "names_at msg off ls h n \<Longrightarrow> list_all label_ok ls"
  by (induction rule: names_at.induct) auto

lemma names_at_bound:
  "names_at msg off ls h n \<Longrightarrow> off < length msg \<and> 0 < n \<and> off + n \<le> length msg"
  by (induction rule: names_at.induct) auto

lemma names_at_append: "names_at msg off ls h n \<Longrightarrow> names_at (msg @ s) off ls h n"
  by (induction rule: names_at.induct)
    (auto simp: nth_append intro!: at_root [simplified] at_label [simplified] at_pointer [simplified])

lemma decode_loop_complete:
  assumes "names_at msg cur ls h n" "hops + h \<le> maxPtrHops" "tot + length (wire_of ls) \<le> maxNameLen"
  shows "decode_loop msg cur no hops tot out =
    Inr (Name (out @ map foldByte (wire_of ls)), case no of None \<Rightarrow> cur + n | Some o' \<Rightarrow> o')"
  using assms
proof (induction arbitrary: no hops tot out rule: names_at.induct)
  case (at_root off)
  then show ?case by (subst decode_loop.simps) (simp add: foldByte_def)
next
  case (at_label l off ls h n)
  then have l: "(word_of_nat (length l) :: byte) AND 0xc0 = 0" "l \<noteq> []"
    "foldByte (word_of_nat (length l)) = word_of_nat (length l)"
    by (auto simp: byte_and_c0_0 foldByte_small dest: label_okD)
  from at_label l show ?case
    by (subst decode_loop.simps) (simp add: Let_def split: option.splits)
next
  case (at_pointer off ptr ls h n)
  then show ?case
    by (subst decode_loop.simps) (simp add: Let_def split: option.splits)
qed

text \<open>Inversion of one iteration of the loop that does not fail.\<close>

lemma decode_loop_cases:
  assumes "decode_loop msg cur no hops tot out = Inr (N, nx)"
  obtains (root) "cur < length msg" "msg ! cur = 0" "tot + 1 \<le> maxNameLen" "N = Name (out @ [0])"
      "nx = (case no of None \<Rightarrow> cur + 1 | Some o' \<Rightarrow> o')"
  | (label) l where "label_ok l" "msg ! cur = word_of_nat (length l)"
      "cur + 1 + length l \<le> length msg" "take (length l) (drop (cur + 1) msg) = l"
      "tot + (1 + length l) \<le> maxNameLen"
      "decode_loop msg (cur + (1 + length l)) no hops (tot + (1 + length l))
         (out @ [msg ! cur] @ map foldByte l) = Inr (N, nx)"
  | (ptr) p where "cur + 1 < length msg" "msg ! cur AND 0xc0 = 0xc0"
      "p = push_bit 8 (unat (msg ! cur AND 0x3f)) OR unat (msg ! (cur + 1))" "p < cur"
      "hops + 1 \<le> maxPtrHops"
      "decode_loop msg p (Some (case no of None \<Rightarrow> cur + 2 | Some o' \<Rightarrow> o')) (hops + 1) tot out =
         Inr (N, nx)"
proof -
  let ?b = "msg ! cur"
  have cur: "cur < length msg"
    using assms by (subst (asm) decode_loop.simps) (auto split: if_splits)
  show thesis
  proof (cases "?b AND 0xc0 = 0")
    case True
    show thesis
    proof (cases "?b = 0")
      case b0: True
      with assms cur True show thesis
        by (intro root) (subst (asm) decode_loop.simps; auto simp: Let_def split: if_splits)+
    next
      case False
      let ?l = "take (unat ?b) (drop (cur + 1) msg)"
      have u: "unat ?b \<noteq> 0" "unat ?b < 64" using True False by (auto simp: unat_eq_0 byte_and_c0_0)
      have *: "cur + 1 + unat ?b \<le> length msg \<and> tot + (1 + unat ?b) \<le> maxNameLen \<and>
        decode_loop msg (cur + (1 + unat ?b)) no hops (tot + (1 + unat ?b))
          (out @ [?b] @ map foldByte ?l) = Inr (N, nx)"
        using assms cur True u
        by (subst (asm) decode_loop.simps) (auto simp: Let_def split: if_splits)
      then have "length ?l = unat ?b" by (auto simp: min_def)
      with * u show thesis by (intro label [of ?l]) (auto simp: label_ok_def maxLabelLen_def)
    qed
  next
    case False
    with assms cur show thesis
      by (subst (asm) decode_loop.simps) (auto simp: Let_def split: if_splits intro: ptr)
  qed
qed

lemma decode_loop_sound:
  assumes "decode_loop msg cur no hops tot out = Inr (N, nx)" "hops \<le> maxPtrHops"
  shows "\<exists>ls h n. names_at msg cur ls h n \<and> hops + h \<le> maxPtrHops \<and>
    tot + length (wire_of ls) \<le> maxNameLen \<and> N = Name (out @ map foldByte (wire_of ls)) \<and>
    nx = (case no of None \<Rightarrow> cur + n | Some o' \<Rightarrow> o')"
  using assms
proof (induction "(maxPtrHops - hops) + (maxNameLen - tot)" arbitrary: cur no hops tot out
    rule: less_induct)
  case less
  from less.prems(1) show ?case
  proof (cases rule: decode_loop_cases)
    case root
    then have "names_at msg cur [] 0 1" by (intro at_root)
    with root less.prems(2) show ?thesis
      by (intro exI [of _ "[]"] exI [of _ "0::nat"] exI [of _ "1::nat"])
        (auto simp: foldByte_def split: option.splits)
  next
    case (label l)
    from label(5) have "(maxPtrHops - hops) + (maxNameLen - (tot + (1 + length l))) <
      (maxPtrHops - hops) + (maxNameLen - tot)" by simp
    from less.hyps [OF this label(6) less.prems(2)]
    obtain ls h n where IH: "names_at msg (cur + (1 + length l)) ls h n" "hops + h \<le> maxPtrHops"
      "tot + (1 + length l) + length (wire_of ls) \<le> maxNameLen"
      "N = Name ((out @ [msg ! cur] @ map foldByte l) @ map foldByte (wire_of ls))"
      "nx = (case no of None \<Rightarrow> cur + (1 + length l) + n | Some o' \<Rightarrow> o')"
      by blast
    have "names_at msg cur (l # ls) h (1 + length l + n)"
      using label IH(1) by (intro at_label) auto
    moreover have "foldByte (word_of_nat (length l)) = word_of_nat (length l)"
      using label(1) by (auto simp: foldByte_small dest: label_okD)
    ultimately show ?thesis
      using IH label(2)
      by (intro exI [of _ "l # ls"] exI [of _ h] exI [of _ "1 + length l + n"])
        (auto split: option.splits)
  next
    case (ptr p)
    from ptr(5) have "(maxPtrHops - (hops + 1)) + (maxNameLen - tot) <
      (maxPtrHops - hops) + (maxNameLen - tot)" by simp
    from less.hyps [OF this ptr(6) ptr(5)]
    obtain ls h n where IH: "names_at msg p ls h n" "hops + 1 + h \<le> maxPtrHops"
      "tot + length (wire_of ls) \<le> maxNameLen" "N = Name (out @ map foldByte (wire_of ls))"
      "nx = (case no of None \<Rightarrow> cur + 2 | Some o' \<Rightarrow> o')"
      by auto
    have "names_at msg cur ls (h + 1) 2"
      using IH(1) ptr by (intro at_pointer) auto
    with IH show ?thesis
      by (intro exI [of _ ls] exI [of _ "h + 1"] exI [of _ 2]) (auto split: option.splits)
  qed
qed

lemma DecodeWire_iff:
  "DecodeWire msg off = Inr (N, nx) \<longleftrightarrow>
     (\<exists>ls h n. names_at msg off ls h n \<and> h \<le> maxPtrHops \<and> length (wire_of ls) \<le> maxNameLen \<and>
        N = Name (map foldByte (wire_of ls)) \<and> nx = off + n)"
proof
  assume "DecodeWire msg off = Inr (N, nx)"
  then have "decode_loop msg off None 0 0 [] = Inr (N, nx)"
    by (auto simp: DecodeWire_def split: if_splits)
  from decode_loop_sound [OF this] show "\<exists>ls h n. names_at msg off ls h n \<and> h \<le> maxPtrHops \<and>
    length (wire_of ls) \<le> maxNameLen \<and> N = Name (map foldByte (wire_of ls)) \<and> nx = off + n"
    by auto
next
  assume "\<exists>ls h n. names_at msg off ls h n \<and> h \<le> maxPtrHops \<and> length (wire_of ls) \<le> maxNameLen \<and>
    N = Name (map foldByte (wire_of ls)) \<and> nx = off + n"
  then obtain ls h n where *: "names_at msg off ls h n" "h \<le> maxPtrHops"
    "length (wire_of ls) \<le> maxNameLen" "N = Name (map foldByte (wire_of ls))" "nx = off + n" by blast
  from decode_loop_complete [OF *(1), of 0 0 None "[]"] * names_at_bound [OF *(1)]
  show "DecodeWire msg off = Inr (N, nx)" by (simp add: DecodeWire_def)
qed

lemma decodeUncompressed_loop_complete:
  assumes "names_at msg cur ls h n" "h = 0" "tot + length (wire_of ls) \<le> maxNameLen"
  shows "decodeUncompressed_loop msg cur tot out =
    Inr (Name (out @ map foldByte (wire_of ls)), cur + n)"
  using assms
proof (induction arbitrary: tot out rule: names_at.induct)
  case (at_root off)
  then show ?case by (subst decodeUncompressed_loop.simps) (simp add: foldByte_def)
next
  case (at_label l off ls h n)
  then have l: "(word_of_nat (length l) :: byte) AND 0xc0 = 0" "l \<noteq> []"
    "foldByte (word_of_nat (length l)) = word_of_nat (length l)"
    by (auto simp: byte_and_c0_0 foldByte_small dest: label_okD)
  from at_label l show ?case
    by (subst decodeUncompressed_loop.simps) (simp add: Let_def)
qed simp

lemma decodeUncompressed_loop_sound:
  assumes "decodeUncompressed_loop msg cur tot out = Inr (N, nx)"
  shows "\<exists>ls n. names_at msg cur ls 0 n \<and> tot + length (wire_of ls) \<le> maxNameLen \<and>
    N = Name (out @ map foldByte (wire_of ls)) \<and> nx = cur + n"
  using assms
proof (induction msg cur tot out rule: decodeUncompressed_loop.induct)
  case (1 msg cur tot out)
  let ?b = "msg ! cur"
  have cur: "cur < length msg" "?b AND 0xc0 = 0"
    using "1.prems" by (subst (asm) decodeUncompressed_loop.simps; auto simp: Let_def split: if_splits)+
  show ?case
  proof (cases "?b = 0")
    case True
    with cur have "names_at msg cur [] 0 1" by (intro at_root)
    with True cur "1.prems" show ?thesis
      by (subst (asm) decodeUncompressed_loop.simps, intro exI [of _ "[]"] exI [of _ "1::nat"])
        (auto simp: foldByte_def split: if_splits)
  next
    case False
    let ?l = "take (unat ?b) (drop (cur + 1) msg)"
    have u: "unat ?b \<noteq> 0" "unat ?b < 64" using cur False by (auto simp: unat_eq_0 byte_and_c0_0)
    have *: "cur + 1 + unat ?b \<le> length msg \<and> tot + (1 + unat ?b) \<le> maxNameLen \<and>
      decodeUncompressed_loop msg (cur + (1 + unat ?b)) (tot + (1 + unat ?b))
        (out @ [?b] @ map foldByte ?l) = Inr (N, nx)"
      using "1.prems" cur u
      by (subst (asm) decodeUncompressed_loop.simps) (auto simp: Let_def split: if_splits)
    obtain ls n where IH: "names_at msg (cur + (1 + unat ?b)) ls 0 n"
      "tot + (1 + unat ?b) + length (wire_of ls) \<le> maxNameLen"
      "N = Name ((out @ [?b] @ map foldByte ?l) @ map foldByte (wire_of ls))"
      "nx = cur + (1 + unat ?b) + n"
      using "1.IH" [OF _ refl _ refl] cur u * by (auto simp: not_less)
    have len: "length ?l = unat ?b" using * by (auto simp: min_def)
    have "names_at msg cur (?l # ls) 0 (1 + length ?l + n)"
      using IH(1) len u * by (intro at_label) (auto simp: label_ok_def maxLabelLen_def)
    moreover have "foldByte ?b = ?b" using u by (simp add: foldByte_small)
    ultimately show ?thesis
      using IH len by (intro exI [of _ "?l # ls"] exI [of _ "1 + length ?l + n"]) auto
  qed
qed

lemma DecodeWireUncompressed_iff:
  "DecodeWireUncompressed msg off = Inr (N, nx) \<longleftrightarrow>
     (\<exists>ls n. names_at msg off ls 0 n \<and> length (wire_of ls) \<le> maxNameLen \<and>
        N = Name (map foldByte (wire_of ls)) \<and> nx = off + n)"
proof
  assume "DecodeWireUncompressed msg off = Inr (N, nx)"
  then have "decodeUncompressed_loop msg off 0 [] = Inr (N, nx)"
    by (auto simp: DecodeWireUncompressed_def split: if_splits)
  from decodeUncompressed_loop_sound [OF this] show "\<exists>ls n. names_at msg off ls 0 n \<and>
    length (wire_of ls) \<le> maxNameLen \<and> N = Name (map foldByte (wire_of ls)) \<and> nx = off + n"
    by simp
next
  assume "\<exists>ls n. names_at msg off ls 0 n \<and> length (wire_of ls) \<le> maxNameLen \<and>
    N = Name (map foldByte (wire_of ls)) \<and> nx = off + n"
  then obtain ls n where *: "names_at msg off ls 0 n"
    "length (wire_of ls) \<le> maxNameLen" "N = Name (map foldByte (wire_of ls))" "nx = off + n" by blast
  from decodeUncompressed_loop_complete [OF *(1) refl, of 0 "[]"] * names_at_bound [OF *(1)]
  show "DecodeWireUncompressed msg off = Inr (N, nx)" by (simp add: DecodeWireUncompressed_def)
qed

text \<open>The uncompressed encoding denotes its labels, wherever it is placed.\<close>

lemma names_at_wire_of:
  "list_all label_ok ls \<Longrightarrow>
   names_at (pre @ wire_of ls @ post) (length pre) ls 0 (length (wire_of ls))"
proof (induction ls arbitrary: pre)
  case Nil
  show ?case using at_root [of "length pre" "pre @ wire_of [] @ post"] by simp
next
  case (Cons l ls)
  let ?m = "pre @ wire_of (l # ls) @ post"
  have "names_at ((pre @ enc_label l) @ wire_of ls @ post) (length (pre @ enc_label l)) ls 0
    (length (wire_of ls))"
    using Cons by (intro Cons.IH) simp
  then have "names_at ?m (length pre + (1 + length l)) ls 0 (length (wire_of ls))"
    by (simp add: enc_label_def)
  with Cons.prems have "names_at ?m (length pre) (l # ls) 0 (1 + length l + length (wire_of ls))"
    by (intro at_label) auto
  then show ?case by simp
qed

subsection \<open>Construction from labels\<close>

lemma fromLabels_loop_iff:
  "fromLabels_loop ls w = Inr w' \<longleftrightarrow>
     list_all label_ok ls \<and> w' = w @ concat (map enc_label (map (map foldByte) ls))"
  by (induction ls arbitrary: w)
    (auto simp: label_ok_def maxLabelLen_def enc_label_def)

lemma FromLabels_iff:
  "FromLabels ls = Inr n \<longleftrightarrow>
     list_all label_ok ls \<and> length (wire_of ls) \<le> maxNameLen \<and>
     n = Name (wire_of (map (map foldByte) ls))"
proof -
  have "length (concat (map enc_label (map (map foldByte) ls)) @ [0 :: byte]) = length (wire_of ls)"
    using length_wire_of_fold [of ls] unfolding wire_of_def by simp
  then have len: "length (wire_of ls) \<le> maxNameLen \<longleftrightarrow>
    \<not> length (concat (map enc_label (map (map foldByte) ls)) @ [0 :: byte]) > maxNameLen"
    by (simp add: not_less)
  show ?thesis
  proof (cases "list_all label_ok ls")
    case True
    then have "fromLabels_loop ls [] = Inr (concat (map enc_label (map (map foldByte) ls)))"
      by (simp add: fromLabels_loop_iff)
    with True show ?thesis
      unfolding len by (auto simp: FromLabels_def Root_def wire_of_def maxNameLen_def)
  next
    case False
    then have "\<nexists>w. fromLabels_loop ls [] = Inr w" by (simp add: fromLabels_loop_iff)
    with False show ?thesis by (auto simp: FromLabels_def split: sum.splits)
  qed
qed

lemma Parent_wire_of:
  assumes "list_all label_ok (l # ls)"
  shows "Parent (Name (wire_of (l # ls))) = Some (Name (wire_of ls))"
  using assms by (auto simp: Parent_def IsValid_def IsRoot_def Let_def)

subsection \<open>Parsing\<close>

text \<open>What the parser keeps of the octets written so far and of the label in progress.\<close>

definition parse_inv :: "bytes \<Rightarrow> bytes \<Rightarrow> bool" where
  "parse_inv w label \<longleftrightarrow>
     (\<exists>ls. w = concat (map enc_label ls) \<and> list_all (\<lambda>l. label_ok l \<and> 0 \<notin> set l) ls) \<and>
     0 \<notin> set label \<and> length label \<le> maxLabelLen"

lemma parse_flush_inv:
  assumes "parse_flush w label = Inr w'" "parse_inv w label"
  shows "parse_inv w' []"
proof -
  obtain ls where "w = concat (map enc_label ls)" "list_all (\<lambda>l. label_ok l \<and> 0 \<notin> set l) ls"
    using assms(2) by (auto simp: parse_inv_def)
  moreover have "w' = w @ enc_label label" "label_ok label"
    using assms by (auto simp: parse_flush_def parse_inv_def enc_label_def label_ok_def Let_def
        split: if_splits)
  ultimately show ?thesis
    using assms(2) unfolding parse_inv_def by (auto intro!: exI [of _ "ls @ [label]"])
qed

lemma parse_appendLabel_inv:
  "parse_appendLabel label c = Inr label' \<Longrightarrow> parse_inv w label \<Longrightarrow> parse_inv w label'"
  by (auto simp: parse_appendLabel_def parse_inv_def split: if_splits)

lemma parse_loop_inv:
  "parse_loop s w label = Inr (w', label') \<Longrightarrow> parse_inv w label \<Longrightarrow> parse_inv w' label'"
proof (induction s w label rule: parse_loop.induct)
  case (2 c s w label)
  consider (dot) "c = chDot" | (esc) "c = chBackslash" | (plain) "c \<noteq> chDot" "c \<noteq> chBackslash"
    by blast
  then show ?case
  proof cases
    case dot
    with "2.prems" obtain w1 where "parse_flush w label = Inr w1" "parse_loop s w1 [] = Inr (w', label')"
      by (auto split: sum.splits)
    with "2.IH"(1) [OF dot] "2.prems"(2) show ?thesis by (blast dest: parse_flush_inv)
  next
    case esc
    with "2.prems" obtain c1 s1 l1 where *: "parse_escape s = Inr (c1, s1)"
      "parse_appendLabel label c1 = Inr l1" "parse_loop s1 w l1 = Inr (w', label')"
      by (auto split: sum.splits)
    with "2.IH"(2) [OF _ esc *(1) refl *(2)] esc "2.prems"(2) show ?thesis
      by (auto dest: parse_appendLabel_inv)
  next
    case plain
    with "2.prems" obtain l1 where *: "parse_appendLabel label (foldByte c) = Inr l1"
      "parse_loop s w l1 = Inr (w', label')" by (auto split: sum.splits)
    with "2.IH"(3) [OF plain *(1)] "2.prems"(2) show ?thesis by (auto dest: parse_appendLabel_inv)
  qed
qed auto

lemma parse_inv_wf:
  assumes "parse_inv w []" "length (w @ [0]) \<le> maxNameLen"
  shows "wf_name (Name (w @ [0])) \<and> no_nul (Name (w @ [0]))"
proof -
  from assms(1) obtain ls where *: "w = concat (map enc_label ls)"
    "list_all (\<lambda>l. label_ok l \<and> 0 \<notin> set l) ls" by (auto simp: parse_inv_def)
  then have w: "w @ [0] = wire_of ls" by (simp add: wire_of_def)
  have ok: "list_all label_ok ls" "list_all (\<lambda>l. 0 \<notin> set l) ls" using *(2) by (auto simp: list_all_iff)
  show ?thesis
    unfolding w using wf_nameI [OF ok(1)] assms(2) ok unfolding w by (simp add: no_nul_def)
qed

lemma Parse_wf:
  assumes "Parse s = Inr n"
  shows "wf_name n \<and> no_nul n"
proof (cases "s = [chDot]")
  case True
  with assms show ?thesis by (auto simp: Parse_def)
next
  case False
  with assms obtain w label where l: "parse_loop s [] [] = Inr (w, label)" "s \<noteq> []"
    by (auto simp: Parse_def split: if_splits sum.splits)
  have inv: "parse_inv w label"
    by (rule parse_loop_inv [OF l(1)]) (auto simp: parse_inv_def intro: exI [of _ "[]"])
  from assms False l obtain w' where w': "(if length label > 0 then parse_flush w label else Inr w) = Inr w'"
    "length (w' @ [0]) \<le> maxNameLen" "n = Name (w' @ [0])"
    by (auto simp: Parse_def not_less split: if_splits sum.splits)
  then have "parse_inv w' []"
    using inv by (auto dest: parse_flush_inv split: if_splits)
  with w' parse_inv_wf show ?thesis by simp
qed

subsection \<open>Printing\<close>

lemma digit_byte:
  assumes "k < 10"
  shows "isDigit (ch0 + word_of_nat k) \<and> unat (ch0 + word_of_nat k - ch0 :: byte) = k"
proof -
  have "list_all (\<lambda>k. isDigit (ch0 + word_of_nat k) \<and> unat (ch0 + word_of_nat k - ch0 :: byte) = k) [0..<10]"
    by code_simp
  with assms show ?thesis by (simp add: list_all_iff)
qed

lemma dec3_value:
  "unat (ch0 + word_of_nat (unat (c :: byte) div 100) - ch0 :: byte) * 100 +
   unat (ch0 + word_of_nat (unat c div 10 mod 10) - ch0 :: byte) * 10 +
   unat (ch0 + word_of_nat (unat c mod 10) - ch0 :: byte) = unat c"
proof -
  have "unat c div 100 < 10" using unat_byte_less [of c] by linarith
  then have "unat (ch0 + word_of_nat (unat c div 100) - ch0 :: byte) = unat c div 100"
    "unat (ch0 + word_of_nat (unat c div 10 mod 10) - ch0 :: byte) = unat c div 10 mod 10"
    "unat (ch0 + word_of_nat (unat c mod 10) - ch0 :: byte) = unat c mod 10"
    using digit_byte by auto
  moreover have "unat c div 100 = unat c div 10 div 10"
    using div_mult2_eq [of "unat c" 10 10] by simp
  then have "unat c div 100 * 100 + unat c div 10 mod 10 * 10 + unat c mod 10 = unat c"
    using div_mult_mod_eq [of "unat c" 10] div_mult_mod_eq [of "unat c div 10" 10] by linarith
  ultimately show ?thesis by simp
qed

lemma parse_escape_dec3: "parse_escape (dec3 c @ s) = Inr (c, s)"
proof -
  have "unat c div 100 < 10" using unat_byte_less [of c] by linarith
  then have d: "isDigit (ch0 + word_of_nat (unat c div 100))"
    "isDigit (ch0 + word_of_nat (unat c div 10 mod 10))" "isDigit (ch0 + word_of_nat (unat c mod 10))"
    using digit_byte [of "unat c div 100"] digit_byte [of "unat c div 10 mod 10"]
      digit_byte [of "unat c mod 10"] by auto
  have "\<not> 255 < unat c" using unat_byte_less [of c] by linarith
  with d show ?thesis
    by (simp only: dec3_def append.simps parse_escape.simps if_True list.case Let_def dec3_value
        simp_thms if_False of_nat_unat ucast_id)
qed

lemma parse_escape_literal: "\<not> isDigit c \<Longrightarrow> foldByte c = c \<Longrightarrow> parse_escape (c # s) = Inr (c, s)"
  by simp

lemma parse_loop_escapeByte:
  assumes "foldByte c = c" "c \<noteq> 0" "length label < maxLabelLen"
  shows "parse_loop (escapeByte c @ s) w label = parse_loop s w (label @ [c])"
proof -
  have ap: "parse_appendLabel label c = Inr (label @ [c])"
    using assms by (simp add: parse_appendLabel_def)
  have "parse_escape (c # s) = Inr (c, s)" if "c = chDot \<or> c = chBackslash"
    using that assms(1) by (intro parse_escape_literal) (auto simp: isDigit_def)
  with assms ap show ?thesis
    by (auto simp: escapeByte_def parse_escape_dec3 simp del: parse_escape.simps)
qed

lemma parse_loop_escape_label:
  "\<forall>c \<in> set l. foldByte c = c \<and> c \<noteq> 0 \<Longrightarrow> length (label @ l) \<le> maxLabelLen \<Longrightarrow>
   parse_loop (concat (map escapeByte l) @ s) w label = parse_loop s w (label @ l)"
  by (induction l arbitrary: label) (auto simp: parse_loop_escapeByte)

lemma parse_flush_ok:
  "label_ok l \<Longrightarrow> length (w @ enc_label l) \<le> maxNameLen \<Longrightarrow> parse_flush w l = Inr (w @ enc_label l)"
  by (auto simp: parse_flush_def label_ok_def enc_label_def Let_def)

lemma parse_loop_string_loop:
  assumes "list_all label_ok ls" "\<forall>l \<in> set ls. \<forall>c \<in> set l. foldByte c = c \<and> c \<noteq> 0"
    "length (w @ wire_of ls) \<le> maxNameLen"
  shows "parse_loop (string_loop (wire_of ls)) w [] = Inr (w @ concat (map enc_label ls), [])"
  using assms
proof (induction ls arbitrary: w)
  case (Cons l ls)
  have "parse_loop (concat (map escapeByte l) @ [chDot] @ string_loop (wire_of ls)) w [] =
    parse_loop ([chDot] @ string_loop (wire_of ls)) w l"
    using Cons.prems by (subst parse_loop_escape_label) (auto simp: label_ok_def)
  also have "\<dots> = parse_loop (string_loop (wire_of ls)) (w @ enc_label l) []"
    using Cons.prems by (simp add: parse_flush_ok enc_label_def)
  also have "\<dots> = Inr ((w @ enc_label l) @ concat (map enc_label ls), [])"
    using Cons.prems by (intro Cons.IH) (auto simp: enc_label_def)
  finally show ?case using Cons.prems by simp
qed simp

lemma escapeByte_neq_Nil: "escapeByte c \<noteq> []"
  by (simp add: escapeByte_def)

lemma Parse_NameString:
  assumes "wf_name n" "canonical n" "no_nul n"
  shows "Parse (NameString n) = Inr n"
proof -
  from assms(1) obtain ls where n: "n = Name (wire_of ls)" "Labels n = ls" "list_all label_ok ls"
    "length (wire_of ls) \<le> maxNameLen" by (rule wf_nameE)
  have fold: "\<forall>l \<in> set ls. \<forall>c \<in> set l. foldByte c = c \<and> c \<noteq> 0"
    using canonical_labels [OF n(3)] assms(2,3) n by (auto simp: no_nul_def list_all_iff)
  show ?thesis
  proof (cases ls)
    case Nil
    with n show ?thesis by (simp add: NameString_def IsValid_def IsRoot_def Parse_def Root_def)
  next
    case (Cons l ls')
    then have nr: "IsValid n" "\<not> IsRoot n" using n by (auto simp: IsValid_def IsRoot_def)
    obtain c l' where "l = c # l'" using Cons n(3) by (cases l) (auto simp: label_ok_def)
    then have "string_loop (wire_of ls) \<noteq> [chDot]" "string_loop (wire_of ls) \<noteq> []"
      unfolding string_loop_wire_of [OF n(3)] using Cons escapeByte_neq_Nil [of c]
      by (auto simp: append_eq_Cons_conv)
    with nr parse_loop_string_loop [OF n(3) fold, of "[]"] n show ?thesis
      by (simp add: Parse_def NameString_def wire_of_def)
  qed
qed

end
