(* ===== verification/Wire_Codec.thy ===== *)
theory Wire_Codec
  imports Wire_Name
begin

text \<open>
  The packer and the unpacker (\<^verbatim>\<open>wire/wirebb/wire.go\<close>).  A packer is the buffer written so far
  and the table of name suffixes already emitted; its methods are functions on that record.  An
  unpacker is the message and the read offset; its methods return the result or the error together
  with the unpacker they leave behind, because the offset of a failed read is reported to callers.
\<close>

subsection \<open>Packer\<close>

record packer =
  pbuf :: bytes
  pcomp :: "bytes \<Rightarrow> nat option"

definition NewPacker :: "bytes \<Rightarrow> packer" where
  "NewPacker b = \<lparr>pbuf = b, pcomp = (\<lambda>_. None)\<rparr>"

definition putRaw :: "bytes \<Rightarrow> packer \<Rightarrow> packer" where
  "putRaw b p = p\<lparr>pbuf := pbuf p @ b\<rparr>"

definition putUint8 :: "u8 \<Rightarrow> packer \<Rightarrow> packer" where
  "putUint8 v p = p\<lparr>pbuf := pbuf p @ [v]\<rparr>"

definition putUint16 :: "u16 \<Rightarrow> packer \<Rightarrow> packer" where
  "putUint16 v p = p\<lparr>pbuf := pbuf p @ be16 v\<rparr>"

definition putUint32 :: "u32 \<Rightarrow> packer \<Rightarrow> packer" where
  "putUint32 v p = p\<lparr>pbuf := pbuf p @ be32 v\<rparr>"

definition putCharString :: "bytes \<Rightarrow> packer \<Rightarrow> wire_error option \<times> packer" where
  "putCharString s p =
     (if length s > 255 then (Some (ErrOther ''character string exceeds 255 bytes''), p)
      else (None, p\<lparr>pbuf := pbuf p @ [word_of_nat (length s)] @ s\<rparr>))"

definition nameWire :: "wname \<Rightarrow> bytes" where
  "nameWire n = (if \<not> IsValid n then [0] else AppendWire n [])"

text \<open>The test \<^verbatim>\<open>ptr, ok := p.comp[suffix]; ok && ptr < 1<<14 && len(p.buf) < 1<<14\<close>\<close>

definition comp_hit :: "bytes \<Rightarrow> packer \<Rightarrow> bool" where
  "comp_hit w p \<longleftrightarrow>
     pcomp p w \<noteq> None \<and> the (pcomp p w) < 2 ^ 14 \<and> length (pbuf p) < 2 ^ 14"

text \<open>\<^verbatim>\<open>if len(p.buf) < 1<<14 { p.comp[suffix] = len(p.buf) }\<close>\<close>

definition comp_record :: "bytes \<Rightarrow> packer \<Rightarrow> packer" where
  "comp_record w p =
     (if length (pbuf p) < 2 ^ 14 then p\<lparr>pcomp := (pcomp p)(w \<mapsto> length (pbuf p))\<rparr> else p)"

function putName_loop :: "bytes \<Rightarrow> packer \<Rightarrow> packer" where
  "putName_loop w p =
     (case w of
        [] \<Rightarrow> p
      | b # r \<Rightarrow>
          let l = unat b in
          if l = 0 then p\<lparr>pbuf := pbuf p @ [0]\<rparr>
          else if comp_hit w p then
            let ptr = the (pcomp p w) in
            p\<lparr>pbuf := pbuf p @ [0xc0 OR word_of_nat (drop_bit 8 ptr), word_of_nat ptr]\<rparr>
          else
            putName_loop (drop l r) ((comp_record w p)\<lparr>pbuf := pbuf p @ [b] @ take l r\<rparr>))"
  by pat_completeness auto
termination by (relation "measure (\<lambda>(w, p). length w)") auto

declare putName_loop.simps [simp del]

definition putName :: "wname \<Rightarrow> packer \<Rightarrow> packer" where
  "putName n p = putName_loop (nameWire n) p"

definition putNameUncompressed :: "wname \<Rightarrow> packer \<Rightarrow> packer" where
  "putNameUncompressed n p = p\<lparr>pbuf := AppendWire n (pbuf p)\<rparr>"

text \<open>The statements of a \<^verbatim>\<open>Pack\<close> method, one after the other.\<close>

fun pseq :: "(packer \<Rightarrow> packer) list \<Rightarrow> packer \<Rightarrow> packer" where
  "pseq [] p = p"
| "pseq (f # fs) p = pseq fs (f p)"

subsection \<open>Unpacker\<close>

record unpacker =
  umsg :: bytes
  uoff :: nat

type_synonym 'a unp = "unpacker \<Rightarrow> (wire_error + 'a) \<times> unpacker"

definition ureturn :: "'a \<Rightarrow> 'a unp" where
  "ureturn x u = (Inr x, u)"

definition ufail :: "wire_error \<Rightarrow> 'a unp" where
  "ufail e u = (Inl e, u)"

definition ubind :: "'a unp \<Rightarrow> ('a \<Rightarrow> 'b unp) \<Rightarrow> 'b unp" where
  "ubind m f u =
     (case m u of
        (Inl e, u') \<Rightarrow> (Inl e, u')
      | (Inr x, u') \<Rightarrow> f x u')"

text \<open>\<^verbatim>\<open>if cond { return zero, err }\<close>\<close>

definition uguard :: "bool \<Rightarrow> wire_error \<Rightarrow> unit unp" where
  "uguard b e = (if b then ufail e else ureturn ())"

definition uOff :: "nat unp" where
  "uOff u = (Inr (uoff u), u)"

definition NewUnpacker :: "bytes \<Rightarrow> unpacker" where
  "NewUnpacker msg = \<lparr>umsg = msg, uoff = 0\<rparr>"

definition uRemaining :: "unpacker \<Rightarrow> int" where
  "uRemaining u = int (length (umsg u)) - int (uoff u)"

definition getUint8 :: "u8 unp" where
  "getUint8 u =
     (if uoff u + 1 > length (umsg u) then (Inl ErrTruncated, u)
      else (Inr (umsg u ! uoff u), u\<lparr>uoff := uoff u + 1\<rparr>))"

definition getUint16 :: "u16 unp" where
  "getUint16 u =
     (if uoff u + 2 > length (umsg u) then (Inl ErrTruncated, u)
      else (Inr (rd16 (drop (uoff u) (umsg u))), u\<lparr>uoff := uoff u + 2\<rparr>))"

definition getUint32 :: "u32 unp" where
  "getUint32 u =
     (if uoff u + 4 > length (umsg u) then (Inl ErrTruncated, u)
      else (Inr (rd32 (drop (uoff u) (umsg u))), u\<lparr>uoff := uoff u + 4\<rparr>))"

definition getBytes :: "int \<Rightarrow> bytes unp" where
  "getBytes n u =
     (if n < 0 \<or> int (uoff u) + n > int (length (umsg u)) then (Inl ErrTruncated, u)
      else (Inr (take (nat n) (drop (uoff u) (umsg u))), u\<lparr>uoff := uoff u + nat n\<rparr>))"

definition getCharString :: "bytes unp" where
  "getCharString = ubind getUint8 (\<lambda>l. getBytes (int (unat l)))"

definition clampEnd :: "int \<Rightarrow> unpacker \<Rightarrow> int" where
  "clampEnd e u = (if e < 0 \<or> e > int (length (umsg u)) then int (length (umsg u)) else e)"

definition getCharStringInRange :: "int \<Rightarrow> bytes unp" where
  "getCharStringInRange e u =
     (let e' = clampEnd e u in
      if int (uoff u) \<ge> e' then (Inl ErrTruncated, u)
      else
        ubind getUint8 (\<lambda>l.
        ubind uOff (\<lambda>o1.
          if int o1 + int (unat l) > e' then ufail ErrTruncated else getBytes (int (unat l)))) u)"

definition getName :: "wname unp" where
  "getName u =
     (case DecodeWire (umsg u) (uoff u) of
        Inl e \<Rightarrow> (Inl e, u)
      | Inr (n, nx) \<Rightarrow> (Inr n, u\<lparr>uoff := nx\<rparr>))"

definition getNameInRange :: "int \<Rightarrow> wname unp" where
  "getNameInRange e u =
     (let e' = clampEnd e u in
      if int (uoff u) > e' then (Inl ErrTruncated, u)
      else
        (case DecodeWire (umsg u) (uoff u) of
           Inl er \<Rightarrow> (Inl er, u)
         | Inr (n, nx) \<Rightarrow>
             if int nx > e' then (Inl ErrTruncated, u) else (Inr n, u\<lparr>uoff := nx\<rparr>)))"

definition getUncompressedName :: "int \<Rightarrow> wname unp" where
  "getUncompressedName rdlength u =
     (let e0 = int (uoff u) + rdlength;
          e = (if rdlength < 0 \<or> e0 > int (length (umsg u)) \<or> e0 < int (uoff u)
               then int (length (umsg u)) else e0) in
      if int (uoff u) > e then (Inl ErrTruncated, u)
      else
        (case DecodeWireUncompressed (take (nat e) (umsg u)) (uoff u) of
           Inl er \<Rightarrow> (Inl er, u)
         | Inr (n, nx) \<Rightarrow> (Inr n, u\<lparr>uoff := nx\<rparr>)))"

text \<open>
  The loop \<^verbatim>\<open>for u.Off() < end { ... }\<close> with an accumulator.  Every body used below consumes at
  least one octet, so the distance to \<^verbatim>\<open>end\<close> bounds the number of iterations; running out of that
  bound is the value \<open>Diverges\<close>, which the locale \<open>item_reader\<close> shows never arises.
\<close>

fun off_loop :: "nat \<Rightarrow> int \<Rightarrow> ('a \<Rightarrow> 'a unp) \<Rightarrow> 'a \<Rightarrow> 'a unp" where
  "off_loop 0 e body acc u =
     (if int (uoff u) < e then (Inl Diverges, u) else (Inr acc, u))"
| "off_loop (Suc k) e body acc u =
     (if int (uoff u) < e then ubind (body acc) (off_loop k e body) u else (Inr acc, u))"

definition forOff :: "int \<Rightarrow> ('a \<Rightarrow> 'a unp) \<Rightarrow> 'a \<Rightarrow> 'a unp" where
  "forOff e body acc u = off_loop (nat (e - int (uoff u))) e body acc u"

subsection \<open>Names written by the packer\<close>

lemma putName_loop_cases:
  "putName_loop [] p = p"
  "unat b = 0 \<Longrightarrow> putName_loop (b # r) p = p\<lparr>pbuf := pbuf p @ [0]\<rparr>"
  "unat b \<noteq> 0 \<Longrightarrow> comp_hit (b # r) p \<Longrightarrow> ptr = the (pcomp p (b # r)) \<Longrightarrow>
     putName_loop (b # r) p = p\<lparr>pbuf := pbuf p @ [0xc0 OR word_of_nat (drop_bit 8 ptr), word_of_nat ptr]\<rparr>"
  "unat b \<noteq> 0 \<Longrightarrow> \<not> comp_hit (b # r) p \<Longrightarrow>
     putName_loop (b # r) p = putName_loop (drop (unat b) r)
       ((comp_record (b # r) p)\<lparr>pbuf := pbuf p @ [b] @ take (unat b) r\<rparr>)"
  by (simp_all add: putName_loop.simps [of "[]"] putName_loop.simps [of "b # r"] Let_def)

lemma comp_record_simps [simp]:
  "pbuf (comp_record w p) = pbuf p"
  "length b = length (pbuf p) \<Longrightarrow> comp_record w (p\<lparr>pbuf := b\<rparr>) = (comp_record w p)\<lparr>pbuf := b\<rparr>"
  by (simp_all add: comp_record_def)

lemma wire_of_inj:
  assumes "list_all label_ok ls" "list_all label_ok ls'" "wire_of ls = wire_of ls'"
  shows "ls = ls'"
  using assms labels_loop_wire_of by metis

lemma length_enc_label [simp]: "length (enc_label l) = Suc (length l)"
  by (simp add: enc_label_def)

lemma enc_label_neq_Nil [simp]: "enc_label l \<noteq> []"
  by (simp add: enc_label_def)

lemma names_at_prefix:
  assumes "list_all label_ok ls1" "msg = pre @ concat (map enc_label ls1) @ rest"
    "names_at msg (length pre + length (concat (map enc_label ls1))) ls h n"
  shows "names_at msg (length pre) (ls1 @ ls) h (length (concat (map enc_label ls1)) + n)"
  using assms
proof (induction ls1 arbitrary: pre)
  case (Cons l ls1)
  let ?n = "length (concat (map enc_label ls1)) + n"
  have 1: "names_at msg (length (pre @ enc_label l)) (ls1 @ ls) h ?n"
    using Cons.prems by (intro Cons.IH) (auto simp: ac_simps)
  have 2: "names_at msg (length pre + (1 + length l)) (ls1 @ ls) h ?n"
    using 1 by (simp add: ac_simps)
  have "names_at msg (length pre) (l # ls1 @ ls) h (1 + length l + ?n)"
    using Cons.prems 2
    by (intro at_label) (auto simp: enc_label_def nth_append)
  then show ?case by (simp add: ac_simps)
qed simp

text \<open>
  The compression table of a packer between two calls: each entry maps the wire form of a non-root
  name to an offset below \<open>2 ^ 14\<close> at which that name can be read, through fewer pointers than it
  has labels.
\<close>

definition comp_ok :: "packer \<Rightarrow> bool" where
  "comp_ok p \<longleftrightarrow>
     (\<forall>w ptr. pcomp p w = Some ptr \<longrightarrow> ptr < 2 ^ 14 \<and>
        (\<exists>ls h n. w = wire_of ls \<and> names_at (pbuf p) ptr ls h n \<and> h < length ls))"

text \<open>
  Inside \<open>putName_loop\<close> the entries of the name being written are still open: the labels
  \<open>ls1\<close> of such an entry fill the buffer from its offset to the end, and the labels \<open>ls\<close> that
  complete it are about to be written.
\<close>

definition comp_pend :: "packer \<Rightarrow> bytes list \<Rightarrow> bool" where
  "comp_pend p ls \<longleftrightarrow>
     (\<forall>w ptr. pcomp p w = Some ptr \<longrightarrow> ptr < 2 ^ 14 \<and>
        ((\<exists>ls' h n. w = wire_of ls' \<and> names_at (pbuf p) ptr ls' h n \<and> h < length ls') \<or>
         (\<exists>ls1 pre. ls1 \<noteq> [] \<and> list_all label_ok ls1 \<and> w = wire_of (ls1 @ ls) \<and>
            ptr = length pre \<and> pbuf p = pre @ concat (map enc_label ls1))))"

lemma comp_ok_pend: "comp_ok p \<Longrightarrow> comp_pend p ls"
  unfolding comp_ok_def comp_pend_def by blast

lemma comp_pend_close:
  assumes "comp_pend p ls" "pbuf p' = pbuf p @ enc" "pcomp p' = pcomp p"
    "names_at (pbuf p') (length (pbuf p)) ls h n" "h \<le> length ls"
  shows "comp_ok p'"
  unfolding comp_ok_def
proof (intro allI impI)
  fix w ptr assume "pcomp p' w = Some ptr"
  with assms(1,3) have ptr: "ptr < 2 ^ 14"
    and or: "(\<exists>ls' h n. w = wire_of ls' \<and> names_at (pbuf p) ptr ls' h n \<and> h < length ls') \<or>
         (\<exists>ls1 pre. ls1 \<noteq> [] \<and> list_all label_ok ls1 \<and> w = wire_of (ls1 @ ls) \<and>
            ptr = length pre \<and> pbuf p = pre @ concat (map enc_label ls1))"
    unfolding comp_pend_def by auto
  from or have "\<exists>ls h n. w = wire_of ls \<and> names_at (pbuf p') ptr ls h n \<and> h < length ls"
  proof
    assume "\<exists>ls' h n. w = wire_of ls' \<and> names_at (pbuf p) ptr ls' h n \<and> h < length ls'"
    then show ?thesis using assms(2) names_at_append by metis
  next
    assume "\<exists>ls1 pre. ls1 \<noteq> [] \<and> list_all label_ok ls1 \<and> w = wire_of (ls1 @ ls) \<and>
            ptr = length pre \<and> pbuf p = pre @ concat (map enc_label ls1)"
    then obtain ls1 pre where *: "ls1 \<noteq> []" "list_all label_ok ls1" "w = wire_of (ls1 @ ls)"
      "ptr = length pre" "pbuf p = pre @ concat (map enc_label ls1)" by blast
    have "names_at (pbuf p') (length pre) (ls1 @ ls) h (length (concat (map enc_label ls1)) + n)"
      using * assms(2,4) by (intro names_at_prefix [where rest = enc]) auto
    moreover have "h < length (ls1 @ ls)" using assms(5) *(1) by (cases ls1) auto
    ultimately show ?thesis using * by blast
  qed
  with ptr show "ptr < 2 ^ 14 \<and> (\<exists>ls h n. w = wire_of ls \<and> names_at (pbuf p') ptr ls h n \<and> h < length ls)"
    by simp
qed

lemma comp_pend_lookup:
  assumes "comp_pend p ls" "list_all label_ok ls" "pcomp p (wire_of ls) = Some ptr"
  shows "ptr < 2 ^ 14 \<and> (\<exists>h n. names_at (pbuf p) ptr ls h n \<and> h < length ls)"
proof -
  have "wire_of ls = wire_of (ls1 @ ls) \<Longrightarrow> ls1 = []" for ls1
    by (drule arg_cong [of _ _ length]) (cases ls1; simp add: wire_of_def)
  with assms show ?thesis
    unfolding comp_pend_def by (metis names_at_labels_ok wire_of_inj)
qed

lemma comp_pend_label:
  assumes "comp_pend p (l # ls)" "label_ok l"
    "pbuf p' = pbuf p @ enc_label l"
    "pcomp p' = pcomp p \<or> length (pbuf p) < 2 ^ 14 \<and>
       pcomp p' = (pcomp p)(wire_of (l # ls) \<mapsto> length (pbuf p))"
  shows "comp_pend p' ls"
  unfolding comp_pend_def
proof (intro allI impI)
  fix w ptr assume w: "pcomp p' w = Some ptr"
  let ?old = "\<exists>ls' h n. w = wire_of ls' \<and> names_at (pbuf p') ptr ls' h n \<and> h < length ls'"
  let ?new = "\<exists>ls1 pre. ls1 \<noteq> [] \<and> list_all label_ok ls1 \<and> w = wire_of (ls1 @ ls) \<and>
            ptr = length pre \<and> pbuf p' = pre @ concat (map enc_label ls1)"
  show "ptr < 2 ^ 14 \<and> (?old \<or> ?new)"
  proof (cases "pcomp p w = Some ptr")
    case True
    then consider "ptr < 2 ^ 14" "\<exists>ls' h n. w = wire_of ls' \<and> names_at (pbuf p) ptr ls' h n \<and> h < length ls'"
      | ls1 pre where "ptr < 2 ^ 14" "list_all label_ok ls1" "w = wire_of (ls1 @ l # ls)"
            "ptr = length pre" "pbuf p = pre @ concat (map enc_label ls1)"
      using assms(1) unfolding comp_pend_def by blast
    then show ?thesis
    proof cases
      case 1
      then show ?thesis using assms(3) names_at_append by metis
    next
      case 2
      then have ?new using assms(2,3) by (intro exI [of _ "ls1 @ [l]"] exI [of _ pre]) auto
      with 2 show ?thesis by blast
    qed
  next
    case False
    with w assms(4) have "w = wire_of (l # ls)" "ptr = length (pbuf p)" "length (pbuf p) < 2 ^ 14"
      by (auto split: if_splits)
    moreover from this assms(2,3) have ?new
      by (intro exI [of _ "[l]"] exI [of _ "pbuf p"]) auto
    ultimately show ?thesis by simp
  qed
qed

lemma names_at_new_pointer:
  assumes "names_at buf ptr ls h n" "ptr < 2 ^ 14"
  shows "names_at (buf @ [0xc0 OR word_of_nat (drop_bit 8 ptr), word_of_nat ptr]) (length buf) ls (h + 1) 2"
proof -
  let ?m = "buf @ [0xc0 OR word_of_nat (drop_bit 8 ptr), word_of_nat ptr]"
  have p: "names_at ?m ptr ls h n" "ptr < length buf"
    using assms names_at_append names_at_bound by (blast, blast)
  show ?thesis
    using pointer_roundtrip [of ptr] assms(2) p
    by (intro at_pointer [where ptr = ptr and n = n]) (auto simp: nth_append)
qed

lemma putName_loop_ok:
  assumes "list_all label_ok ls" "comp_pend p ls"
  shows "\<exists>enc h. pbuf (putName_loop (wire_of ls) p) = pbuf p @ enc \<and> h \<le> length ls \<and>
    names_at (pbuf (putName_loop (wire_of ls) p)) (length (pbuf p)) ls h (length enc) \<and>
    comp_ok (putName_loop (wire_of ls) p)"
  using assms
proof (induction ls arbitrary: p)
  case Nil
  let ?p = "p\<lparr>pbuf := pbuf p @ [0]\<rparr>"
  have "putName_loop (wire_of []) p = ?p" by (subst putName_loop.simps) simp
  moreover have n: "names_at (pbuf ?p) (length (pbuf p)) [] 0 1" by (intro at_root) auto
  moreover have "comp_ok ?p" using Nil n by (intro comp_pend_close [OF Nil.prems(2)]) auto
  ultimately show ?case by auto
next
  case (Cons l ls)
  let ?w = "wire_of (l # ls)"
  have lok: "label_ok l" "list_all label_ok ls" "l \<noteq> []" using Cons.prems by (auto dest: label_okD)
  show ?case
  proof (cases "comp_hit ?w p")
    case True
    then obtain ptr where ptr: "pcomp p ?w = Some ptr" by (auto simp: comp_hit_def)
    from comp_pend_lookup [OF Cons.prems(2,1) ptr] obtain h n where
      *: "ptr < 2 ^ 14" "names_at (pbuf p) ptr (l # ls) h n" "h < length (l # ls)" by blast
    let ?e = "[0xc0 OR word_of_nat (drop_bit 8 ptr), word_of_nat ptr]"
    let ?p = "p\<lparr>pbuf := pbuf p @ ?e\<rparr>"
    have "putName_loop ?w p = ?p"
      using True ptr lok by (simp add: putName_loop_cases)
    moreover have n: "names_at (pbuf ?p) (length (pbuf p)) (l # ls) (h + 1) 2"
      using names_at_new_pointer [OF *(2,1)] by simp
    moreover have "comp_ok ?p"
      using * n by (intro comp_pend_close [OF Cons.prems(2), where enc = ?e and h = "h + 1" and n = 2]) auto
    ultimately show ?thesis
      using *(3) by (intro exI [of _ ?e] exI [of _ "h + 1"]) (auto simp: numeral_2_eq_2)
  next
    case False
    let ?p2 = "(comp_record ?w p)\<lparr>pbuf := pbuf p @ enc_label l\<rparr>"
    have eq: "putName_loop ?w p = putName_loop (wire_of ls) ?p2"
      using False lok by (simp add: putName_loop_cases enc_label_def)
    have pend: "comp_pend ?p2 ls"
      using lok by (intro comp_pend_label [OF Cons.prems(2)]) (auto simp: comp_record_def)
    from Cons.IH [OF lok(2) pend] obtain enc h where
      IH: "pbuf (putName_loop (wire_of ls) ?p2) = pbuf ?p2 @ enc" "h \<le> length ls"
      "names_at (pbuf (putName_loop (wire_of ls) ?p2)) (length (pbuf ?p2)) ls h (length enc)"
      "comp_ok (putName_loop (wire_of ls) ?p2)" by blast
    have "names_at (pbuf (putName_loop (wire_of ls) ?p2)) (length (pbuf p)) ([l] @ ls) h
        (length (concat (map enc_label [l])) + length enc)"
      using IH lok by (intro names_at_prefix [where rest = enc]) auto
    then show ?thesis
      unfolding eq using IH(1,2,4)
      by (intro exI [of _ "enc_label l @ enc"] exI [of _ h]) auto
  qed
qed

lemma nameWire_wf [simp]: "wf_name n \<Longrightarrow> nameWire n = wire n"
  by (auto simp: nameWire_def AppendWire_def)

lemma putName_ok:
  assumes "wf_name n" "comp_ok p"
  obtains enc h where "pbuf (putName n p) = pbuf p @ enc" "h \<le> length (Labels n)"
    "names_at (pbuf p @ enc) (length (pbuf p)) (Labels n) h (length enc)"
    "comp_ok (putName n p)"
proof -
  from assms(1) obtain ls where ls: "n = Name (wire_of ls)" "Labels n = ls" "list_all label_ok ls"
    by (rule wf_nameE)
  from putName_loop_ok [OF ls(3) comp_ok_pend [OF assms(2)]] assms(1) ls that show thesis
    by (auto simp: putName_def)
qed

subsection \<open>Append-only packer operations\<close>

text \<open>
  An operation is an appender when it only extends the buffer, by octets that depend on the buffer
  through its length alone.  Writing a length placeholder, packing, and patching the placeholder is
  then the same as writing the right length first.
\<close>

definition packs :: "(packer \<Rightarrow> packer) \<Rightarrow> packer \<Rightarrow> bytes \<Rightarrow> bool" where
  "packs f p enc \<longleftrightarrow>
     (\<forall>b. length b = length (pbuf p) \<longrightarrow> f (p\<lparr>pbuf := b\<rparr>) = (f p)\<lparr>pbuf := b @ enc\<rparr>)"

definition appender_op :: "(packer \<Rightarrow> packer) \<Rightarrow> bool" where
  "appender_op f \<longleftrightarrow> (\<forall>p. \<exists>enc. packs f p enc)"

lemma packs_buf: "packs f p enc \<Longrightarrow> pbuf (f p) = pbuf p @ enc"
  unfolding packs_def by (metis packer.select_convs(1) packer.surjective packer.update_convs(1))

lemma packs_comp:
  assumes "packs f p e1" "packs g (f p) e2"
  shows "packs (\<lambda>p. g (f p)) p (e1 @ e2)"
  using assms packs_buf [OF assms(1)] unfolding packs_def by simp

lemma appender_comp:
  "appender_op f \<Longrightarrow> appender_op g \<Longrightarrow> appender_op (\<lambda>p. g (f p))"
  unfolding appender_op_def using packs_comp by metis

lemma appender_id [append_intros]: "appender_op (\<lambda>p. p)"
  unfolding appender_op_def packs_def by (auto intro!: exI [of _ "[]"])

lemma packs_raw [append_intros]:
  "packs (putRaw b) p b" "packs (putUint8 v8) p [v8]" "packs (putUint16 v16) p (be16 v16)"
  "packs (putUint32 v32) p (be32 v32)" "packs (putNameUncompressed n) p (AppendWire n [])"
  by (simp_all add: packs_def putRaw_def putUint8_def putUint16_def putUint32_def
      putNameUncompressed_def AppendWire_def)

lemma appender_raw [append_intros]:
  "appender_op (putRaw b)" "appender_op (putUint8 v8)" "appender_op (putUint16 v16)"
  "appender_op (putUint32 v32)" "appender_op (putNameUncompressed n)"
  unfolding appender_op_def using packs_raw by blast+

lemma appender_charString [append_intros]: "appender_op (\<lambda>p. snd (putCharString s p))"
  unfolding appender_op_def packs_def putCharString_def
  by (auto intro: exI [of _ "[]"] exI [of _ "word_of_nat (length s) # s"])

lemma packs_putName_loop: "\<exists>enc. packs (putName_loop w) p enc"
proof (induction "length w" arbitrary: w p rule: less_induct)
  case less
  show ?case
  proof (cases w)
    case Nil
    then show ?thesis
      by (intro exI [of _ "[]"]) (simp add: packs_def putName_loop_cases)
  next
    case (Cons b r)
    have hit: "comp_hit w (p\<lparr>pbuf := c\<rparr>) = comp_hit w p" if "length c = length (pbuf p)" for c
      using that by (simp add: comp_hit_def)
    consider "unat b = 0" | "unat b \<noteq> 0" "comp_hit w p" | "unat b \<noteq> 0" "\<not> comp_hit w p" by blast
    then show ?thesis
    proof cases
      case 1
      with Cons show ?thesis
        by (intro exI [of _ "[0]"]) (simp add: packs_def putName_loop_cases)
    next
      case 2
      with Cons hit show ?thesis
        by (intro exI [of _ "[0xc0 OR word_of_nat (drop_bit 8 (the (pcomp p w))),
              word_of_nat (the (pcomp p w))]"])
          (simp add: packs_def putName_loop_cases)
    next
      case 3
      let ?e = "[b] @ take (unat b) r"
      let ?q = "\<lambda>c. (comp_record w p)\<lparr>pbuf := c @ ?e\<rparr>"
      have step: "putName_loop w (p\<lparr>pbuf := c\<rparr>) = putName_loop (drop (unat b) r) (?q c)"
        if "length c = length (pbuf p)" for c
        using 3 Cons hit [OF that] that by (simp add: putName_loop_cases)
      have p: "putName_loop w p = putName_loop (drop (unat b) r) (?q (pbuf p))"
        using step [OF refl] by simp
      have "length (drop (unat b) r) < length w" using Cons by (simp add: less_Suc_eq_le)
      from less [OF this] obtain enc where
        "packs (putName_loop (drop (unat b) r)) (?q (pbuf p)) enc" by blast
      then have enc: "putName_loop (drop (unat b) r) (?q c) =
          (putName_loop w p)\<lparr>pbuf := (c @ ?e) @ enc\<rparr>"
        if "length c = length (pbuf p)" for c
        using that unfolding packs_def p by (drule_tac x = "c @ ?e" in spec) simp
      have "packs (putName_loop w) p (?e @ enc)"
        unfolding packs_def
      proof (intro allI impI)
        fix c :: bytes assume c: "length c = length (pbuf p)"
        show "putName_loop w (p\<lparr>pbuf := c\<rparr>) = (putName_loop w p)\<lparr>pbuf := c @ ?e @ enc\<rparr>"
          unfolding step [OF c] enc [OF c] append_assoc ..
      qed
      then show ?thesis ..
    qed
  qed
qed

lemma appender_putName [append_intros]: "appender_op (putName n)"
  using packs_putName_loop unfolding appender_op_def putName_def packs_def by simp

text \<open>
  \<^verbatim>\<open>binary.BigEndian.PutUint16(p.Bytes()[off:], v)\<close>: the length field of a record is written as
  zero, the rdata is packed, and the field is patched.
\<close>

definition patchUint16 :: "nat \<Rightarrow> u16 \<Rightarrow> packer \<Rightarrow> packer" where
  "patchUint16 off v p = p\<lparr>pbuf := take off (pbuf p) @ be16 v @ drop (off + 2) (pbuf p)\<rparr>"

lemma packsD:
  "packs f p enc \<Longrightarrow> length b = length (pbuf p) \<Longrightarrow> f (p\<lparr>pbuf := b\<rparr>) = (f p)\<lparr>pbuf := b @ enc\<rparr>"
  unfolding packs_def by blast

locale appender =
  fixes f :: "packer \<Rightarrow> packer"
  assumes appends: "appender_op f"
begin

lemma backfill:
  "patchUint16 (length (pbuf p)) v (f (putUint16 0 p)) = f (putUint16 v p)"
proof -
  from appends obtain enc where enc: "packs f (putUint16 0 p) enc"
    unfolding appender_op_def by blast
  have 0: "pbuf (f (putUint16 0 p)) = pbuf p @ be16 0 @ enc"
    using packs_buf [OF enc] by (simp add: putUint16_def)
  have v: "putUint16 v p = (putUint16 0 p)\<lparr>pbuf := pbuf p @ be16 v\<rparr>"
    by (simp add: putUint16_def)
  have "f ((putUint16 0 p)\<lparr>pbuf := pbuf p @ be16 v\<rparr>) =
      (f (putUint16 0 p))\<lparr>pbuf := (pbuf p @ be16 v) @ enc\<rparr>"
    by (rule packsD [OF enc]) (simp add: putUint16_def)
  then show ?thesis
    unfolding v by (simp add: patchUint16_def 0)
qed

lemma length_grows: "length (pbuf p) \<le> length (pbuf (f p))"
  using appends packs_buf unfolding appender_op_def by (metis le_add1 length_append)

end

subsection \<open>Reading what was written\<close>

lemma uint_of_nat_byte [simp]: "n < 256 \<Longrightarrow> uint (word_of_nat n :: byte) = int n"
  by (simp add: uint_nat)

lemma uint_of_nat_u16 [simp]: "n < 65536 \<Longrightarrow> uint (word_of_nat n :: u16) = int n"
  by (simp add: uint_nat)

text \<open>The unpacker standing between the octets \<open>pre\<close> already read and the rest \<open>s\<close>.\<close>

definition cur_at :: "bytes \<Rightarrow> bytes \<Rightarrow> unpacker" where
  "cur_at pre s = \<lparr>umsg = pre @ s, uoff = length pre\<rparr>"

lemma cur_at_sel [simp]: "umsg (cur_at pre s) = pre @ s" "uoff (cur_at pre s) = length pre"
  by (simp_all add: cur_at_def)

lemma cur_at_adv: "(cur_at pre (x @ s))\<lparr>uoff := length pre + length x\<rparr> = cur_at (pre @ x) s"
  by (simp add: cur_at_def)

lemma umonad_simps [wire_simps]:
  "ubind (ureturn x) f u = f x u"
  "ubind (ufail e) f u = (Inl e, u)"
  "uguard False e = ureturn ()"
  "uguard True e = ufail e"
  "ureturn x u = (Inr x, u)"
  "ufail e u = (Inl e, u)"
  by (simp_all add: ubind_def ureturn_def ufail_def uguard_def)

lemma ubind_assoc [wire_simps]: "ubind (ubind m f) g = ubind m (\<lambda>x. ubind (f x) g)"
  by (auto simp: ubind_def fun_eq_iff split: prod.splits sum.splits)

lemma ubind_InrI: "m u = (Inr x, u') \<Longrightarrow> ubind m f u = f x u'"
  by (simp add: ubind_def)

lemma uOff_at [wire_simps]: "uOff (cur_at pre s) = (Inr (length pre), cur_at pre s)"
  by (simp add: uOff_def)

lemma getUint8_at [wire_simps]: "getUint8 (cur_at pre (b # s)) = (Inr b, cur_at (pre @ [b]) s)"
  by (simp add: getUint8_def cur_at_def)

lemma getUint16_at [wire_simps]:
  "getUint16 (cur_at pre (be16 v @ s)) = (Inr v, cur_at (pre @ be16 v) s)"
  using cur_at_adv [of pre "be16 v" s] by (simp add: getUint16_def)

lemma getUint32_at [wire_simps]:
  "getUint32 (cur_at pre (be32 v @ s)) = (Inr v, cur_at (pre @ be32 v) s)"
  using cur_at_adv [of pre "be32 v" s] by (simp add: getUint32_def)

lemma getBytes_at [wire_simps]:
  "n = int (length b) \<Longrightarrow> getBytes n (cur_at pre (b @ s)) = (Inr b, cur_at (pre @ b) s)"
  using cur_at_adv [of pre b s] by (simp add: getBytes_def)

lemma getBytes_end [wire_simps]:
  "n = int (length b) \<Longrightarrow> getBytes n (cur_at pre b) = (Inr b, cur_at (pre @ b) [])"
  using getBytes_at [of n b pre "[]"] by simp

lemma ubind_at [wire_simps]:
  "ubind uOff f (cur_at pre s) = f (length pre) (cur_at pre s)"
  "ubind getUint8 f8 (cur_at pre (b # s)) = f8 b (cur_at (pre @ [b]) s)"
  "ubind getUint16 f16 (cur_at pre (be16 v16 @ s)) = f16 v16 (cur_at (pre @ be16 v16) s)"
  "ubind getUint32 f32 (cur_at pre (be32 v32 @ s)) = f32 v32 (cur_at (pre @ be32 v32) s)"
  "n = int (length bs) \<Longrightarrow> ubind (getBytes n) fb (cur_at pre (bs @ s)) = fb bs (cur_at (pre @ bs) s)"
  "n = int (length bs) \<Longrightarrow> ubind (getBytes n) fb (cur_at pre bs) = fb bs (cur_at (pre @ bs) [])"
  by (simp_all add: ubind_def wire_simps)

lemma getCharString_at [wire_simps]:
  "length b \<le> 255 \<Longrightarrow> getCharString (cur_at pre (word_of_nat (length b) # b @ s)) =
     (Inr b, cur_at (pre @ word_of_nat (length b) # b) s)"
  by (simp add: getCharString_def wire_simps)

lemma getCharStringInRange_at [wire_simps]:
  assumes "length b \<le> 255" "e < 0 \<or> int (length pre) + 1 + int (length b) \<le> e"
  shows "getCharStringInRange e (cur_at pre (word_of_nat (length b) # b @ s)) =
     (Inr b, cur_at (pre @ word_of_nat (length b) # b) s)"
  using assms by (auto simp: getCharStringInRange_def clampEnd_def wire_simps Let_def)

text \<open>A name that was written by \<open>putName\<close> or \<open>putNameUncompressed\<close>.\<close>

lemma DecodeWire_names_at:
  assumes "wf_name n" "canonical n" "names_at msg off (Labels n) h k" "h \<le> maxPtrHops"
  shows "DecodeWire msg off = Inr (n, off + k)"
proof -
  from assms(1) obtain ls where ls: "n = Name (wire_of ls)" "Labels n = ls"
    "length (wire_of ls) \<le> maxNameLen" by (rule wf_nameE)
  then have "n = Name (map foldByte (wire_of ls))" using assms(2) by (simp add: canonical_def)
  then show ?thesis
    unfolding DecodeWire_iff using assms(3,4) ls(2,3)
    by (intro exI [of _ ls] exI [of _ h] exI [of _ k]) simp
qed

lemma getName_at:
  assumes "wf_name n" "canonical n" "names_at (pre @ enc) (length pre) (Labels n) h (length enc)"
    "h \<le> maxPtrHops"
  shows "getName (cur_at pre (enc @ s)) = (Inr n, cur_at (pre @ enc) s)"
  using DecodeWire_names_at [OF assms(1,2) names_at_append [OF assms(3), of s] assms(4)]
    cur_at_adv [of pre enc s]
  by (simp add: getName_def)

lemma getNameInRange_at:
  assumes "wf_name n" "canonical n" "names_at (pre @ enc) (length pre) (Labels n) h (length enc)"
    "h \<le> maxPtrHops" "e < 0 \<or> int (length pre) + int (length enc) \<le> e"
  shows "getNameInRange e (cur_at pre (enc @ s)) = (Inr n, cur_at (pre @ enc) s)"
  using DecodeWire_names_at [OF assms(1,2) names_at_append [OF assms(3), of s] assms(4)]
    cur_at_adv [of pre enc s] assms(5)
  by (auto simp: getNameInRange_def clampEnd_def Let_def)

lemma getUncompressedName_at:
  assumes "wf_name n" "canonical n" "int (length (wire n)) \<le> rdlength"
  shows "getUncompressedName rdlength (cur_at pre (wire n @ s)) = (Inr n, cur_at (pre @ wire n) s)"
proof -
  let ?e0 = "int (length pre) + rdlength"
  let ?e = "if rdlength < 0 \<or> ?e0 > int (length (pre @ wire n @ s)) \<or> ?e0 < int (length pre)
               then int (length (pre @ wire n @ s)) else ?e0"
  from assms(1) obtain ls where ls: "n = Name (wire_of ls)" "list_all label_ok ls"
    "length (wire_of ls) \<le> maxNameLen" by (rule wf_nameE)
  define s' where "s' = take (nat ?e - length pre - length (wire n)) s"
  have e: "nat ?e \<ge> length pre + length (wire n)" using assms(3) by auto
  then have t: "take (nat ?e) (pre @ wire n @ s) = pre @ wire n @ s'"
    unfolding s'_def take_append by simp
  have "names_at (pre @ wire_of ls @ s') (length pre) ls 0 (length (wire_of ls))"
    using ls names_at_wire_of by blast
  moreover have "n = Name (map foldByte (wire_of ls))" using assms(2) ls by (simp add: canonical_def)
  ultimately have "DecodeWireUncompressed (pre @ wire n @ s') (length pre) =
      Inr (n, length pre + length (wire n))"
    unfolding DecodeWireUncompressed_iff using ls(1,3)
    by (intro exI [of _ ls] exI [of _ "length (wire n)"]) simp
  moreover have "\<not> int (length pre) > ?e" using assms(3) by auto
  ultimately show ?thesis
    unfolding getUncompressedName_def cur_at_sel Let_def t
    by (simp only: if_False sum.case prod.case cur_at_adv)
qed

subsection \<open>Readers that only move forward\<close>

text \<open>
  Every reader of the wire packages leaves the message alone, never moves the offset backwards or
  beyond the end of the message, and terminates.
\<close>

definition forward_reader :: "'a unp \<Rightarrow> bool" where
  "forward_reader m \<longleftrightarrow>
     (\<forall>u. uoff u \<le> length (umsg u) \<longrightarrow>
        fst (m u) \<noteq> Inl Diverges \<and> umsg (snd (m u)) = umsg u \<and>
        uoff u \<le> uoff (snd (m u)) \<and> uoff (snd (m u)) \<le> length (umsg u))"

lemma forwardI:
  "(\<And>u. uoff u \<le> length (umsg u) \<Longrightarrow>
      fst (m u) \<noteq> Inl Diverges \<and> umsg (snd (m u)) = umsg u \<and>
      uoff u \<le> uoff (snd (m u)) \<and> uoff (snd (m u)) \<le> length (umsg u)) \<Longrightarrow> forward_reader m"
  by (simp add: forward_reader_def)

lemma forwardD:
  assumes "forward_reader m" "uoff u \<le> length (umsg u)" "m u = (r, u')"
  shows "r \<noteq> Inl Diverges" "umsg u' = umsg u" "uoff u \<le> uoff u'" "uoff u' \<le> length (umsg u')"
  using assms unfolding forward_reader_def by (metis fst_conv snd_conv)+

lemma forward_pure [safe_intros]:
  "forward_reader (ureturn x)" "e \<noteq> Diverges \<Longrightarrow> forward_reader (ufail e)"
  "e \<noteq> Diverges \<Longrightarrow> forward_reader (uguard b e)" "forward_reader uOff"
  by (auto intro!: forwardI simp: ureturn_def ufail_def uguard_def uOff_def)

lemma forward_bind [safe_intros]:
  assumes "forward_reader m" "\<And>x. forward_reader (f x)"
  shows "forward_reader (ubind m f)"
proof (rule forwardI)
  fix u :: unpacker assume u: "uoff u \<le> length (umsg u)"
  obtain r u' where m: "m u = (r, u')" by (cases "m u")
  note d = forwardD [OF assms(1) u m]
  show "fst (ubind m f u) \<noteq> Inl Diverges \<and> umsg (snd (ubind m f u)) = umsg u \<and>
      uoff u \<le> uoff (snd (ubind m f u)) \<and> uoff (snd (ubind m f u)) \<le> length (umsg u)"
  proof (cases r)
    case (Inl e)
    with m d show ?thesis by (simp add: ubind_def)
  next
    case (Inr x)
    obtain r2 u2 where f: "f x u' = (r2, u2)" by (cases "f x u'")
    from forwardD [OF assms(2) d(4) f] d m f Inr show ?thesis by (simp add: ubind_def)
  qed
qed

lemma forward_if [safe_intros]:
  "(b \<Longrightarrow> forward_reader m) \<Longrightarrow> (\<not> b \<Longrightarrow> forward_reader m') \<Longrightarrow> forward_reader (if b then m else m')"
  by simp

lemma forward_let [safe_intros]: "(\<And>x. forward_reader (f x)) \<Longrightarrow> forward_reader (Let e f)"
  by simp

lemma forward_state:
  "(\<And>v. forward_reader (m v)) \<Longrightarrow> forward_reader (\<lambda>u. m (f u) u)"
  by (auto simp: forward_reader_def)

lemma forward_ints [safe_intros]:
  "forward_reader getUint8" "forward_reader getUint16" "forward_reader getUint32"
  "forward_reader (getBytes n)"
  by (auto intro!: forwardI simp: getUint8_def getUint16_def getUint32_def getBytes_def split: if_splits)

lemma forward_charString [safe_intros]: "forward_reader getCharString"
  unfolding getCharString_def by (intro safe_intros)

lemma forward_charStringInRange [safe_intros]: "forward_reader (getCharStringInRange e)"
proof -
  define m where "m = (\<lambda>(o', c).
      if int o' \<ge> c then ufail ErrTruncated
      else ubind getUint8 (\<lambda>l. ubind uOff (\<lambda>o1.
        if int o1 + int (unat l) > c then ufail ErrTruncated else getBytes (int (unat l)))))"
  have "forward_reader (m v)" for v
    by (cases v) (auto simp: m_def intro!: safe_intros)
  from forward_state [of m "\<lambda>u. (uoff u, clampEnd e u)", OF this]
  show ?thesis by (simp add: getCharStringInRange_def [abs_def] m_def ufail_def Let_def if_distrib
      [of "\<lambda>f. f u" for u] cong: if_cong)
qed

lemma decode_loop_no_div: "decode_loop msg cur no hops tot out \<noteq> Inl Diverges"
proof (induction msg cur no hops tot out rule: decode_loop.induct)
  case (1 msg cur no hops tot out)
  show ?case
    using 1 by (subst decode_loop.simps) (simp add: Let_def split: if_splits)
qed

lemma decodeUncompressed_loop_no_div: "decodeUncompressed_loop msg cur tot out \<noteq> Inl Diverges"
proof (induction msg cur tot out rule: decodeUncompressed_loop.induct)
  case (1 msg cur tot out)
  show ?case
    using 1 by (subst decodeUncompressed_loop.simps) (simp add: Let_def split: if_splits)
qed

lemma Decode_no_div: "DecodeWire msg off \<noteq> Inl Diverges" "DecodeWireUncompressed msg off \<noteq> Inl Diverges"
  by (simp_all add: DecodeWire_def DecodeWireUncompressed_def decode_loop_no_div
      decodeUncompressed_loop_no_div)

lemma DecodeWire_next: "DecodeWire msg off = Inr (n, nx) \<Longrightarrow> off < nx \<and> nx \<le> length msg"
  unfolding DecodeWire_iff using names_at_bound by fastforce

lemma DecodeWireUncompressed_next:
  "DecodeWireUncompressed msg off = Inr (n, nx) \<Longrightarrow> off < nx \<and> nx \<le> length msg"
  unfolding DecodeWireUncompressed_iff using names_at_bound by fastforce

lemma forward_names [safe_intros]:
  "forward_reader getName" "forward_reader (getNameInRange e)" "forward_reader (getUncompressedName n)"
  by (auto intro!: forwardI simp: getName_def getNameInRange_def getUncompressedName_def Let_def
      Decode_no_div split: sum.splits if_splits dest!: DecodeWire_next DecodeWireUncompressed_next)
   
subsection \<open>Loops over the items of a window\<close>

locale item_reader =
  fixes body :: "int \<Rightarrow> 'a \<Rightarrow> 'a unp"
  assumes body_forward: "forward_reader (body e acc)"
    and body_progress:
      "uoff u \<le> length (umsg u) \<Longrightarrow> int (uoff u) < e \<Longrightarrow> body e acc u = (Inr acc', u') \<Longrightarrow>
       uoff u < uoff u'"
begin

lemma off_loop_fuel:
  "uoff u \<le> length (umsg u) \<Longrightarrow> nat (e - int (uoff u)) \<le> k \<Longrightarrow>
   off_loop k e (body e) acc u = off_loop (nat (e - int (uoff u))) e (body e) acc u"
proof (induction k arbitrary: acc u rule: less_induct)
  case (less k)
  show ?case
  proof (cases "int (uoff u) < e")
    case False
    then show ?thesis by (cases k) auto
  next
    case True
    then obtain k1 where k: "k = Suc k1" using less.prems by (cases k) auto
    obtain k2 where k2: "nat (e - int (uoff u)) = Suc k2" using True by (cases "nat (e - int (uoff u))") auto
    obtain r u' where b: "body e acc u = (r, u')" by (cases "body e acc u")
    note d = forwardD [OF body_forward less.prems(1) b]
    show ?thesis
    proof (cases r)
      case (Inl er)
      with True k k2 b show ?thesis by (simp add: ubind_def)
    next
      case (Inr acc')
      then have adv: "uoff u < uoff u'" using body_progress less.prems(1) True b by blast
      have le: "nat (e - int (uoff u')) \<le> k2" "k2 \<le> k1" using adv k k2 less.prems(2) by auto
      have "off_loop k1 e (body e) acc' u' = off_loop k2 e (body e) acc' u'"
        using less.IH [of k1 u' acc'] less.IH [of k2 u' acc'] le k d(4) by simp
      with True k k2 b Inr show ?thesis by (simp add: ubind_def)
    qed
  qed
qed

lemma forOff_unfold:
  assumes "uoff u \<le> length (umsg u)"
  shows "forOff e (body e) acc u =
    (if int (uoff u) < e then ubind (body e acc) (forOff e (body e)) u else (Inr acc, u))"
proof (cases "int (uoff u) < e")
  case False
  then show ?thesis by (simp add: forOff_def)
next
  case True
  then obtain k where k: "nat (e - int (uoff u)) = Suc k" by (cases "nat (e - int (uoff u))") auto
  obtain r u' where b: "body e acc u = (r, u')" by (cases "body e acc u")
  note d = forwardD [OF body_forward assms b]
  show ?thesis
  proof (cases r)
    case (Inl er)
    with True k b show ?thesis by (simp add: ubind_def forOff_def)
  next
    case (Inr acc')
    then have adv: "uoff u < uoff u'" using body_progress assms True b by blast
    with k have "off_loop k e (body e) acc' u' = forOff e (body e) acc' u'"
      unfolding forOff_def by (intro off_loop_fuel d(4)) auto
    with True k b Inr show ?thesis by (simp add: ubind_def forOff_def)
  qed
qed

lemma forward_forOff: "forward_reader (forOff e (body e) acc)"
proof (rule forwardI)
  fix u :: unpacker
  show "uoff u \<le> length (umsg u) \<Longrightarrow> fst (forOff e (body e) acc u) \<noteq> Inl Diverges \<and>
      umsg (snd (forOff e (body e) acc u)) = umsg u \<and>
      uoff u \<le> uoff (snd (forOff e (body e) acc u)) \<and>
      uoff (snd (forOff e (body e) acc u)) \<le> length (umsg u)"
  proof (induction "nat (e - int (uoff u))" arbitrary: acc u rule: less_induct)
    case less
    obtain r u' where b: "body e acc u = (r, u')" by (cases "body e acc u")
    note d = forwardD [OF body_forward less.prems b]
    show ?case
    proof (cases "int (uoff u) < e")
      case False
      with less.prems show ?thesis by (simp add: forOff_unfold)
    next
      case True
      show ?thesis
      proof (cases r)
        case (Inl er)
        with True d b less.prems show ?thesis by (simp add: forOff_unfold ubind_def)
      next
        case (Inr acc')
        then have adv: "uoff u < uoff u'" using body_progress less.prems True b by blast
        then have "nat (e - int (uoff u')) < nat (e - int (uoff u))" using True by simp
        from less.hyps [OF this d(4), of acc'] True d b Inr adv less.prems show ?thesis
          by (auto simp: forOff_unfold [of u] ubind_def)
      qed
    qed
  qed
qed

end

definition strict_reader :: "'a unp \<Rightarrow> bool" where
  "strict_reader m \<longleftrightarrow>
     (\<forall>u r u'. uoff u \<le> length (umsg u) \<longrightarrow> m u = (Inr r, u') \<longrightarrow> uoff u < uoff u')"

lemma strict_bind:
  assumes "strict_reader m" "forward_reader m" "\<And>x. forward_reader (f x)"
  shows "strict_reader (ubind m f)"
  unfolding strict_reader_def
proof (intro allI impI)
  fix u :: unpacker and r u' assume u: "uoff u \<le> length (umsg u)" and b: "ubind m f u = (Inr r, u')"
  then obtain x u1 where m: "m u = (Inr x, u1)" and f: "f x u1 = (Inr r, u')"
    by (auto simp: ubind_def split: prod.splits sum.splits)
  have "uoff u < uoff u1" using assms(1) u m unfolding strict_reader_def by blast
  moreover have "uoff u1 \<le> uoff u'"
    using forwardD(3) [OF assms(3) _ f] forwardD(4) [OF assms(2) u m] by simp
  ultimately show "uoff u < uoff u'" by simp
qed

lemma strict_if: "strict_reader m \<Longrightarrow> strict_reader m' \<Longrightarrow> strict_reader (if b then m else m')"
  by simp

lemma strict_fail: "strict_reader (ufail e)"
  by (simp add: strict_reader_def ufail_def)

lemma strict_ints:
  "strict_reader getUint8" "strict_reader getUint16" "strict_reader getUint32"
  by (auto simp: strict_reader_def getUint8_def getUint16_def getUint32_def split: if_splits)

lemma strict_charString: "strict_reader getCharString"
  unfolding getCharString_def by (intro strict_bind strict_ints safe_intros)

lemma strict_charStringInRange: "strict_reader (getCharStringInRange e)"
  unfolding strict_reader_def getCharStringInRange_def Let_def
proof (intro allI impI)
  fix u :: unpacker and r u'
  assume u: "uoff u \<le> length (umsg u)"
    and b: "(if clampEnd e u \<le> int (uoff u) then (Inl ErrTruncated, u)
      else ubind getUint8 (\<lambda>l. ubind uOff (\<lambda>o1.
        if clampEnd e u < int o1 + int (unat l) then ufail ErrTruncated
        else getBytes (int (unat l)))) u) = (Inr r, u')"
  have "strict_reader (ubind getUint8 (\<lambda>l. ubind uOff (\<lambda>o1.
        if clampEnd e u < int o1 + int (unat l) then ufail ErrTruncated
        else getBytes (int (unat l)))))"
    by (intro strict_bind strict_ints safe_intros) auto
  with u b show "uoff u < uoff u'" by (auto simp: strict_reader_def split: if_splits)
qed

lemma strict_names:
  "strict_reader getName" "strict_reader (getNameInRange e)" "strict_reader (getUncompressedName n)"
  by (auto simp: strict_reader_def getName_def getNameInRange_def getUncompressedName_def Let_def
      split: sum.splits if_splits dest!: DecodeWire_next DecodeWireUncompressed_next)

lemmas strict_intros = strict_bind strict_if strict_fail strict_ints strict_charString
  strict_charStringInRange strict_names

text \<open>
  A loop whose items were written one after the other reads them back.  \<open>ok acc i\<close> says that
  item \<open>i\<close> is acceptable after the items accumulated in \<open>acc\<close>.
\<close>

fun items_ok :: "('a \<Rightarrow> 'i \<Rightarrow> bool) \<Rightarrow> ('a \<Rightarrow> 'i \<Rightarrow> 'a) \<Rightarrow> 'a \<Rightarrow> 'i list \<Rightarrow> bool" where
  "items_ok ok add acc [] = True"
| "items_ok ok add acc (i # is) = (ok acc i \<and> items_ok ok add (add acc i) is)"

lemma items_ok_const: "items_ok (\<lambda>_. P) add acc is = list_all P is"
  by (induction "is" arbitrary: acc) auto

locale item_codec = item_reader body for body :: "int \<Rightarrow> 'a \<Rightarrow> 'a unp" +
  fixes enc :: "'i \<Rightarrow> bytes" and add :: "'a \<Rightarrow> 'i \<Rightarrow> 'a" and ok :: "'a \<Rightarrow> 'i \<Rightarrow> bool"
  assumes body_item:
    "ok acc i \<Longrightarrow> int (length pre) + int (length (enc i)) \<le> e \<Longrightarrow>
     e \<le> int (length (pre @ enc i @ s)) \<Longrightarrow>
     body e acc (cur_at pre (enc i @ s)) = (Inr (add acc i), cur_at (pre @ enc i) s)"
    and enc_nonempty: "ok acc i \<Longrightarrow> enc i \<noteq> []"
begin

lemma forOff_items:
  "items_ok ok add acc is \<Longrightarrow> e = int (length pre) + int (length (concat (map enc is))) \<Longrightarrow>
   forOff e (body e) acc (cur_at pre (concat (map enc is) @ s)) =
     (Inr (foldl add acc is), cur_at (pre @ concat (map enc is)) s)"
proof (induction "is" arbitrary: acc pre)
  case Nil
  then show ?case by (simp add: forOff_unfold)
next
  case (Cons i "is")
  let ?s = "concat (map enc is) @ s"
  have ok: "ok acc i" using Cons.prems by simp
  have b: "body e acc (cur_at pre (enc i @ ?s)) = (Inr (add acc i), cur_at (pre @ enc i) ?s)"
    using Cons.prems by (intro body_item) auto
  have "int (length pre) < e" using Cons.prems enc_nonempty [OF ok] by (cases "enc i") auto
  with b have "forOff e (body e) acc (cur_at pre (concat (map enc (i # is)) @ s)) =
      forOff e (body e) (add acc i) (cur_at (pre @ enc i) ?s)"
    by (subst forOff_unfold) (simp_all add: ubind_def)
  also have "\<dots> = (Inr (foldl add (add acc i) is), cur_at ((pre @ enc i) @ concat (map enc is)) s)"
    using Cons.prems by (intro Cons.IH) auto
  finally show ?case by simp
qed

end

end
