(* ===== verification/Rdata_Core.thy ===== *)
theory Rdata_Core
  imports Wire_Codec
begin

text \<open>
  What the rdata payloads of \<^verbatim>\<open>wire/rdata\<close> have in common.  A payload type comes with a
  \<^verbatim>\<open>Pack\<close> method and an \<^verbatim>\<open>unpack\<close> function that is given the rdata length.  The locale
  \<open>rdata_codec\<close> is the contract of such a pair, \<open>plain_codec\<close> the stronger one of the types
  that write no compressible name; the theories \<^verbatim>\<open>Rdata_*\<close> interpret them for each type of the
  sources.  The theory also has the part of \<^verbatim>\<open>net/netip\<close> that the payloads use.
\<close>

subsection \<open>Addresses of net/netip\<close>

text \<open>
  \<^verbatim>\<open>netip.Addr\<close>: the zero value, an IPv4 address, or an IPv6 address with its zone.
  \<^verbatim>\<open>As4\<close> panics on the zero value and on an IPv6 address that is not IPv4-mapped: \<^const>\<open>None\<close>.
\<close>

datatype ipaddr = ZeroAddr | Addr4 bytes | Addr6 bytes (zone: bytes)

fun Is4 :: "ipaddr \<Rightarrow> bool" where
  "Is4 (Addr4 _) = True"
| "Is4 _ = False"

fun Is6 :: "ipaddr \<Rightarrow> bool" where
  "Is6 (Addr6 _ _) = True"
| "Is6 _ = False"

definition v4mapped :: bytes where
  "v4mapped = replicate 10 0 @ [0xff, 0xff]"

fun As4 :: "ipaddr \<Rightarrow> bytes option" where
  "As4 (Addr4 b) = Some b"
| "As4 (Addr6 b z) = (if take 12 b = v4mapped then Some (drop 12 b) else None)"
| "As4 ZeroAddr = None"

fun As16 :: "ipaddr \<Rightarrow> bytes" where
  "As16 ZeroAddr = replicate 16 0"
| "As16 (Addr4 b) = v4mapped @ b"
| "As16 (Addr6 b z) = b"

definition AddrFrom4 :: "bytes \<Rightarrow> ipaddr" where
  "AddrFrom4 b = Addr4 b"

definition AddrFrom16 :: "bytes \<Rightarrow> ipaddr" where
  "AddrFrom16 b = Addr6 b []"

definition addr4_ok :: "ipaddr \<Rightarrow> bool" where
  "addr4_ok a \<longleftrightarrow> (\<exists>b. a = Addr4 b \<and> length b = 4)"

definition addr6_ok :: "ipaddr \<Rightarrow> bool" where
  "addr6_ok a \<longleftrightarrow> (\<exists>b. a = Addr6 b [] \<and> length b = 16)"

lemma addr_ok_code [code]:
  "addr4_ok a = (case a of Addr4 b \<Rightarrow> length b = 4 | _ \<Rightarrow> False)"
  "addr6_ok a = (case a of Addr6 b z \<Rightarrow> z = [] \<and> length b = 16 | _ \<Rightarrow> False)"
  by (auto simp: addr4_ok_def addr6_ok_def split: ipaddr.splits)

subsection \<open>Names inside rdata\<close>

definition nm_ok :: "wname \<Rightarrow> bool" where
  "nm_ok n \<longleftrightarrow> wf_name n \<and> canonical n"

text \<open>A compressed name of at most \<^const>\<open>maxPtrHops\<close> labels never needs more pointers than the
  decoder follows.\<close>

definition few_labels :: "wname \<Rightarrow> bool" where
  "few_labels n \<longleftrightarrow> NumLabels n \<le> maxPtrHops"

subsection \<open>Results of readers\<close>

definition yields :: "'a unp \<Rightarrow> ('a \<Rightarrow> bool) \<Rightarrow> bool" where
  "yields m P \<longleftrightarrow> (\<forall>u r u'. m u = (Inr r, u') \<longrightarrow> P r)"

text \<open>\<^verbatim>\<open>rdata.Pack\<close>\<close>

definition packBytes :: "('r \<Rightarrow> packer \<Rightarrow> packer) \<Rightarrow> 'r \<Rightarrow> bytes" where
  "packBytes pack r = pbuf (pack r (NewPacker []))"

text \<open>What \<open>p'\<close> has on top of \<open>p\<close> is read back as \<open>r\<close>, whatever follows it.\<close>

definition reads_back :: "packer \<Rightarrow> packer \<Rightarrow> (int \<Rightarrow> 'r unp) \<Rightarrow> 'r \<Rightarrow> bool" where
  "reads_back p p' unpack r \<longleftrightarrow>
     (\<exists>enc. pbuf p' = pbuf p @ enc \<and> comp_ok p' \<and>
        (\<forall>s. unpack (int (length enc)) (cur_at (pbuf p) (enc @ s)) =
           (Inr r, cur_at (pbuf p @ enc) s)))"

lemma appender_pseq [append_intros]:
  "appender_op (pseq [])" "appender_op f \<Longrightarrow> appender_op (pseq fs) \<Longrightarrow> appender_op (pseq (f # fs))"
  using appender_id appender_comp [of f "pseq fs"] by (simp_all add: appender_op_def packs_def)

lemma appender_if [append_intros]:
  "appender_op f \<Longrightarrow> appender_op g \<Longrightarrow> appender_op (if b then f else g)"
  by simp

lemma appender_fold [append_intros]:
  "(\<And>x. appender_op (f x)) \<Longrightarrow> appender_op (fold f xs)"
proof (induction xs)
  case Nil
  then show ?case using appender_id by (simp add: id_def)
next
  case (Cons x xs)
  then show ?case using appender_comp [of "f x" "fold f xs"] by (simp add: comp_def)
qed

lemma foldl_snoc [simp]: "foldl (\<lambda>o' s. o' @ [s]) acc xs = acc @ xs"
  by (induction xs arbitrary: acc) auto

lemma put_raw_simps [wire_simps]:
  "putUint8 v8 = putRaw [v8]" "putUint16 v16 = putRaw (be16 v16)" "putUint32 v32 = putRaw (be32 v32)"
  "putNameUncompressed n = putRaw (AppendWire n [])"
  "length s \<le> 255 \<Longrightarrow> snd (putCharString s p) = putRaw (word_of_nat (length s) # s) p"
  by (simp_all add: fun_eq_iff putRaw_def putUint8_def putUint16_def putUint32_def
      putNameUncompressed_def putCharString_def AppendWire_def)

lemma putRaw_putRaw [wire_simps]:
  "pseq (putRaw a # putRaw b # fs) = pseq (putRaw (a @ b) # fs)" "pseq [putRaw a] = putRaw a"
  "putRaw b (putRaw a p) = putRaw (a @ b) p"
  "pbuf (putRaw a p) = pbuf p @ a" "pbuf (NewPacker b) = b"
  by (simp_all add: fun_eq_iff putRaw_def NewPacker_def)

lemma pseq_id [wire_simps]: "pseq ((\<lambda>p. p) # fs) = pseq fs" "pseq (f # (\<lambda>p. p) # fs) = pseq (f # fs)"
  by (simp_all add: fun_eq_iff)

lemma comp_ok_putRaw [simp]: "comp_ok p \<Longrightarrow> comp_ok (putRaw b p)"
  using names_at_append unfolding comp_ok_def putRaw_def by fastforce

lemma comp_ok_NewPacker [simp]: "comp_ok (NewPacker b)"
  by (simp add: comp_ok_def NewPacker_def)

lemma AppendWire_nm [simp]: "nm_ok n \<Longrightarrow> AppendWire n b = b @ wire n"
  by (simp add: nm_ok_def AppendWire_def)

lemma wire_nonempty [simp]: "nm_ok n \<Longrightarrow> 0 < length (wire n)" "nm_ok n \<Longrightarrow> wire n \<noteq> []"
  by (auto simp: nm_ok_def elim: wf_nameE)

lemma nm_ok_valid: "nm_ok n \<Longrightarrow> IsValid n"
  by (simp add: nm_ok_def)

lemma nm_ok_Root [simp]: "nm_ok Root"
  by (simp add: nm_ok_def)

lemma ubind_uncompressed [wire_simps]:
  "nm_ok n \<Longrightarrow> int (length (wire n)) \<le> l \<Longrightarrow>
     getUncompressedName l (cur_at pre (wire n @ s)) = (Inr n, cur_at (pre @ wire n) s)"
  "nm_ok n \<Longrightarrow> int (length (wire n)) \<le> l \<Longrightarrow>
     ubind (getUncompressedName l) f (cur_at pre (wire n @ s)) = f n (cur_at (pre @ wire n) s)"
  using getUncompressedName_at [of n l pre s] by (simp_all add: nm_ok_def ubind_def)

lemma ubind_charString [wire_simps]:
  "length b \<le> 255 \<Longrightarrow> e < 0 \<or> int (length pre) + 1 + int (length b) \<le> e \<Longrightarrow>
   ubind (getCharStringInRange e) f (cur_at pre (word_of_nat (length b) # b @ s)) =
     f b (cur_at (pre @ word_of_nat (length b) # b) s)"
  by (simp add: ubind_def wire_simps)

text \<open>The octets \<open>enc\<close> behind \<open>pre\<close> are a name in any window that holds them.\<close>

definition name_reads :: "bytes \<Rightarrow> bytes \<Rightarrow> wname \<Rightarrow> bool" where
  "name_reads pre enc n \<longleftrightarrow> enc \<noteq> [] \<and>
     (\<forall>s. getName (cur_at pre (enc @ s)) = (Inr n, cur_at (pre @ enc) s)) \<and>
     (\<forall>e s. e < 0 \<or> int (length pre) + int (length enc) \<le> e \<longrightarrow>
        getNameInRange e (cur_at pre (enc @ s)) = (Inr n, cur_at (pre @ enc) s))"

lemma ubind_name_reads [wire_simps]:
  "name_reads pre enc n \<Longrightarrow> ubind getName f (cur_at pre (enc @ s)) = f n (cur_at (pre @ enc) s)"
  "name_reads pre enc n \<Longrightarrow> e < 0 \<or> int (length pre) + int (length enc) \<le> e \<Longrightarrow>
     ubind (getNameInRange e) f (cur_at pre (enc @ s)) = f n (cur_at (pre @ enc) s)"
  by (auto simp: name_reads_def ubind_def)

lemma name_reads_nonempty: "name_reads pre enc n \<Longrightarrow> 0 < length enc"
  by (simp add: name_reads_def)

lemma putName_reads:
  assumes "nm_ok n" "few_labels n" "comp_ok p"
  obtains enc where "pbuf (putName n p) = pbuf p @ enc" "comp_ok (putName n p)"
    "name_reads (pbuf p) enc n"
proof -
  from assms have n: "wf_name n" "canonical n" by (simp_all add: nm_ok_def)
  obtain enc h where *: "pbuf (putName n p) = pbuf p @ enc" "h \<le> length (Labels n)"
    "names_at (pbuf p @ enc) (length (pbuf p)) (Labels n) h (length enc)" "comp_ok (putName n p)"
    using putName_ok [OF n(1) assms(3)] by blast
  have h: "h \<le> maxPtrHops" using assms(2) *(2) by (simp add: few_labels_def NumLabels_eq)
  have "enc \<noteq> []" using names_at_bound [OF *(3)] by auto
  then have "name_reads (pbuf p) enc n"
    unfolding name_reads_def using getName_at [OF n *(3) h] getNameInRange_at [OF n *(3) h] by blast
  then show thesis by (rule that [OF *(1,4)])
qed

subsection \<open>Rules for results\<close>

lemma yieldsI: "(\<And>u r u'. m u = (Inr r, u') \<Longrightarrow> P r) \<Longrightarrow> yields m P"
  by (auto simp: yields_def)

lemma yields_bind:
  "yields m Q \<Longrightarrow> (\<And>x. Q x \<Longrightarrow> yields (f x) P) \<Longrightarrow> yields (ubind m f) P"
  unfolding yields_def ubind_def by (fastforce split: prod.splits sum.splits)

lemma yields_any: "yields m (\<lambda>_. True)"
  by (simp add: yields_def)

lemma yields_return: "P x \<Longrightarrow> yields (ureturn x) P"
  by (simp add: yields_def ureturn_def)

lemma yields_fail: "yields (ufail e) P"
  by (simp add: yields_def ufail_def)

lemma yields_if:
  "(b \<Longrightarrow> yields m P) \<Longrightarrow> (\<not> b \<Longrightarrow> yields m' P) \<Longrightarrow> yields (if b then m else m') P"
  by simp

lemma yields_guard: "yields (uguard b e) (\<lambda>_. \<not> b)"
  by (simp add: yields_def uguard_def ufail_def)

lemma yields_bytes: "yields (getBytes n) (\<lambda>b. int (length b) = n)"
  by (auto simp: yields_def getBytes_def split: if_splits)

lemma yields_charString: "yields (getCharStringInRange e) (\<lambda>s. length s \<le> 255)"
proof (rule yieldsI)
  fix u s u' assume "getCharStringInRange e u = (Inr s, u')"
  then obtain l u1 where "getBytes (int (unat (l :: byte))) u1 = (Inr s, u')"
    by (auto simp: getCharStringInRange_def Let_def ubind_def uOff_def ufail_def
        split: if_splits prod.splits sum.splits)
  then have "length s \<le> unat l" by (auto simp: getBytes_def split: if_splits)
  then show "length s \<le> 255" using unat_byte_less [of l] by linarith
qed

lemma DecodeWire_nm_ok: "DecodeWire msg off = Inr (n, nx) \<Longrightarrow> nm_ok n"
  unfolding DecodeWire_iff nm_ok_def
  using wf_nameI canonical_fold map_fold_wire_of
  by (metis length_wire_of_fold list_all_label_ok_fold names_at_labels_ok)

lemma DecodeWireUncompressed_nm_ok: "DecodeWireUncompressed msg off = Inr (n, nx) \<Longrightarrow> nm_ok n"
  unfolding DecodeWireUncompressed_iff nm_ok_def
  using wf_nameI canonical_fold map_fold_wire_of
  by (metis length_wire_of_fold list_all_label_ok_fold names_at_labels_ok)

lemma yields_names:
  "yields getName nm_ok" "yields (getNameInRange e) nm_ok" "yields (getUncompressedName l) nm_ok"
  by (auto simp: yields_def getName_def getNameInRange_def getUncompressedName_def Let_def
      split: sum.splits if_splits dest: DecodeWire_nm_ok DecodeWireUncompressed_nm_ok)

lemma yields_forOff:
  assumes "\<And>a. P a \<Longrightarrow> yields (body a) P" "P acc"
  shows "yields (forOff e body acc) P"
proof -
  have "P a \<Longrightarrow> off_loop k e body a u = (Inr r, u') \<Longrightarrow> P r" for k a u r u'
  proof (induction k arbitrary: a u)
    case 0
    then show ?case by (simp split: if_splits)
  next
    case (Suc k)
    then show ?case using assms(1) [OF Suc.prems(1)]
      by (auto simp: ubind_def yields_def split: if_splits prod.splits sum.splits)
  qed
  with assms(2) show ?thesis unfolding yields_def forOff_def by blast
qed

lemmas yields_rules = yields_bind [OF yields_names(1)] yields_bind [OF yields_names(2)]
  yields_bind [OF yields_names(3)] yields_bind [OF yields_charString] yields_bind [OF yields_bytes]
  yields_bind [OF yields_guard] yields_return yields_fail yields_if
  yields_bind [where m = getUint8, OF yields_any] yields_bind [where m = getUint16, OF yields_any]
  yields_bind [where m = getUint32, OF yields_any] yields_bind [where m = uOff, OF yields_any]

subsection \<open>The contract of a payload type\<close>

locale rdata_codec =
  fixes pack :: "'r \<Rightarrow> packer \<Rightarrow> packer" and unpack :: "int \<Rightarrow> 'r unp"
    and inv :: "'r \<Rightarrow> bool" and cnames :: "'r \<Rightarrow> wname list"
  assumes pack_appends: "appender_op (pack r)"
    and unpack_forward: "forward_reader (unpack n)"
    and unpack_inv: "yields (unpack n) inv"
    and unpack_pack:
      "inv r \<Longrightarrow> list_all few_labels (cnames r) \<Longrightarrow> comp_ok p \<Longrightarrow> reads_back p (pack r p) unpack r"

locale plain_codec =
  fixes pack :: "'r \<Rightarrow> packer \<Rightarrow> packer" and unpack :: "int \<Rightarrow> 'r unp" and inv :: "'r \<Rightarrow> bool"
  assumes plain_appends: "appender_op (pack r)"
    and plain_forward: "forward_reader (unpack n)"
    and plain_inv: "yields (unpack n) inv"
    and plain_pack: "inv r \<Longrightarrow> pack r = putRaw (packBytes pack r)"
    and plain_unpack:
      "inv r \<Longrightarrow> enc = packBytes pack r \<Longrightarrow>
       unpack (int (length enc)) (cur_at pre (enc @ s)) = (Inr r, cur_at (pre @ enc) s)"

sublocale plain_codec \<subseteq> rdata_codec pack unpack inv "\<lambda>_. []"
proof unfold_locales
  fix r and p :: packer assume r: "inv r" and p: "comp_ok p"
  have eq: "pack r p = putRaw (packBytes pack r) p" using plain_pack [OF r] by metis
  show "reads_back p (pack r p) unpack r"
    unfolding reads_back_def eq using p plain_unpack [OF r refl]
    by (intro exI [of _ "packBytes pack r"]) (simp add: wire_simps)
qed (fact plain_appends plain_forward plain_inv)+

end
