(* ===== verification/Rdata_Names.thy ===== *)
theory Rdata_Names
  imports Rdata_Core
begin

text \<open>
  Payloads that consist of names and integers: \<^verbatim>\<open>name.go\<close>, \<^verbatim>\<open>dname.go\<close>, \<^verbatim>\<open>mx.go\<close>,
  \<^verbatim>\<open>kx.go\<close>, \<^verbatim>\<open>soa.go\<close>, \<^verbatim>\<open>srv.go\<close>, the name types of \<^verbatim>\<open>rfc1183.go\<close>, \<^verbatim>\<open>ilnp.go\<close> and
  \<^verbatim>\<open>nsap.go\<close>.
\<close>

subsection \<open>CNAME, NS, PTR, NSAP-PTR, DNAME\<close>

datatype rdCNAME = RdCNAME (CNAME_target: wname)

definition packCNAME :: "rdCNAME \<Rightarrow> packer \<Rightarrow> packer" where
  "packCNAME r = putName (CNAME_target r)"

definition NewCNAME :: "wname \<Rightarrow> wire_error + rdCNAME" where
  "NewCNAME target =
     (if \<not> IsValid target then Inl (ErrInvalidRData ''CNAME target name is invalid'')
      else Inr (RdCNAME target))"

definition unpackCNAME :: "int \<Rightarrow> rdCNAME unp" where
  "unpackCNAME rdlen =
     ubind uOff (\<lambda>o1.
     ubind (getNameInRange (int o1 + rdlen)) (\<lambda>n. ureturn (RdCNAME n)))"

datatype rdNS = RdNS (NS_name: wname)

definition packNS :: "rdNS \<Rightarrow> packer \<Rightarrow> packer" where
  "packNS r = putName (NS_name r)"

definition NewNS :: "wname \<Rightarrow> wire_error + rdNS" where
  "NewNS name =
     (if \<not> IsValid name then Inl (ErrInvalidRData ''NS name is invalid'') else Inr (RdNS name))"

definition unpackNS :: "int \<Rightarrow> rdNS unp" where
  "unpackNS rdlen =
     ubind uOff (\<lambda>o1.
     ubind (getNameInRange (int o1 + rdlen)) (\<lambda>n. ureturn (RdNS n)))"

datatype rdPTR = RdPTR (PTR_name: wname)

definition packPTR :: "rdPTR \<Rightarrow> packer \<Rightarrow> packer" where
  "packPTR r = putName (PTR_name r)"

definition NewPTR :: "wname \<Rightarrow> wire_error + rdPTR" where
  "NewPTR name =
     (if \<not> IsValid name then Inl (ErrInvalidRData ''PTR name is invalid'') else Inr (RdPTR name))"

definition unpackPTR :: "int \<Rightarrow> rdPTR unp" where
  "unpackPTR rdlen =
     ubind uOff (\<lambda>o1.
     ubind (getNameInRange (int o1 + rdlen)) (\<lambda>n. ureturn (RdPTR n)))"

datatype rdNSAPPTR = RdNSAPPTR (NSAPPTR_owner: wname)

definition packNSAPPTR :: "rdNSAPPTR \<Rightarrow> packer \<Rightarrow> packer" where
  "packNSAPPTR r = putName (NSAPPTR_owner r)"

definition NewNSAPPTR :: "wname \<Rightarrow> wire_error + rdNSAPPTR" where
  "NewNSAPPTR owner =
     (if \<not> IsValid owner then Inl (ErrInvalidRData ''NSAP-PTR owner name is invalid'')
      else Inr (RdNSAPPTR owner))"

definition unpackNSAPPTR :: "int \<Rightarrow> rdNSAPPTR unp" where
  "unpackNSAPPTR rdlen =
     ubind uOff (\<lambda>o1.
     ubind (getNameInRange (int o1 + rdlen)) (\<lambda>n. ureturn (RdNSAPPTR n)))"

datatype rdDNAME = RdDNAME (DNAME_target: wname)

definition packDNAME :: "rdDNAME \<Rightarrow> packer \<Rightarrow> packer" where
  "packDNAME r = putNameUncompressed (DNAME_target r)"

definition NewDNAME :: "wname \<Rightarrow> wire_error + rdDNAME" where
  "NewDNAME target =
     (if \<not> IsValid target then Inl (ErrInvalidRData ''DNAME target name is invalid'')
      else Inr (RdDNAME target))"

definition unpackDNAME :: "int \<Rightarrow> rdDNAME unp" where
  "unpackDNAME rdlen =
     ubind uOff (\<lambda>o1. let e = int o1 + rdlen in
     ubind uOff (\<lambda>o2.
     ubind (getUncompressedName (e - int o2)) (\<lambda>n. ureturn (RdDNAME n))))"

subsection \<open>MX, KX, AFSDB, RT, LP: an integer and a name\<close>

datatype rdMX = RdMX (MX_pref: u16) (MX_exchange: wname)

definition packMX :: "rdMX \<Rightarrow> packer \<Rightarrow> packer" where
  "packMX r = pseq [putUint16 (MX_pref r), putName (MX_exchange r)]"

definition NewMX :: "u16 \<Rightarrow> wname \<Rightarrow> wire_error + rdMX" where
  "NewMX pref exchange =
     (if \<not> IsValid exchange then Inl (ErrInvalidRData ''MX exchange name is invalid'')
      else Inr (RdMX pref exchange))"

definition unpackMX :: "int \<Rightarrow> rdMX unp" where
  "unpackMX rdlen =
     (if rdlen < 3 then ufail (ErrInvalidRData ''MX rdlen'')
      else
        ubind uOff (\<lambda>o1. let e = int o1 + rdlen in
        ubind getUint16 (\<lambda>pref.
        ubind (getNameInRange e) (\<lambda>n. ureturn (RdMX pref n)))))"

datatype rdKX = RdKX (KX_pref: u16) (KX_exchange: wname)

definition packKX :: "rdKX \<Rightarrow> packer \<Rightarrow> packer" where
  "packKX r = pseq [putUint16 (KX_pref r), putNameUncompressed (KX_exchange r)]"

definition NewKX :: "u16 \<Rightarrow> wname \<Rightarrow> wire_error + rdKX" where
  "NewKX pref exchanger =
     (if \<not> IsValid exchanger then Inl (ErrInvalidRData ''KX exchanger name is invalid'')
      else Inr (RdKX pref exchanger))"

definition unpackKX :: "int \<Rightarrow> rdKX unp" where
  "unpackKX rdlen =
     ubind uOff (\<lambda>o1. let e = int o1 + rdlen in
     ubind getUint16 (\<lambda>pref.
     ubind uOff (\<lambda>o2.
     ubind (getUncompressedName (e - int o2)) (\<lambda>n. ureturn (RdKX pref n)))))"

datatype rdAFSDB = RdAFSDB (AFSDB_subtype: u16) (AFSDB_hostname: wname)

definition packAFSDB :: "rdAFSDB \<Rightarrow> packer \<Rightarrow> packer" where
  "packAFSDB r = pseq [putUint16 (AFSDB_subtype r), putNameUncompressed (AFSDB_hostname r)]"

definition NewAFSDB :: "u16 \<Rightarrow> wname \<Rightarrow> wire_error + rdAFSDB" where
  "NewAFSDB subtype hostname =
     (if \<not> IsValid hostname then Inl (ErrInvalidRData ''AFSDB hostname is invalid'')
      else Inr (RdAFSDB subtype hostname))"

definition unpackAFSDB :: "int \<Rightarrow> rdAFSDB unp" where
  "unpackAFSDB rdlen =
     ubind uOff (\<lambda>o1. let e = int o1 + rdlen in
     ubind getUint16 (\<lambda>st.
     ubind uOff (\<lambda>o2.
     ubind (getUncompressedName (e - int o2)) (\<lambda>n. ureturn (RdAFSDB st n)))))"

datatype rdRT = RdRT (RT_pref: u16) (RT_host: wname)

definition packRT :: "rdRT \<Rightarrow> packer \<Rightarrow> packer" where
  "packRT r = pseq [putUint16 (RT_pref r), putNameUncompressed (RT_host r)]"

definition NewRT :: "u16 \<Rightarrow> wname \<Rightarrow> wire_error + rdRT" where
  "NewRT pref host =
     (if \<not> IsValid host then Inl (ErrInvalidRData ''RT intermediate-host name is invalid'')
      else Inr (RdRT pref host))"

definition unpackRT :: "int \<Rightarrow> rdRT unp" where
  "unpackRT rdlen =
     ubind uOff (\<lambda>o1. let e = int o1 + rdlen in
     ubind getUint16 (\<lambda>pref.
     ubind uOff (\<lambda>o2.
     ubind (getUncompressedName (e - int o2)) (\<lambda>n. ureturn (RdRT pref n)))))"

datatype rdLP = RdLP (LP_pref: u16) (LP_fqdn: wname)

definition packLP :: "rdLP \<Rightarrow> packer \<Rightarrow> packer" where
  "packLP r = pseq [putUint16 (LP_pref r), putNameUncompressed (LP_fqdn r)]"

definition NewLP :: "u16 \<Rightarrow> wname \<Rightarrow> wire_error + rdLP" where
  "NewLP pref fqdn =
     (if \<not> IsValid fqdn then Inl (ErrInvalidRData ''LP fqdn is invalid'')
      else Inr (RdLP pref fqdn))"

definition unpackLP :: "int \<Rightarrow> rdLP unp" where
  "unpackLP rdlen =
     ubind uOff (\<lambda>o1. let e = int o1 + rdlen in
     ubind getUint16 (\<lambda>pref.
     ubind uOff (\<lambda>o2.
     ubind (getUncompressedName (e - int o2)) (\<lambda>n. ureturn (RdLP pref n)))))"

subsection \<open>RP, SOA, SRV\<close>

datatype rdRP = RdRP (RP_mbox: wname) (RP_txt: wname)

definition packRP :: "rdRP \<Rightarrow> packer \<Rightarrow> packer" where
  "packRP r = pseq [putName (RP_mbox r), putName (RP_txt r)]"

definition NewRP :: "wname \<Rightarrow> wname \<Rightarrow> wire_error + rdRP" where
  "NewRP mbox txt =
     (if \<not> IsValid mbox then Inl (ErrInvalidRData ''RP mbox name is invalid'')
      else if \<not> IsValid txt then Inl (ErrInvalidRData ''RP txt-dname is invalid'')
      else Inr (RdRP mbox txt))"

definition unpackRP :: "int \<Rightarrow> rdRP unp" where
  "unpackRP rdlen =
     ubind uOff (\<lambda>o1. let e = int o1 + rdlen in
     ubind (getNameInRange e) (\<lambda>mbox.
     ubind (getNameInRange e) (\<lambda>txt. ureturn (RdRP mbox txt))))"

datatype rdSOA =
  RdSOA (SOA_mname: wname) (SOA_rname: wname) (SOA_serial: u32) (SOA_refresh: duration)
    (SOA_retry: duration) (SOA_expire: duration) (SOA_minimum: duration)

definition packSOA :: "rdSOA \<Rightarrow> packer \<Rightarrow> packer" where
  "packSOA r =
     pseq [putName (SOA_mname r), putName (SOA_rname r), putUint32 (SOA_serial r),
       putUint32 (secs32 (SOA_refresh r)), putUint32 (secs32 (SOA_retry r)),
       putUint32 (secs32 (SOA_expire r)), putUint32 (secs32 (SOA_minimum r))]"

definition maxSOATimerSeconds :: int where
  "maxSOATimerSeconds = 0x7fffffff"

fun soaTimers :: "(string \<times> duration) list \<Rightarrow> wire_error option" where
  "soaTimers [] = None"
| "soaTimers ((name, d) # ts) =
     (if d < 0 then Some (ErrInvalidRData (''SOA '' @ name @ '' is negative''))
      else if tdiv d Second > maxSOATimerSeconds
        then Some (ErrInvalidRData (''SOA '' @ name @ '' exceeds ceiling''))
      else soaTimers ts)"

definition NewSOA ::
    "wname \<Rightarrow> wname \<Rightarrow> u32 \<Rightarrow> duration \<Rightarrow> duration \<Rightarrow> duration \<Rightarrow> duration \<Rightarrow> wire_error + rdSOA" where
  "NewSOA mname rname serial refresh retry expire minimum =
     (if \<not> IsValid mname then Inl (ErrInvalidRData ''SOA mname is invalid'')
      else if \<not> IsValid rname then Inl (ErrInvalidRData ''SOA rname is invalid'')
      else
        (case soaTimers [(''refresh'', refresh), (''retry'', retry), (''expire'', expire),
            (''minimum'', minimum)] of
           Some e \<Rightarrow> Inl e
         | None \<Rightarrow> Inr (RdSOA mname rname serial refresh retry expire minimum)))"

definition unpackSOA :: "int \<Rightarrow> rdSOA unp" where
  "unpackSOA rdlen =
     ubind uOff (\<lambda>o1. let e = int o1 + rdlen in
     ubind (getNameInRange e) (\<lambda>mname.
     ubind (getNameInRange e) (\<lambda>rname.
     ubind getUint32 (\<lambda>serial.
     ubind getUint32 (\<lambda>refresh.
     ubind getUint32 (\<lambda>retry.
     ubind getUint32 (\<lambda>expire.
     ubind getUint32 (\<lambda>minimum.
       ureturn (RdSOA mname rname serial (of_secs refresh) (of_secs retry) (of_secs expire)
         (of_secs minimum))))))))))"

datatype rdSRV = RdSRV (SRV_priority: u16) (SRV_weight: u16) (SRV_port: u16) (SRV_target: wname)

definition packSRV :: "rdSRV \<Rightarrow> packer \<Rightarrow> packer" where
  "packSRV r =
     pseq [putUint16 (SRV_priority r), putUint16 (SRV_weight r), putUint16 (SRV_port r),
       putNameUncompressed (SRV_target r)]"

definition NewSRV :: "u16 \<Rightarrow> u16 \<Rightarrow> u16 \<Rightarrow> wname \<Rightarrow> wire_error + rdSRV" where
  "NewSRV priority weight port target =
     (if \<not> IsValid target then Inl (ErrInvalidRData ''SRV target name is invalid'')
      else Inr (RdSRV priority weight port target))"

definition unpackSRV :: "int \<Rightarrow> rdSRV unp" where
  "unpackSRV rdlen =
     ubind uOff (\<lambda>o1. let e = int o1 + rdlen in
     ubind getUint16 (\<lambda>priority.
     ubind getUint16 (\<lambda>weight.
     ubind getUint16 (\<lambda>port.
     ubind uOff (\<lambda>o2.
     ubind (getUncompressedName (e - int o2)) (\<lambda>target.
       ureturn (RdSRV priority weight port target)))))))"

subsection \<open>The contracts\<close>

text \<open>A timer that the 32-bit seconds field represents exactly.\<close>

definition secs_ok :: "duration \<Rightarrow> bool" where
  "secs_ok d \<longleftrightarrow> of_secs (secs32 d) = d"

lemma secs_ok_of_secs [simp]: "secs_ok (of_secs v)"
  by (simp add: secs_ok_def)

definition invSOA :: "rdSOA \<Rightarrow> bool" where
  "invSOA r \<longleftrightarrow> nm_ok (SOA_mname r) \<and> nm_ok (SOA_rname r) \<and> secs_ok (SOA_refresh r) \<and>
     secs_ok (SOA_retry r) \<and> secs_ok (SOA_expire r) \<and> secs_ok (SOA_minimum r)"

lemma reads_back_name:
  assumes "nm_ok n" "few_labels n" "comp_ok p"
    "\<And>l u. unpack l u = ubind (getNameInRange (int (uoff u) + l)) (\<lambda>n. ureturn (mk n)) u"
  shows "reads_back p (putName n p) unpack (mk n)"
proof -
  obtain enc where "pbuf (putName n p) = pbuf p @ enc" "comp_ok (putName n p)"
    "name_reads (pbuf p) enc n"
    using putName_reads [OF assms(1-3)] .
  then show ?thesis
    unfolding reads_back_def assms(4) by (intro exI [of _ enc]) (simp add: wire_simps)
qed

lemma unpack_names_simps:
  "unpackCNAME l u = ubind (getNameInRange (int (uoff u) + l)) (\<lambda>n. ureturn (RdCNAME n)) u"
  "unpackNS l u = ubind (getNameInRange (int (uoff u) + l)) (\<lambda>n. ureturn (RdNS n)) u"
  "unpackPTR l u = ubind (getNameInRange (int (uoff u) + l)) (\<lambda>n. ureturn (RdPTR n)) u"
  "unpackNSAPPTR l u = ubind (getNameInRange (int (uoff u) + l)) (\<lambda>n. ureturn (RdNSAPPTR n)) u"
  by (simp_all add: unpackCNAME_def unpackNS_def unpackPTR_def unpackNSAPPTR_def ubind_def uOff_def)

interpretation cname: rdata_codec packCNAME unpackCNAME "\<lambda>r. nm_ok (CNAME_target r)" "\<lambda>r. [CNAME_target r]"
proof unfold_locales
  fix r and p :: packer
  assume "nm_ok (CNAME_target r)" "list_all few_labels [CNAME_target r]" "comp_ok p"
  then show "reads_back p (packCNAME r p) unpackCNAME r"
    using reads_back_name [of "CNAME_target r" p unpackCNAME RdCNAME] unpack_names_simps(1)
    by (simp add: packCNAME_def)
qed (auto simp: packCNAME_def unpackCNAME_def intro!: safe_intros append_intros yields_rules)

interpretation ns: rdata_codec packNS unpackNS "\<lambda>r. nm_ok (NS_name r)" "\<lambda>r. [NS_name r]"
proof unfold_locales
  fix r and p :: packer
  assume "nm_ok (NS_name r)" "list_all few_labels [NS_name r]" "comp_ok p"
  then show "reads_back p (packNS r p) unpackNS r"
    using reads_back_name [of "NS_name r" p unpackNS RdNS] unpack_names_simps(2)
    by (simp add: packNS_def)
qed (auto simp: packNS_def unpackNS_def intro!: safe_intros append_intros yields_rules)

interpretation ptr: rdata_codec packPTR unpackPTR "\<lambda>r. nm_ok (PTR_name r)" "\<lambda>r. [PTR_name r]"
proof unfold_locales
  fix r and p :: packer
  assume "nm_ok (PTR_name r)" "list_all few_labels [PTR_name r]" "comp_ok p"
  then show "reads_back p (packPTR r p) unpackPTR r"
    using reads_back_name [of "PTR_name r" p unpackPTR RdPTR] unpack_names_simps(3)
    by (simp add: packPTR_def)
qed (auto simp: packPTR_def unpackPTR_def intro!: safe_intros append_intros yields_rules)

interpretation nsapptr: rdata_codec packNSAPPTR unpackNSAPPTR "\<lambda>r. nm_ok (NSAPPTR_owner r)" "\<lambda>r. [NSAPPTR_owner r]"
proof unfold_locales
  fix r and p :: packer
  assume "nm_ok (NSAPPTR_owner r)" "list_all few_labels [NSAPPTR_owner r]" "comp_ok p"
  then show "reads_back p (packNSAPPTR r p) unpackNSAPPTR r"
    using reads_back_name [of "NSAPPTR_owner r" p unpackNSAPPTR RdNSAPPTR] unpack_names_simps(4)
    by (simp add: packNSAPPTR_def)
qed (auto simp: packNSAPPTR_def unpackNSAPPTR_def intro!: safe_intros append_intros yields_rules)

interpretation dname: plain_codec packDNAME unpackDNAME "\<lambda>r. nm_ok (DNAME_target r)"
  by unfold_locales
    (auto simp: packDNAME_def unpackDNAME_def packBytes_def wire_simps Let_def
      intro!: safe_intros append_intros yields_rules)

interpretation kx: plain_codec packKX unpackKX "\<lambda>r. nm_ok (KX_exchange r)"
  by unfold_locales
    (auto simp: packKX_def unpackKX_def packBytes_def wire_simps Let_def
      intro!: safe_intros append_intros yields_rules)

interpretation afsdb: plain_codec packAFSDB unpackAFSDB "\<lambda>r. nm_ok (AFSDB_hostname r)"
  by unfold_locales
    (auto simp: packAFSDB_def unpackAFSDB_def packBytes_def wire_simps Let_def
      intro!: safe_intros append_intros yields_rules)

interpretation rt: plain_codec packRT unpackRT "\<lambda>r. nm_ok (RT_host r)"
  by unfold_locales
    (auto simp: packRT_def unpackRT_def packBytes_def wire_simps Let_def
      intro!: safe_intros append_intros yields_rules)

interpretation lp: plain_codec packLP unpackLP "\<lambda>r. nm_ok (LP_fqdn r)"
  by unfold_locales
    (auto simp: packLP_def unpackLP_def packBytes_def wire_simps Let_def
      intro!: safe_intros append_intros yields_rules)

interpretation srv: plain_codec packSRV unpackSRV "\<lambda>r. nm_ok (SRV_target r)"
  by unfold_locales
    (auto simp: packSRV_def unpackSRV_def packBytes_def wire_simps Let_def
      intro!: safe_intros append_intros yields_rules)

interpretation mx: rdata_codec packMX unpackMX "\<lambda>r. nm_ok (MX_exchange r)" "\<lambda>r. [MX_exchange r]"
proof unfold_locales
  fix r and p :: packer
  assume *: "nm_ok (MX_exchange r)" "list_all few_labels [MX_exchange r]" "comp_ok p"
  let ?p = "putUint16 (MX_pref r) p"
  have p: "comp_ok ?p" "pbuf ?p = pbuf p @ be16 (MX_pref r)" using * by (simp_all add: wire_simps)
  obtain enc where enc: "pbuf (putName (MX_exchange r) ?p) = pbuf ?p @ enc"
    "comp_ok (putName (MX_exchange r) ?p)" "name_reads (pbuf ?p) enc (MX_exchange r)"
    using putName_reads [OF *(1) _ p(1)] *(2) by auto
  then show "reads_back p (packMX r p) unpackMX r"
    unfolding reads_back_def packMX_def pseq.simps p(2) using name_reads_nonempty [OF enc(3)]
    by (intro exI [of _ "be16 (MX_pref r) @ enc"]) (simp add: unpackMX_def Let_def wire_simps)
qed (auto simp: packMX_def unpackMX_def Let_def intro!: safe_intros append_intros yields_rules)

lemma two_names_read:
  assumes "nm_ok n1" "nm_ok n2" "few_labels n1" "few_labels n2" "comp_ok p"
  obtains e1 e2 where "pbuf (putName n2 (putName n1 p)) = pbuf p @ e1 @ e2"
    "comp_ok (putName n2 (putName n1 p))" "name_reads (pbuf p) e1 n1" "name_reads (pbuf p @ e1) e2 n2"
proof -
  obtain e1 where e1: "pbuf (putName n1 p) = pbuf p @ e1" "comp_ok (putName n1 p)"
    "name_reads (pbuf p) e1 n1"
    using putName_reads [OF assms(1,3,5)] .
  obtain e2 where "pbuf (putName n2 (putName n1 p)) = pbuf (putName n1 p) @ e2"
    "comp_ok (putName n2 (putName n1 p))" "name_reads (pbuf (putName n1 p)) e2 n2"
    using putName_reads [OF assms(2,4) e1(2)] .
  with e1 that show thesis by simp
qed

interpretation rp: rdata_codec packRP unpackRP "\<lambda>r. nm_ok (RP_mbox r) \<and> nm_ok (RP_txt r)"
  "\<lambda>r. [RP_mbox r, RP_txt r]"
proof unfold_locales
  fix r and p :: packer
  assume *: "nm_ok (RP_mbox r) \<and> nm_ok (RP_txt r)" "list_all few_labels [RP_mbox r, RP_txt r]" "comp_ok p"
  obtain e1 e2 where "pbuf (putName (RP_txt r) (putName (RP_mbox r) p)) = pbuf p @ e1 @ e2"
    "comp_ok (putName (RP_txt r) (putName (RP_mbox r) p))" "name_reads (pbuf p) e1 (RP_mbox r)"
    "name_reads (pbuf p @ e1) e2 (RP_txt r)"
    using two_names_read [of "RP_mbox r" "RP_txt r" p] * by auto
  then show "reads_back p (packRP r p) unpackRP r"
    unfolding reads_back_def packRP_def pseq.simps
    by (intro exI [of _ "e1 @ e2"]) (simp add: unpackRP_def Let_def wire_simps)
qed (auto simp: packRP_def unpackRP_def Let_def intro!: safe_intros append_intros yields_rules)

interpretation soa: rdata_codec packSOA unpackSOA invSOA "\<lambda>r. [SOA_mname r, SOA_rname r]"
proof unfold_locales
  fix r and p :: packer
  assume *: "invSOA r" "list_all few_labels [SOA_mname r, SOA_rname r]" "comp_ok p"
  let ?t = "be32 (SOA_serial r) @ be32 (secs32 (SOA_refresh r)) @ be32 (secs32 (SOA_retry r)) @
      be32 (secs32 (SOA_expire r)) @ be32 (secs32 (SOA_minimum r))"
  obtain e1 e2 where "pbuf (putName (SOA_rname r) (putName (SOA_mname r) p)) = pbuf p @ e1 @ e2"
    "comp_ok (putName (SOA_rname r) (putName (SOA_mname r) p))" "name_reads (pbuf p) e1 (SOA_mname r)"
    "name_reads (pbuf p @ e1) e2 (SOA_rname r)"
    using two_names_read [of "SOA_mname r" "SOA_rname r" p] * by (auto simp: invSOA_def)
  then show "reads_back p (packSOA r p) unpackSOA r"
    unfolding reads_back_def packSOA_def pseq.simps using *(1)
    by (intro exI [of _ "e1 @ e2 @ ?t"])
      (cases r, simp add: unpackSOA_def Let_def wire_simps invSOA_def secs_ok_def)
qed (auto simp: packSOA_def unpackSOA_def invSOA_def Let_def intro!: safe_intros append_intros yields_rules)

end
