(* ===== verification/Rdata_Strings.thy ===== *)
theory Rdata_Strings
  imports Rdata_Core
begin

text \<open>
  Payloads made of character strings and free text: \<^verbatim>\<open>txt.go\<close>, \<^verbatim>\<open>spf.go\<close>, \<^verbatim>\<open>resinfo.go\<close>,
  \<^verbatim>\<open>hinfo.go\<close>, the string types of \<^verbatim>\<open>rfc1183.go\<close>, \<^verbatim>\<open>naptr.go\<close>, \<^verbatim>\<open>caa.go\<close> and \<^verbatim>\<open>uri.go\<close>.
  The \<^verbatim>\<open>Pack\<close> methods discard the error of \<^verbatim>\<open>CharString\<close>, as \<open>putStr\<close> does.
\<close>

definition putStr :: "bytes \<Rightarrow> packer \<Rightarrow> packer" where
  "putStr s p = snd (putCharString s p)"

subsection \<open>TXT, SPF, RESINFO\<close>

text \<open>The body of the loop \<^verbatim>\<open>for u.Off() < end\<close> that the three unpack functions share word for word.\<close>

definition strings_body :: "int \<Rightarrow> bytes list \<Rightarrow> bytes list unp" where
  "strings_body e out = ubind (getCharStringInRange e) (\<lambda>s. ureturn (out @ [s]))"

fun strings_ok :: "string \<Rightarrow> bytes list \<Rightarrow> wire_error option" where
  "strings_ok t [] = None"
| "strings_ok t (s # strs) =
     (if length s > 255 then Some (ErrInvalidRData (t @ '' string exceeds 255 bytes''))
      else strings_ok t strs)"

datatype rdTXT = RdTXT (TXT_strs: "bytes list")

definition packTXT :: "rdTXT \<Rightarrow> packer \<Rightarrow> packer" where
  "packTXT r = fold putStr (TXT_strs r)"

definition NewTXT :: "bytes list \<Rightarrow> wire_error + rdTXT" where
  "NewTXT strs = (case strings_ok ''TXT'' strs of Some e \<Rightarrow> Inl e | None \<Rightarrow> Inr (RdTXT strs))"

definition unpackTXT :: "int \<Rightarrow> rdTXT unp" where
  "unpackTXT rdlen =
     ubind uOff (\<lambda>o1. let e = int o1 + rdlen in
     ubind (forOff e (strings_body e) []) (\<lambda>out. ureturn (RdTXT out)))"

datatype rdSPF = RdSPF (SPF_strs: "bytes list")

definition packSPF :: "rdSPF \<Rightarrow> packer \<Rightarrow> packer" where
  "packSPF r = fold putStr (SPF_strs r)"

definition NewSPF :: "bytes list \<Rightarrow> wire_error + rdSPF" where
  "NewSPF strs = (case strings_ok ''SPF'' strs of Some e \<Rightarrow> Inl e | None \<Rightarrow> Inr (RdSPF strs))"

definition unpackSPF :: "int \<Rightarrow> rdSPF unp" where
  "unpackSPF rdlen =
     ubind uOff (\<lambda>o1. let e = int o1 + rdlen in
     ubind (forOff e (strings_body e) []) (\<lambda>out. ureturn (RdSPF out)))"

datatype rdRESINFO = RdRESINFO (RESINFO_strs: "bytes list")

definition packRESINFO :: "rdRESINFO \<Rightarrow> packer \<Rightarrow> packer" where
  "packRESINFO r = fold putStr (RESINFO_strs r)"

definition NewRESINFO :: "bytes list \<Rightarrow> wire_error + rdRESINFO" where
  "NewRESINFO strs =
     (case strings_ok ''RESINFO'' strs of Some e \<Rightarrow> Inl e | None \<Rightarrow> Inr (RdRESINFO strs))"

definition unpackRESINFO :: "int \<Rightarrow> rdRESINFO unp" where
  "unpackRESINFO rdlen =
     ubind uOff (\<lambda>o1. let e = int o1 + rdlen in
     ubind (forOff e (strings_body e) []) (\<lambda>out. ureturn (RdRESINFO out)))"

subsection \<open>HINFO, X25, ISDN, NAPTR\<close>

datatype rdHINFO = RdHINFO (HINFO_cpu: bytes) (HINFO_os: bytes)

definition packHINFO :: "rdHINFO \<Rightarrow> packer \<Rightarrow> packer" where
  "packHINFO r = pseq [putStr (HINFO_cpu r), putStr (HINFO_os r)]"

definition NewHINFO :: "bytes \<Rightarrow> bytes \<Rightarrow> wire_error + rdHINFO" where
  "NewHINFO cpu os =
     (if length cpu > 255 then Inl (ErrInvalidRData ''HINFO CPU exceeds 255 bytes'')
      else if length os > 255 then Inl (ErrInvalidRData ''HINFO OS exceeds 255 bytes'')
      else Inr (RdHINFO cpu os))"

definition unpackHINFO :: "int \<Rightarrow> rdHINFO unp" where
  "unpackHINFO rdlen =
     ubind uOff (\<lambda>o1. let e = int o1 + rdlen in
     ubind (getCharStringInRange e) (\<lambda>cpu.
     ubind (getCharStringInRange e) (\<lambda>os. ureturn (RdHINFO cpu os))))"

datatype rdX25 = RdX25 (X25_addr: bytes)

definition packX25 :: "rdX25 \<Rightarrow> packer \<Rightarrow> packer" where
  "packX25 r = putStr (X25_addr r)"

definition NewX25 :: "bytes \<Rightarrow> wire_error + rdX25" where
  "NewX25 addr =
     (if length addr > 255 then Inl (ErrInvalidRData ''X25 address exceeds 255 bytes'')
      else Inr (RdX25 addr))"

definition unpackX25 :: "int \<Rightarrow> rdX25 unp" where
  "unpackX25 rdlen =
     ubind uOff (\<lambda>o1. let e = int o1 + rdlen in
     ubind (getCharStringInRange e) (\<lambda>s. ureturn (RdX25 s)))"

datatype rdISDN = RdISDN (ISDN_addr: bytes) (ISDN_sub: bytes) (ISDN_hasSub: bool)

definition packISDN :: "rdISDN \<Rightarrow> packer \<Rightarrow> packer" where
  "packISDN r =
     pseq [putStr (ISDN_addr r), (if ISDN_hasSub r then putStr (ISDN_sub r) else (\<lambda>p. p))]"

definition NewISDN :: "bytes \<Rightarrow> bytes \<Rightarrow> bool \<Rightarrow> wire_error + rdISDN" where
  "NewISDN addr subaddress hasSubaddress =
     (if length addr > 255 then Inl (ErrInvalidRData ''ISDN address exceeds 255 bytes'')
      else if length subaddress > 255 then Inl (ErrInvalidRData ''ISDN subaddress exceeds 255 bytes'')
      else Inr (RdISDN addr subaddress hasSubaddress))"

definition unpackISDN :: "int \<Rightarrow> rdISDN unp" where
  "unpackISDN rdlen =
     ubind uOff (\<lambda>o1. let e = int o1 + rdlen in
     ubind (getCharStringInRange e) (\<lambda>addr.
     ubind uOff (\<lambda>o2.
       if int o2 = e then ureturn (RdISDN addr [] False)
       else ubind (getCharStringInRange e) (\<lambda>sub. ureturn (RdISDN addr sub True)))))"

datatype rdNAPTR =
  RdNAPTR (NAPTR_order: u16) (NAPTR_pref: u16) (NAPTR_flags: bytes) (NAPTR_services: bytes)
    (NAPTR_regexp: bytes) (NAPTR_replacement: wname)

definition packNAPTR :: "rdNAPTR \<Rightarrow> packer \<Rightarrow> packer" where
  "packNAPTR r =
     pseq [putUint16 (NAPTR_order r), putUint16 (NAPTR_pref r), putStr (NAPTR_flags r),
       putStr (NAPTR_services r), putStr (NAPTR_regexp r),
       putNameUncompressed (NAPTR_replacement r)]"

text \<open>The source ranges over a map of the three strings, so which of several oversized strings the
  error names is not determined; the model leaves the name out.\<close>

definition NewNAPTR :: "u16 \<Rightarrow> u16 \<Rightarrow> bytes \<Rightarrow> bytes \<Rightarrow> bytes \<Rightarrow> wname \<Rightarrow> wire_error + rdNAPTR" where
  "NewNAPTR order pref flags services regexp replacement =
     (if length flags > 255 \<or> length services > 255 \<or> length regexp > 255
      then Inl (ErrInvalidRData ''NAPTR string exceeds 255 bytes'')
      else Inr (RdNAPTR order pref flags services regexp replacement))"

definition unpackNAPTR :: "int \<Rightarrow> rdNAPTR unp" where
  "unpackNAPTR rdlen =
     ubind uOff (\<lambda>o1. let e = int o1 + rdlen in
     ubind getUint16 (\<lambda>order.
     ubind getUint16 (\<lambda>pref.
     ubind (getCharStringInRange e) (\<lambda>flags.
     ubind (getCharStringInRange e) (\<lambda>services.
     ubind (getCharStringInRange e) (\<lambda>regexp.
     ubind uOff (\<lambda>o2.
     ubind (getUncompressedName (e - int o2)) (\<lambda>replacement.
       ureturn (RdNAPTR order pref flags services regexp replacement)))))))))"

subsection \<open>CAA, URI\<close>

text \<open>\<^verbatim>\<open>(c >= 'a' && c <= 'z') || (c >= 'A' && c <= 'Z') || (c >= '0' && c <= '9')\<close>\<close>

definition caa_alnum :: "byte \<Rightarrow> bool" where
  "caa_alnum c \<longleftrightarrow> (0x61 \<le> c \<and> c \<le> 0x7a) \<or> (0x41 \<le> c \<and> c \<le> 0x5a) \<or> (0x30 \<le> c \<and> c \<le> 0x39)"

datatype rdCAA = RdCAA (CAA_flags: u8) (CAA_tag: bytes) (CAA_value: bytes)

definition packCAA :: "rdCAA \<Rightarrow> packer \<Rightarrow> packer" where
  "packCAA r =
     pseq [putUint8 (CAA_flags r), putUint8 (word_of_nat (length (CAA_tag r))),
       putRaw (CAA_tag r), putRaw (CAA_value r)]"

definition NewCAA :: "u8 \<Rightarrow> bytes \<Rightarrow> bytes \<Rightarrow> wire_error + rdCAA" where
  "NewCAA flags tag val =
     (if length tag = 0 \<or> length tag > 15 then Inl (ErrInvalidRData ''CAA tag must be 1-15 bytes'')
      else if \<not> list_all caa_alnum tag then Inl (ErrInvalidRData ''CAA tag must be alnum'')
      else Inr (RdCAA flags tag val))"

definition unpackCAA :: "int \<Rightarrow> rdCAA unp" where
  "unpackCAA rdlen =
     ubind uOff (\<lambda>o1. let e = int o1 + rdlen in
     ubind getUint8 (\<lambda>flags.
     ubind getUint8 (\<lambda>tlen.
     ubind (uguard (tlen = 0 \<or> tlen > 15) (ErrInvalidRData ''CAA tag length must be 1-15'')) (\<lambda>_.
     ubind uOff (\<lambda>o2.
     ubind (uguard (int o2 + int (unat tlen) > e)
       (ErrInvalidRData ''CAA tag length exceeds rdata window'')) (\<lambda>_.
     ubind (getBytes (int (unat tlen))) (\<lambda>tag.
     ubind (uguard (\<not> list_all caa_alnum tag) (ErrInvalidRData ''CAA tag must be alnum'')) (\<lambda>_.
     ubind uOff (\<lambda>o3.
     ubind (uguard (int o3 > e) (ErrInvalidRData ''CAA over-read'')) (\<lambda>_.
     ubind (getBytes (e - int o3)) (\<lambda>val. ureturn (RdCAA flags tag val))))))))))))"

datatype rdURI = RdURI (URI_priority: u16) (URI_weight: u16) (URI_target: bytes)

definition packURI :: "rdURI \<Rightarrow> packer \<Rightarrow> packer" where
  "packURI r = pseq [putUint16 (URI_priority r), putUint16 (URI_weight r), putRaw (URI_target r)]"

definition NewURI :: "u16 \<Rightarrow> u16 \<Rightarrow> bytes \<Rightarrow> wire_error + rdURI" where
  "NewURI priority weight target =
     (if target = [] then Inl (ErrInvalidRData ''URI target must be non-empty'')
      else Inr (RdURI priority weight target))"

definition unpackURI :: "int \<Rightarrow> rdURI unp" where
  "unpackURI rdlen =
     (if rdlen < 5 then ufail (ErrInvalidRData ''URI rdlen'')
      else
        ubind getUint16 (\<lambda>pr.
        ubind getUint16 (\<lambda>w.
        ubind (getBytes (rdlen - 4)) (\<lambda>t. ureturn (RdURI pr w t)))))"

subsection \<open>The contracts\<close>

definition str255 :: "bytes \<Rightarrow> bool" where
  "str255 s \<longleftrightarrow> length s \<le> 255"

definition enc_str :: "bytes \<Rightarrow> bytes" where
  "enc_str s = word_of_nat (length s) # s"

lemma appender_putStr [append_intros]: "appender_op (putStr s)"
  using appender_charString [of s] by (simp add: putStr_def [abs_def])

lemma putStr_raw [wire_simps]: "str255 s \<Longrightarrow> putStr s = putRaw (enc_str s)"
  by (simp add: fun_eq_iff putStr_def wire_simps str255_def enc_str_def)

lemma fold_putStr [wire_simps]:
  "list_all str255 ss \<Longrightarrow> fold putStr ss p = putRaw (concat (map enc_str ss)) p"
  by (induction ss arbitrary: p) (simp_all add: wire_simps, simp add: putRaw_def)

lemma ubind_str [wire_simps]:
  "str255 b \<Longrightarrow> e < 0 \<or> int (length pre) + int (length (enc_str b)) \<le> e \<Longrightarrow>
   ubind (getCharStringInRange e) f (cur_at pre (enc_str b @ s)) = f b (cur_at (pre @ enc_str b) s)"
  using ubind_charString [of b e pre f s] by (simp add: enc_str_def str255_def ac_simps)

lemma length_enc_str [simp]: "length (enc_str s) = Suc (length s)" "enc_str s \<noteq> []"
  by (simp_all add: enc_str_def)

interpretation strings: item_codec strings_body enc_str "\<lambda>out s. out @ [s]" "\<lambda>_. str255"
proof unfold_locales
  fix e acc acc' u u'
  assume "uoff u \<le> length (umsg u)" "strings_body e acc u = (Inr acc', u')"
  moreover have "strict_reader (strings_body e acc)"
    unfolding strings_body_def by (intro strict_intros safe_intros)
  ultimately show "uoff u < uoff u'" unfolding strict_reader_def by blast
qed (auto simp: strings_body_def wire_simps intro!: safe_intros)

lemma forOff_strings [wire_simps]:
  "list_all str255 ss \<Longrightarrow> e = int (length pre) + int (length (concat (map enc_str ss))) \<Longrightarrow>
   ubind (forOff e (strings_body e) []) f (cur_at pre (concat (map enc_str ss) @ s)) =
     f ss (cur_at (pre @ concat (map enc_str ss)) s)"
  using strings.forOff_items [of "[]" ss e pre s] by (simp add: ubind_def items_ok_const)

lemma yields_strings: "yields (forOff e (strings_body e) []) (list_all str255)"
  by (rule yields_forOff) (auto simp: strings_body_def str255_def intro!: yields_rules)

lemmas string_rules = yields_bind [OF yields_strings] strings.forward_forOff safe_intros append_intros
  yields_rules

interpretation text_strings: plain_codec packTXT unpackTXT "\<lambda>r. list_all str255 (TXT_strs r)"
  by unfold_locales
    (auto simp: packTXT_def unpackTXT_def packBytes_def wire_simps Let_def fun_eq_iff intro!: string_rules)

interpretation spf: plain_codec packSPF unpackSPF "\<lambda>r. list_all str255 (SPF_strs r)"
  by unfold_locales
    (auto simp: packSPF_def unpackSPF_def packBytes_def wire_simps Let_def fun_eq_iff intro!: string_rules)

interpretation resinfo: plain_codec packRESINFO unpackRESINFO "\<lambda>r. list_all str255 (RESINFO_strs r)"
  by unfold_locales
    (auto simp: packRESINFO_def unpackRESINFO_def packBytes_def wire_simps Let_def fun_eq_iff
      intro!: string_rules)

interpretation hinfo: plain_codec packHINFO unpackHINFO "\<lambda>r. str255 (HINFO_cpu r) \<and> str255 (HINFO_os r)"
  by unfold_locales
    (auto simp: packHINFO_def unpackHINFO_def packBytes_def wire_simps Let_def str255_def [symmetric]
      intro!: string_rules)

interpretation x25: plain_codec packX25 unpackX25 "\<lambda>r. str255 (X25_addr r)"
  by unfold_locales
    (auto simp: packX25_def unpackX25_def packBytes_def wire_simps Let_def str255_def [symmetric]
      intro!: string_rules)

definition invISDN :: "rdISDN \<Rightarrow> bool" where
  "invISDN r \<longleftrightarrow> str255 (ISDN_addr r) \<and> str255 (ISDN_sub r) \<and> (\<not> ISDN_hasSub r \<longrightarrow> ISDN_sub r = [])"

interpretation isdn: plain_codec packISDN unpackISDN invISDN
proof unfold_locales
  fix r enc pre s assume "invISDN r" "enc = packBytes packISDN r"
  then show "unpackISDN (int (length enc)) (cur_at pre (enc @ s)) = (Inr r, cur_at (pre @ enc) s)"
    by (cases r; cases "ISDN_hasSub r")
      (simp_all add: invISDN_def packISDN_def unpackISDN_def packBytes_def wire_simps Let_def)
next
  fix r assume "invISDN r"
  then show "packISDN r = putRaw (packBytes packISDN r)"
    by (cases "ISDN_hasSub r")
      (simp_all add: invISDN_def packISDN_def packBytes_def wire_simps fun_eq_iff)
next
  fix r show "appender_op (packISDN r)" unfolding packISDN_def by (intro append_intros)
next
  fix n show "forward_reader (unpackISDN n)" unfolding unpackISDN_def Let_def by (intro safe_intros)
next
  fix n show "yields (unpackISDN n) invISDN"
    unfolding unpackISDN_def Let_def by (intro yields_rules) (simp_all add: invISDN_def str255_def)
qed

definition invNAPTR :: "rdNAPTR \<Rightarrow> bool" where
  "invNAPTR r \<longleftrightarrow> str255 (NAPTR_flags r) \<and> str255 (NAPTR_services r) \<and> str255 (NAPTR_regexp r) \<and>
     nm_ok (NAPTR_replacement r)"

interpretation naptr: plain_codec packNAPTR unpackNAPTR invNAPTR
  by unfold_locales
    (auto simp: packNAPTR_def unpackNAPTR_def packBytes_def wire_simps Let_def invNAPTR_def
      str255_def [symmetric] intro!: string_rules)

definition invCAA :: "rdCAA \<Rightarrow> bool" where
  "invCAA r \<longleftrightarrow> 0 < length (CAA_tag r) \<and> length (CAA_tag r) \<le> 15 \<and> list_all caa_alnum (CAA_tag r)"

interpretation caa: plain_codec packCAA unpackCAA invCAA
proof unfold_locales
  fix r enc pre s assume r: "invCAA r" and enc: "enc = packBytes packCAA r"
  then have "(word_of_nat (length (CAA_tag r)) :: byte) \<noteq> 0"
    "\<not> (word_of_nat (length (CAA_tag r)) :: byte) > 15"
    by (simp_all add: invCAA_def word_less_nat_alt unat_eq_0 [symmetric])
  with r enc show "unpackCAA (int (length enc)) (cur_at pre (enc @ s)) = (Inr r, cur_at (pre @ enc) s)"
    by (simp add: packCAA_def unpackCAA_def packBytes_def wire_simps Let_def invCAA_def)
next
  fix n
  show "yields (unpackCAA n) invCAA"
    unfolding unpackCAA_def Let_def
    by (intro yields_rules) (auto simp: invCAA_def word_less_nat_alt unat_gt_0 simp del: of_nat_unat)
qed (auto simp: packCAA_def unpackCAA_def packBytes_def wire_simps Let_def intro!: string_rules)

interpretation uri: plain_codec packURI unpackURI "\<lambda>r. URI_target r \<noteq> []"
  by unfold_locales
    (auto simp: packURI_def unpackURI_def packBytes_def wire_simps Let_def Suc_le_eq intro!: string_rules)

end
