(* ===== verification/Rdata_Dnssec.thy ===== *)
theory Rdata_Dnssec
  imports Rdata_Core
begin

text \<open>
  The DNSSEC payloads: \<^verbatim>\<open>dnssec.go\<close>, \<^verbatim>\<open>nsec3param.go\<close>, \<^verbatim>\<open>cds.go\<close> and \<^verbatim>\<open>csync.go\<close>, with the type
  bitmap of RFC 4034 that NSEC, NSEC3 and CSYNC share.
\<close>

subsection \<open>The type bitmap\<close>

type_synonym bucket = "u8 \<times> bytes"

definition typeWin :: "u16 \<Rightarrow> u8" where
  "typeWin t = ucast (drop_bit 8 t)"

definition typeBit :: "u16 \<Rightarrow> u8" where
  "typeBit t = ucast (t AND 0xff)"

text \<open>\<^verbatim>\<open>bitmap[bit/8] |= 1 << (7 - bit%8)\<close>\<close>

definition setBit :: "u8 \<Rightarrow> bytes \<Rightarrow> bytes" where
  "setBit b bm =
     bm[unat b div 8 := bm ! (unat b div 8) OR push_bit (7 - unat b mod 8) 1]"

text \<open>The search for the bucket of a window, the append of a new one, and the update.\<close>

fun addBucket :: "u16 \<Rightarrow> bucket list \<Rightarrow> bucket list" where
  "addBucket t [] = [(typeWin t, setBit (typeBit t) (replicate 32 0))]"
| "addBucket t ((w, bm) # bs) =
     (if w = typeWin t then (w, setBit (typeBit t) bm) # bs else (w, bm) # addBucket t bs)"

text \<open>\<^verbatim>\<open>for ln > 1 && b.bitmap[ln-1] == 0 { ln-- }\<close>\<close>

fun trimLen :: "bytes \<Rightarrow> nat \<Rightarrow> nat" where
  "trimLen bm ln = (if ln > 1 \<and> bm ! (ln - 1) = 0 then trimLen bm (ln - 1) else ln)"

declare trimLen.simps [simp del]

definition putBucket :: "bucket \<Rightarrow> packer \<Rightarrow> packer" where
  "putBucket b =
     (let ln = trimLen (snd b) 32 in
      pseq [putUint8 (fst b), putUint8 (word_of_nat ln), putRaw (take ln (snd b))])"

definition encodeTypeBitmap :: "u16 list \<Rightarrow> packer \<Rightarrow> packer" where
  "encodeTypeBitmap types p =
     (if types = [] then p
      else fold putBucket (fold addBucket (sort types) []) p)"

text \<open>The two nested loops over the octets of a window and their bits.\<close>

definition byteTypes :: "u8 \<Rightarrow> nat \<Rightarrow> byte \<Rightarrow> u16 list" where
  "byteTypes win i b =
     map (\<lambda>k. push_bit 8 (ucast win) OR word_of_nat (i * 8 + k))
       (filter (\<lambda>k. b AND push_bit (7 - k) 1 \<noteq> 0) [0..<8])"

definition windowTypes :: "u8 \<Rightarrow> bytes \<Rightarrow> u16 list" where
  "windowTypes win bm = concat (map (\<lambda>i. byteTypes win i (bm ! i)) [0..<length bm])"

text \<open>The accumulator is \<^verbatim>\<open>out\<close>, \<^verbatim>\<open>lastWin\<close> and \<^verbatim>\<open>first\<close>.\<close>

type_synonym bitmap_acc = "u16 list \<times> int \<times> bool"

definition bitmap_body :: "int \<Rightarrow> bitmap_acc \<Rightarrow> bitmap_acc unp" where
  "bitmap_body e acc =
     (case acc of (out, lastWin, first) \<Rightarrow>
        ubind getUint8 (\<lambda>win.
        ubind (uguard (\<not> first \<and> uint win \<le> lastWin)
          (ErrInvalidRData ''NSEC bitmap windows out of order'')) (\<lambda>_.
        ubind getUint8 (\<lambda>ln.
        ubind (uguard (ln = 0 \<or> ln > 32) (ErrInvalidRData ''NSEC bitmap length'')) (\<lambda>_.
        ubind uOff (\<lambda>o1.
        ubind (uguard (int o1 + int (unat ln) > e)
          (ErrInvalidRData ''NSEC bitmap length exceeds rdata window'')) (\<lambda>_.
        ubind (getBytes (int (unat ln))) (\<lambda>bm.
          ureturn (out @ windowTypes win bm, uint win, False)))))))))"

definition decodeTypeBitmap :: "int \<Rightarrow> u16 list unp" where
  "decodeTypeBitmap n =
     ubind uOff (\<lambda>o1. let e = int o1 + n in
     ubind (forOff e (bitmap_body e) ([], - 1, True)) (\<lambda>acc. ureturn (fst acc)))"

subsection \<open>DNSKEY, DS, RRSIG\<close>

datatype rdDNSKEY =
  RdDNSKEY (DNSKEY_flags: u16) (DNSKEY_protocol: u8) (DNSKEY_algorithm: u8) (DNSKEY_pubkey: bytes)

definition packDNSKEY :: "rdDNSKEY \<Rightarrow> packer \<Rightarrow> packer" where
  "packDNSKEY r =
     pseq [putUint16 (DNSKEY_flags r), putUint8 (DNSKEY_protocol r),
       putUint8 (DNSKEY_algorithm r), putRaw (DNSKEY_pubkey r)]"

definition NewDNSKEY :: "u16 \<Rightarrow> u8 \<Rightarrow> u8 \<Rightarrow> bytes \<Rightarrow> wire_error + rdDNSKEY" where
  "NewDNSKEY flags protocol algorithm pubkey =
     (if protocol \<noteq> 3 then Inl (ErrInvalidRData ''DNSKEY protocol'')
      else Inr (RdDNSKEY flags protocol algorithm pubkey))"

definition unpackDNSKEY :: "int \<Rightarrow> rdDNSKEY unp" where
  "unpackDNSKEY rdlen =
     (if rdlen < 4 then ufail (ErrInvalidRData ''DNSKEY rdlen'')
      else
        ubind uOff (\<lambda>o1. let e = int o1 + rdlen in
        ubind getUint16 (\<lambda>flags.
        ubind getUint8 (\<lambda>proto.
        ubind (uguard (proto \<noteq> 3) (ErrInvalidRData ''DNSKEY protocol'')) (\<lambda>_.
        ubind getUint8 (\<lambda>alg.
        ubind uOff (\<lambda>o2.
        ubind (getBytes (e - int o2)) (\<lambda>pk. ureturn (RdDNSKEY flags proto alg pk)))))))))"

datatype rdDS = RdDS (DS_keyTag: u16) (DS_algorithm: u8) (DS_digestT: u8) (DS_digest: bytes)

definition packDS :: "rdDS \<Rightarrow> packer \<Rightarrow> packer" where
  "packDS r =
     pseq [putUint16 (DS_keyTag r), putUint8 (DS_algorithm r), putUint8 (DS_digestT r),
       putRaw (DS_digest r)]"

definition dsDigestLen :: "u8 \<Rightarrow> nat" where
  "dsDigestLen dt = (if dt = 1 then 20 else if dt = 2 then 32 else if dt = 4 then 48 else 0)"

definition NewDS :: "u16 \<Rightarrow> u8 \<Rightarrow> u8 \<Rightarrow> bytes \<Rightarrow> wire_error + rdDS" where
  "NewDS keyTag alg dt digest =
     (let want = dsDigestLen dt in
      if want \<noteq> 0 \<and> length digest \<noteq> want then Inl (ErrInvalidRData ''DS digest length'')
      else Inr (RdDS keyTag alg dt digest))"

definition unpackDS :: "int \<Rightarrow> rdDS unp" where
  "unpackDS rdlen =
     (if rdlen < 4 then ufail (ErrInvalidRData ''DS rdlen'')
      else
        ubind uOff (\<lambda>o1. let e = int o1 + rdlen in
        ubind getUint16 (\<lambda>tag.
        ubind getUint8 (\<lambda>alg.
        ubind getUint8 (\<lambda>dt.
        ubind uOff (\<lambda>o2.
        ubind (getBytes (e - int o2)) (\<lambda>dig. ureturn (RdDS tag alg dt dig))))))))"

datatype rdRRSIG =
  RdRRSIG (RRSIG_typeCovered: u16) (RRSIG_algorithm: u8) (RRSIG_labels: u8) (RRSIG_origTTL: u32)
    (RRSIG_sigExp: u32) (RRSIG_sigInc: u32) (RRSIG_keyTag: u16) (RRSIG_signerName: wname)
    (RRSIG_signature: bytes)

definition packRRSIG :: "rdRRSIG \<Rightarrow> packer \<Rightarrow> packer" where
  "packRRSIG r =
     pseq [putUint16 (RRSIG_typeCovered r), putUint8 (RRSIG_algorithm r),
       putUint8 (RRSIG_labels r), putUint32 (RRSIG_origTTL r), putUint32 (RRSIG_sigExp r),
       putUint32 (RRSIG_sigInc r), putUint16 (RRSIG_keyTag r),
       putNameUncompressed (RRSIG_signerName r), putRaw (RRSIG_signature r)]"

text \<open>The two times are given as their \<^verbatim>\<open>Unix()\<close> seconds.\<close>

definition NewRRSIG ::
    "u16 \<Rightarrow> u8 \<Rightarrow> u8 \<Rightarrow> duration \<Rightarrow> int \<Rightarrow> int \<Rightarrow> u16 \<Rightarrow> wname \<Rightarrow> bytes \<Rightarrow> rdRRSIG" where
  "NewRRSIG typeCovered alg labels origTTL expiration inception keyTag signerName signature =
     RdRRSIG typeCovered alg labels (secs32 origTTL) (word_of_int expiration)
       (word_of_int inception) keyTag signerName signature"

definition unpackRRSIG :: "int \<Rightarrow> rdRRSIG unp" where
  "unpackRRSIG rdlen =
     (if rdlen < 19 then ufail (ErrInvalidRData ''RRSIG rdlen'')
      else
        ubind uOff (\<lambda>o1. let e = int o1 + rdlen in
        ubind getUint16 (\<lambda>tc.
        ubind getUint8 (\<lambda>alg.
        ubind getUint8 (\<lambda>labels.
        ubind getUint32 (\<lambda>origTTL.
        ubind getUint32 (\<lambda>sigExp.
        ubind getUint32 (\<lambda>sigInc.
        ubind getUint16 (\<lambda>keyTag.
        ubind uOff (\<lambda>o2.
        ubind (getUncompressedName (e - int o2)) (\<lambda>signer.
        ubind uOff (\<lambda>o3.
        ubind (getBytes (e - int o3)) (\<lambda>sig.
          ureturn (RdRRSIG tc alg labels origTTL sigExp sigInc keyTag signer sig))))))))))))))"

subsection \<open>NSEC, NSEC3, NSEC3PARAM, CSYNC\<close>

datatype rdNSEC = RdNSEC (NSEC_next: wname) (NSEC_types: "u16 list")

definition packNSEC :: "rdNSEC \<Rightarrow> packer \<Rightarrow> packer" where
  "packNSEC r = pseq [putNameUncompressed (NSEC_next r), encodeTypeBitmap (NSEC_types r)]"

definition NewNSEC :: "wname \<Rightarrow> u16 list \<Rightarrow> rdNSEC" where
  "NewNSEC nxt types = RdNSEC nxt types"

definition unpackNSEC :: "int \<Rightarrow> rdNSEC unp" where
  "unpackNSEC rdlen =
     ubind uOff (\<lambda>o1. let e = int o1 + rdlen in
     ubind uOff (\<lambda>o2.
     ubind (getUncompressedName (e - int o2)) (\<lambda>nxt.
     ubind uOff (\<lambda>o3.
     ubind (decodeTypeBitmap (e - int o3)) (\<lambda>types. ureturn (RdNSEC nxt types))))))"

datatype rdNSEC3 =
  RdNSEC3 (NSEC3_hashAlg: u8) (NSEC3_flags: u8) (NSEC3_iterations: u16) (NSEC3_salt: bytes)
    (NSEC3_nextOwner: bytes) (NSEC3_types: "u16 list")

definition packNSEC3 :: "rdNSEC3 \<Rightarrow> packer \<Rightarrow> packer" where
  "packNSEC3 r =
     pseq [putUint8 (NSEC3_hashAlg r), putUint8 (NSEC3_flags r), putUint16 (NSEC3_iterations r),
       putUint8 (word_of_nat (length (NSEC3_salt r))), putRaw (NSEC3_salt r),
       putUint8 (word_of_nat (length (NSEC3_nextOwner r))), putRaw (NSEC3_nextOwner r),
       encodeTypeBitmap (NSEC3_types r)]"

definition NewNSEC3 ::
    "u8 \<Rightarrow> u8 \<Rightarrow> u16 \<Rightarrow> bytes \<Rightarrow> bytes \<Rightarrow> u16 list \<Rightarrow> wire_error + rdNSEC3" where
  "NewNSEC3 hashAlg flags iterations salt nextOwner types =
     (if length salt > 255 then Inl (ErrInvalidRData ''NSEC3 salt exceeds 255-byte limit'')
      else if length nextOwner = 0 then Inl (ErrInvalidRData ''NSEC3 next-hashed-owner is empty'')
      else if length nextOwner > 255
        then Inl (ErrInvalidRData ''NSEC3 next-hashed-owner exceeds 255-byte limit'')
      else Inr (RdNSEC3 hashAlg flags iterations salt nextOwner types))"

definition unpackNSEC3 :: "int \<Rightarrow> rdNSEC3 unp" where
  "unpackNSEC3 rdlen =
     ubind uOff (\<lambda>o1. let e = int o1 + rdlen in
     ubind getUint8 (\<lambda>alg.
     ubind getUint8 (\<lambda>flags.
     ubind getUint16 (\<lambda>iters.
     ubind getUint8 (\<lambda>saltLen.
     ubind uOff (\<lambda>o2.
     ubind (uguard (int o2 + int (unat saltLen) > e)
       (ErrInvalidRData ''NSEC3 salt length exceeds rdata window'')) (\<lambda>_.
     ubind (getBytes (int (unat saltLen))) (\<lambda>salt.
     ubind getUint8 (\<lambda>hashLen.
     ubind (uguard (hashLen = 0) (ErrInvalidRData ''NSEC3 next-hashed-owner length 0'')) (\<lambda>_.
     ubind uOff (\<lambda>o3.
     ubind (uguard (int o3 + int (unat hashLen) > e)
       (ErrInvalidRData ''NSEC3 hash length exceeds rdata window'')) (\<lambda>_.
     ubind (getBytes (int (unat hashLen))) (\<lambda>hash.
     ubind uOff (\<lambda>o4.
     ubind (uguard (int o4 > e) (ErrInvalidRData ''NSEC3 over-read'')) (\<lambda>_.
     ubind (decodeTypeBitmap (e - int o4)) (\<lambda>types.
       ureturn (RdNSEC3 alg flags iters salt hash types)))))))))))))))))"

datatype rdNSEC3PARAM =
  RdNSEC3PARAM (NSEC3PARAM_alg: u8) (NSEC3PARAM_flags: u8) (NSEC3PARAM_iter: u16)
    (NSEC3PARAM_salt: bytes)

definition packNSEC3PARAM :: "rdNSEC3PARAM \<Rightarrow> packer \<Rightarrow> packer" where
  "packNSEC3PARAM r =
     pseq [putUint8 (NSEC3PARAM_alg r), putUint8 (NSEC3PARAM_flags r),
       putUint16 (NSEC3PARAM_iter r), putUint8 (word_of_nat (length (NSEC3PARAM_salt r))),
       putRaw (NSEC3PARAM_salt r)]"

definition NewNSEC3PARAM :: "u8 \<Rightarrow> u8 \<Rightarrow> u16 \<Rightarrow> bytes \<Rightarrow> wire_error + rdNSEC3PARAM" where
  "NewNSEC3PARAM alg flags iter salt =
     (if length salt > 255 then Inl (ErrInvalidRData ''NSEC3PARAM salt exceeds 255-byte limit'')
      else Inr (RdNSEC3PARAM alg flags iter salt))"

definition unpackNSEC3PARAM :: "int \<Rightarrow> rdNSEC3PARAM unp" where
  "unpackNSEC3PARAM rdlen =
     ubind uOff (\<lambda>o1. let e = int o1 + rdlen in
     ubind getUint8 (\<lambda>alg.
     ubind getUint8 (\<lambda>flags.
     ubind getUint16 (\<lambda>iter.
     ubind getUint8 (\<lambda>saltLen.
     ubind uOff (\<lambda>o2.
     ubind (uguard (int o2 + int (unat saltLen) > e)
       (ErrInvalidRData ''NSEC3PARAM salt length exceeds rdata window'')) (\<lambda>_.
     ubind (getBytes (int (unat saltLen))) (\<lambda>salt.
       ureturn (RdNSEC3PARAM alg flags iter salt)))))))))"

datatype rdCSYNC = RdCSYNC (CSYNC_soaSerial: u32) (CSYNC_flags: u16) (CSYNC_types: "u16 list")

definition packCSYNC :: "rdCSYNC \<Rightarrow> packer \<Rightarrow> packer" where
  "packCSYNC r =
     pseq [putUint32 (CSYNC_soaSerial r), putUint16 (CSYNC_flags r),
       encodeTypeBitmap (CSYNC_types r)]"

definition NewCSYNC :: "u32 \<Rightarrow> u16 \<Rightarrow> u16 list \<Rightarrow> rdCSYNC" where
  "NewCSYNC soaSerial flags types = RdCSYNC soaSerial flags types"

definition unpackCSYNC :: "int \<Rightarrow> rdCSYNC unp" where
  "unpackCSYNC rdlen =
     (if rdlen < 6 then ufail (ErrInvalidRData ''CSYNC rdlen'')
      else
        ubind uOff (\<lambda>o1. let e = int o1 + rdlen in
        ubind getUint32 (\<lambda>serial.
        ubind getUint16 (\<lambda>flags.
        ubind uOff (\<lambda>o2.
        ubind (decodeTypeBitmap (e - int o2)) (\<lambda>types.
          ureturn (RdCSYNC serial flags types)))))))"

subsection \<open>CDS, CDNSKEY\<close>

datatype rdCDS = RdCDS (CDS_keyTag: u16) (CDS_algorithm: u8) (CDS_digestT: u8) (CDS_digest: bytes)

definition packCDS :: "rdCDS \<Rightarrow> packer \<Rightarrow> packer" where
  "packCDS r =
     pseq [putUint16 (CDS_keyTag r), putUint8 (CDS_algorithm r), putUint8 (CDS_digestT r),
       putRaw (CDS_digest r)]"

definition NewCDS :: "u16 \<Rightarrow> u8 \<Rightarrow> u8 \<Rightarrow> bytes \<Rightarrow> wire_error + rdCDS" where
  "NewCDS keyTag alg dt digest =
     (let want = dsDigestLen dt in
      if alg \<noteq> 0 \<and> want \<noteq> 0 \<and> length digest \<noteq> want
        then Inl (ErrInvalidRData ''CDS digest length'')
      else Inr (RdCDS keyTag alg dt digest))"

definition unpackCDS :: "int \<Rightarrow> rdCDS unp" where
  "unpackCDS rdlen =
     (if rdlen < 4 then ufail (ErrInvalidRData ''CDS rdlen'')
      else
        ubind uOff (\<lambda>o1. let e = int o1 + rdlen in
        ubind getUint16 (\<lambda>tag.
        ubind getUint8 (\<lambda>alg.
        ubind getUint8 (\<lambda>dt.
        ubind uOff (\<lambda>o2.
        ubind (getBytes (e - int o2)) (\<lambda>dig. ureturn (RdCDS tag alg dt dig))))))))"

datatype rdCDNSKEY =
  RdCDNSKEY (CDNSKEY_flags: u16) (CDNSKEY_protocol: u8) (CDNSKEY_algorithm: u8)
    (CDNSKEY_pubkey: bytes)

definition packCDNSKEY :: "rdCDNSKEY \<Rightarrow> packer \<Rightarrow> packer" where
  "packCDNSKEY r =
     pseq [putUint16 (CDNSKEY_flags r), putUint8 (CDNSKEY_protocol r),
       putUint8 (CDNSKEY_algorithm r), putRaw (CDNSKEY_pubkey r)]"

definition NewCDNSKEY :: "u16 \<Rightarrow> u8 \<Rightarrow> u8 \<Rightarrow> bytes \<Rightarrow> wire_error + rdCDNSKEY" where
  "NewCDNSKEY flags protocol algorithm pubkey =
     (let sentinel = (flags = 0 \<and> protocol = 0 \<and> algorithm = 0) in
      if \<not> sentinel \<and> protocol \<noteq> 3 then Inl (ErrInvalidRData ''CDNSKEY protocol'')
      else Inr (RdCDNSKEY flags protocol algorithm pubkey))"

definition unpackCDNSKEY :: "int \<Rightarrow> rdCDNSKEY unp" where
  "unpackCDNSKEY rdlen =
     (if rdlen < 4 then ufail (ErrInvalidRData ''CDNSKEY rdlen'')
      else
        ubind uOff (\<lambda>o1. let e = int o1 + rdlen in
        ubind getUint16 (\<lambda>flags.
        ubind getUint8 (\<lambda>proto.
        ubind getUint8 (\<lambda>alg.
        ubind uOff (\<lambda>o2.
        ubind (getBytes (e - int o2)) (\<lambda>pk. ureturn (RdCDNSKEY flags proto alg pk))))))))"

subsection \<open>The bitmap lists the types in order\<close>

definition mkType :: "u8 \<Rightarrow> nat \<Rightarrow> u16" where
  "mkType w k = push_bit 8 (ucast w) OR word_of_nat k"

lemma unat_mkType: "k < 256 \<Longrightarrow> unat (mkType w k) = unat w * 256 + k"
proof -
  assume k: "k < 256"
  have "unat (push_bit 8 (ucast w) :: u16) = push_bit 8 (unat w)"
  proof -
    have "take_bit 16 (unat w) = unat w" "take_bit 16 (unat w * 256) = unat w * 256"
      using unat_byte_less [of w] by (simp_all add: take_bit_nat_eq_self_iff del: unat_byte_less)
    then show ?thesis
      by (simp only: unsigned_push_bit_eq unsigned_ucast_eq) (simp add: push_bit_eq_mult)
  qed
  then have "unat (mkType w k) = push_bit 8 (unat w) OR unat (word_of_nat k :: byte)"
    using k by (simp add: mkType_def unsigned_or_eq)
  with k show ?thesis unfolding push8_or_byte by simp
qed

lemma unat_typeWin: "unat (typeWin t) = unat t div 256"
proof -
  have "unat (typeWin t) = take_bit 8 (drop_bit 8 (take_bit 16 (unat t)))"
    by (simp only: typeWin_def unsigned_ucast_eq unsigned_drop_bit_eq) simp
  then show ?thesis
    using unat_u16_less [of t] by (simp add: drop_bit_eq_div take_bit_eq_mod)
qed

lemma unat_typeBit: "unat (typeBit t) = unat t mod 256"
proof -
  have "t AND 0xff = take_bit 8 t" by (simp add: take_bit_eq_mask mask_eq_exp_minus_1)
  then have "unat (typeBit t) = take_bit 8 (take_bit 8 (unat t))"
    by (simp only: typeBit_def unsigned_ucast_eq unsigned_take_bit_eq) simp
  then show ?thesis by (simp add: take_bit_eq_mod)
qed

lemma mkType_split: "mkType (typeWin t) (unat (typeBit t)) = t"
proof -
  have "unat (mkType (typeWin t) (unat (typeBit t))) = unat t"
    by (simp add: unat_mkType) (simp add: unat_typeWin unat_typeBit)
  then show ?thesis by (rule unsigned_word_eqI)
qed

lemma mkType_inv:
  assumes "k < 256"
  shows "typeWin (mkType w k) = w" "unat (typeBit (mkType w k)) = k"
proof -
  have "unat (typeWin (mkType w k)) = unat w" using assms by (simp add: unat_typeWin unat_mkType)
  then show "typeWin (mkType w k) = w" by (rule unsigned_word_eqI)
  show "unat (typeBit (mkType w k)) = k" using assms by (simp add: unat_typeBit unat_mkType)
qed

text \<open>Bit \<open>k\<close> of a window, counted from the most significant bit of its first octet.\<close>

definition bmBit :: "bytes \<Rightarrow> nat \<Rightarrow> bool" where
  "bmBit bm k \<longleftrightarrow> bit (bm ! (k div 8)) (7 - k mod 8)"

lemma and_push_bit: "(b AND push_bit n 1 \<noteq> 0) = bit (b :: byte) n"
proof
  assume "b AND push_bit n 1 \<noteq> 0"
  then obtain m where "bit (b AND push_bit n 1) m" by (metis bit_eqI bit_0_eq bot_apply bot_bool_def)
  then show "bit b n" by (auto simp: bit_simps)
next
  assume b: "bit b n"
  then have "n < 8" using byte_bit_high leI by blast
  with b have "bit (b AND push_bit n 1) n" by (auto simp: bit_simps)
  then show "b AND push_bit n 1 \<noteq> 0" by auto
qed

lemma and_exp: "(b AND 2 ^ n \<noteq> 0) = bit (b :: byte) n"
  using and_push_bit [of b n] by simp

lemma windowTypes_filter:
  "windowTypes w bm = map (mkType w) (filter (bmBit bm) [0..<8 * length bm])"
proof -
  have "concat (map (\<lambda>i. byteTypes w i (bm ! i)) [0..<n]) =
      map (mkType w) (filter (bmBit bm) [0..<8 * n])" for n
  proof (induction n)
    case (Suc n)
    have "8 * Suc n = 8 * n + 8" by simp
    then have u: "[0..<8 * Suc n] = [0..<8 * n] @ map (\<lambda>k. 8 * n + k) [0..<8]"
      using upt_add_eq_append [of 0 "8 * n" 8] map_add_upt [of "8 * n" 8]
      by (simp only: add.commute [of "8 * n"] le0)
    have "filter (bmBit bm) (map (\<lambda>k. 8 * n + k) [0..<8]) =
        map (\<lambda>k. 8 * n + k) (filter (\<lambda>k. bit (bm ! n) (7 - k)) [0..<8])"
      unfolding filter_map comp_def by (rule arg_cong [where f = "map _"], rule filter_cong) (auto simp: bmBit_def)
    then have "byteTypes w n (bm ! n) = map (mkType w) (filter (bmBit bm) (map (\<lambda>k. 8 * n + k) [0..<8]))"
      by (simp add: byteTypes_def and_exp mkType_def comp_def mult.commute)
    with Suc u show ?case by simp
  qed simp
  then show ?thesis by (simp add: windowTypes_def)
qed


lemma mkType_mono: "j < k \<Longrightarrow> k < 256 \<Longrightarrow> mkType w j < mkType w k"
  by (simp add: word_less_nat_alt unat_mkType)

lemma mkType_win_mono: "w < w' \<Longrightarrow> j < 256 \<Longrightarrow> k < 256 \<Longrightarrow> mkType w j < mkType w' k"
  by (simp add: word_less_nat_alt unat_mkType)

lemma sorted_windowTypes:
  assumes "length bm \<le> 32"
  shows "sorted_wrt (<) (windowTypes w bm)"
proof -
  have "sorted_wrt (<) (filter (bmBit bm) [0..<8 * length bm])"
    by (rule sorted_wrt_filter) (simp add: strict_sorted_iff)
  then have "sorted_wrt (\<lambda>j k. mkType w j < mkType w k) (filter (bmBit bm) [0..<8 * length bm])"
    by (rule sorted_wrt_mono_rel [rotated]) (use assms in \<open>auto intro: mkType_mono\<close>)
  then show ?thesis by (simp add: windowTypes_filter sorted_wrt_map)
qed

lemma set_windowTypes:
  "t \<in> set (windowTypes w bm) \<longleftrightarrow> (\<exists>k < 8 * length bm. bmBit bm k \<and> t = mkType w k)"
  by (auto simp: windowTypes_filter)

lemma windowTypes_trim_last: "windowTypes w (bm @ [0]) = windowTypes w bm"
proof -
  have "map (\<lambda>i. byteTypes w i ((bm @ [0]) ! i)) [0..<length bm] =
      map (\<lambda>i. byteTypes w i (bm ! i)) [0..<length bm]"
    by (rule map_cong) (auto simp: nth_append)
  moreover have "byteTypes w i 0 = []" for i by (simp add: byteTypes_def)
  ultimately show ?thesis
    by (simp only: windowTypes_def length_append_singleton upt_Suc_append le0 map_append concat_append)
      simp
qed

lemma trimLen_spec:
  "1 \<le> n \<Longrightarrow> n \<le> length bm \<Longrightarrow> 1 \<le> trimLen bm n \<and> trimLen bm n \<le> n \<and>
   windowTypes w (take (trimLen bm n) bm) = windowTypes w (take n bm)"
proof (induction bm n rule: trimLen.induct)
  case (1 bm n)
  show ?case
  proof (cases "n > 1 \<and> bm ! (n - 1) = 0")
    case True
    with "1.prems" have t: "take n bm = take (n - 1) bm @ [0]"
      by (metis One_nat_def Suc_le_D diff_Suc_1 less_eq_Suc_le take_Suc_conv_app_nth)
    have eq: "trimLen bm n = trimLen bm (n - 1)" using True by (simp add: trimLen.simps [of bm n])
    have "1 \<le> n - 1" "n - 1 \<le> length bm" using True "1.prems" by auto
    from "1.IH" [OF True this] show ?thesis unfolding eq t windowTypes_trim_last by auto
  next
    case False
    then have "trimLen bm n = n" by (subst trimLen.simps) auto
    with "1.prems" show ?thesis by simp
  qed
qed

lemma bmBit_setBit:
  assumes "length bm = 32" "k < 256"
  shows "bmBit (setBit b bm) k \<longleftrightarrow> bmBit bm k \<or> k = unat b"
proof -
  have b: "unat b div 8 < 32" "k div 8 < 32"
    using unat_byte_less [of b] assms by (auto intro: less_mult_imp_div_less)
  have eq: "k = unat b \<longleftrightarrow> k div 8 = unat b div 8 \<and> k mod 8 = unat b mod 8"
    by (metis div_mult_mod_eq)
  show ?thesis
  proof (cases "k div 8 = unat b div 8")
    case True
    have "7 - k mod 8 = 7 - unat b mod 8 \<longleftrightarrow> k mod 8 = unat b mod 8"
      using mod_less_divisor [of 8 k] mod_less_divisor [of 8 "unat b"] by linarith
    moreover have "bit (push_bit m 1 :: byte) n = (n = m \<and> n < 8)" for m n by (auto simp: bit_simps)
    moreover have "7 - k mod 8 < 8" by simp
    ultimately show ?thesis
      using True b assms unfolding bmBit_def setBit_def eq by (simp add: bit_or_iff)
  next
    case False
    then show ?thesis unfolding bmBit_def setBit_def eq by simp
  qed
qed

lemma length_setBit [simp]: "length (setBit b bm) = length bm"
  by (simp add: setBit_def)

lemma addBucket_fst:
  "map fst (addBucket t B) =
     (if typeWin t \<in> fst ` set B then map fst B else map fst B @ [typeWin t])"
  by (induction t B rule: addBucket.induct) auto

lemma addBucket_mem:
  "distinct (map fst B) \<Longrightarrow> (w, bm) \<in> set (addBucket t B) \<Longrightarrow>
   w \<noteq> typeWin t \<and> (w, bm) \<in> set B \<or>
   w = typeWin t \<and> (\<exists>bm0. bm = setBit (typeBit t) bm0 \<and>
     ((w, bm0) \<in> set B \<or> w \<notin> fst ` set B \<and> bm0 = replicate 32 0))"
  by (induction t B rule: addBucket.induct) (auto split: if_splits intro: rev_image_eqI)

text \<open>The buckets of the types \<open>ts\<close> seen so far.\<close>

definition buckets_inv :: "u16 set \<Rightarrow> bucket list \<Rightarrow> bool" where
  "buckets_inv T B \<longleftrightarrow> sorted_wrt (<) (map fst B) \<and> fst ` set B = typeWin ` T \<and>
     (\<forall>(w, bm) \<in> set B. length bm = 32 \<and> (\<forall>k < 256. bmBit bm k \<longleftrightarrow> mkType w k \<in> T))"

lemma bmBit_zero: "k < 256 \<Longrightarrow> \<not> bmBit (replicate 32 0) k"
proof -
  assume "k < 256"
  then have "k div 8 < 32" by (auto intro: less_mult_imp_div_less)
  then show ?thesis by (simp add: bmBit_def)
qed

lemma bucket_update:
  assumes "length bm = 32" "\<forall>k < 256. bmBit bm k \<longleftrightarrow> mkType (typeWin t) k \<in> T" "k < 256"
  shows "bmBit (setBit (typeBit t) bm) k \<longleftrightarrow> mkType (typeWin t) k \<in> insert t T"
proof -
  have "mkType (typeWin t) k = t \<longleftrightarrow> k = unat (typeBit t)"
    using mkType_split [of t] mkType_inv(2) [OF assms(3), of "typeWin t"] by auto
  with assms show ?thesis by (simp add: bmBit_setBit) blast
qed

lemma addBucket_inv:
  assumes "buckets_inv T B" "\<forall>s \<in> T. s \<le> t"
  shows "buckets_inv (insert t T) (addBucket t B)"
proof -
  have win: "typeWin s \<le> typeWin t" if "s \<in> T" for s
    using assms(2) that by (auto simp: word_le_nat_alt unat_typeWin intro: div_le_mono)
  have inv: "sorted_wrt (<) (map fst B)" "fst ` set B = typeWin ` T"
    "\<And>w bm. (w, bm) \<in> set B \<Longrightarrow> length bm = 32 \<and> (\<forall>k < 256. bmBit bm k \<longleftrightarrow> mkType w k \<in> T)"
    using assms(1) by (auto simp: buckets_inv_def)
  have dist: "distinct (map fst B)" using inv(1) by (simp add: strict_sorted_iff)
  have less: "x < typeWin t" if "x \<in> fst ` set B" "typeWin t \<notin> fst ` set B" for x
  proof -
    from that(1) obtain s where s: "s \<in> T" "x = typeWin s" unfolding inv(2) by (elim imageE)
    with that(2) have "x \<noteq> typeWin t" unfolding inv(2) by (intro notI) simp
    with win [OF s(1)] s(2) show ?thesis by (simp add: order.strict_iff_order)
  qed
  have 1: "sorted_wrt (<) (map fst (addBucket t B))"
    using inv(1) less unfolding addBucket_fst by (simp add: sorted_wrt_append)
  have 2: "fst ` set (addBucket t B) = typeWin ` insert t T"
    using arg_cong [OF addBucket_fst [of t B], where f = set] inv(2) by (auto split: if_splits)
  have 3: "length bm = 32 \<and> (\<forall>k < 256. bmBit bm k \<longleftrightarrow> mkType w k \<in> insert t T)"
    if "(w, bm) \<in> set (addBucket t B)" for w bm
    using addBucket_mem [OF dist that]
  proof (elim disjE conjE exE)
    assume w: "w \<noteq> typeWin t" and B: "(w, bm) \<in> set B"
    have "mkType w k \<noteq> t" if "k < 256" for k using w mkType_inv(1) [OF that, of w] by (intro notI) simp
    then show ?thesis using inv(3) [OF B] by simp
  next
    fix bm0
    assume "w = typeWin t" "bm = setBit (typeBit t) bm0" "(w, bm0) \<in> set B"
    then show ?thesis using inv(3) [of w bm0] bucket_update [of bm0 t T] by simp
  next
    fix bm0
    assume w: "w = typeWin t" "bm = setBit (typeBit t) bm0" "w \<notin> fst ` set B" "bm0 = replicate 32 0"
    have "mkType (typeWin t) k \<notin> T" if "k < 256" for k
      using w(1,3) imageI [of "mkType (typeWin t) k" T typeWin] mkType_inv(1) [OF that, of "typeWin t"]
      unfolding inv(2) by auto
    then have "\<forall>k < 256. bmBit bm0 k \<longleftrightarrow> mkType (typeWin t) k \<in> T" using w(4) bmBit_zero by simp
    from bucket_update [OF _ this] w show ?thesis by simp
  qed
  show ?thesis unfolding buckets_inv_def
    by (intro conjI 1 2 ballI) (simp only: split_paired_all prod.case, rule 3)
qed

lemma fold_addBucket_inv:
  "sorted ts \<Longrightarrow> buckets_inv (set ts) (fold addBucket ts [])"
proof (induction ts rule: rev_induct)
  case (snoc t ts)
  then show ?case
    using addBucket_inv [of "set ts" "fold addBucket ts []" t] by (auto simp: sorted_append)
qed (simp add: buckets_inv_def)


lemma sorted_wrt_concat_windows:
  assumes "sorted_wrt (<) (map fst B)" "\<forall>(w, bm) \<in> set B. length bm \<le> 32"
  shows "sorted_wrt (<) (concat (map (\<lambda>(w, bm). windowTypes w bm) B))"
  using assms
proof (induction B)
  case (Cons b B)
  obtain w bm where b: "b = (w, bm)" by (cases b)
  have "s < s'" if s: "s \<in> set (windowTypes w bm)" and B: "(w', bm') \<in> set B"
    and s': "s' \<in> set (windowTypes w' bm')" for s w' bm' s'
  proof -
    have "w < w'" using Cons.prems(1) b B by force
    moreover obtain j k where "s = mkType w j" "s' = mkType w' k" "j < 8 * length bm" "k < 8 * length bm'"
      using s s' by (auto simp: set_windowTypes)
    moreover have "length bm \<le> 32" "length bm' \<le> 32" using Cons.prems(2) b B by auto
    ultimately show ?thesis by (auto intro!: mkType_win_mono)
  qed
  with Cons b show ?case by (auto simp: sorted_wrt_append sorted_windowTypes)
qed simp

lemma buckets_types:
  assumes "buckets_inv T B" "finite T"
  shows "concat (map (\<lambda>(w, bm). windowTypes w bm) B) = sorted_list_of_set T"
proof -
  let ?l = "concat (map (\<lambda>(w, bm). windowTypes w bm) B)"
  have inv: "sorted_wrt (<) (map fst B)" "fst ` set B = typeWin ` T"
    "\<And>w bm. (w, bm) \<in> set B \<Longrightarrow> length bm = 32 \<and> (\<forall>k < 256. bmBit bm k \<longleftrightarrow> mkType w k \<in> T)"
    using assms(1) by (auto simp: buckets_inv_def)
  have "sorted_wrt (<) ?l" by (rule sorted_wrt_concat_windows [OF inv(1)]) (use inv(3) in fastforce)
  moreover have "set ?l = T"
  proof (intro equalityI subsetI)
    fix t assume "t \<in> set ?l"
    then show "t \<in> T" using inv(3) by (fastforce simp: set_windowTypes)
  next
    fix t assume t: "t \<in> T"
    then obtain bm where bm: "(typeWin t, bm) \<in> set B" using inv(2) by force
    then have "t \<in> set (windowTypes (typeWin t) bm)"
      using inv(3) [OF bm] t mkType_split [of t] unat_byte_less [of "typeBit t"]
      by (auto simp: set_windowTypes intro!: exI [of _ "unat (typeBit t)"])
    with bm show "t \<in> set ?l" by auto
  qed
  ultimately show ?thesis
    by (metis strict_sorted_iff sorted_list_of_set.idem_if_sorted_distinct)
qed

subsection \<open>Reading the bitmap back\<close>

definition trimBucket :: "bucket \<Rightarrow> bucket" where
  "trimBucket b = (fst b, take (trimLen (snd b) 32) (snd b))"

definition enc_window :: "bucket \<Rightarrow> bytes" where
  "enc_window b = [fst b, word_of_nat (length (snd b))] @ snd b"

definition window_ok :: "bitmap_acc \<Rightarrow> bucket \<Rightarrow> bool" where
  "window_ok acc b \<longleftrightarrow> (snd (snd acc) \<or> fst (snd acc) < uint (fst b)) \<and>
     0 < length (snd b) \<and> length (snd b) \<le> 32"

definition add_window :: "bitmap_acc \<Rightarrow> bucket \<Rightarrow> bitmap_acc" where
  "add_window acc b = (fst acc @ windowTypes (fst b) (snd b), uint (fst b), False)"

lemma bitmap_body_ok:
  assumes "window_ok acc b" "int (length pre) + int (length (enc_window b)) \<le> e"
  shows "bitmap_body e acc (cur_at pre (enc_window b @ s)) =
    (Inr (add_window acc b), cur_at (pre @ enc_window b) s)"
proof -
  obtain out last first where acc: "acc = (out, last, first)" by (cases acc)
  obtain w bm where b: "b = (w, bm)" by (cases b)
  have l: "0 < length bm" "length bm \<le> 32" using assms(1) b by (auto simp: window_ok_def)
  then have ln: "(word_of_nat (length bm) :: byte) \<noteq> 0" "\<not> (word_of_nat (length bm) :: byte) > 32"
    by (simp_all add: word_less_nat_alt unat_eq_0 [symmetric])
  have "\<not> (\<not> first \<and> uint w \<le> last)" using assms(1) acc b by (auto simp: window_ok_def)
  with ln l assms(2) show ?thesis
    by (auto simp: bitmap_body_def acc b enc_window_def add_window_def wire_simps)
qed

interpretation bitmap: item_codec bitmap_body enc_window add_window window_ok
proof unfold_locales
  fix e acc show "forward_reader (bitmap_body e acc)"
    unfolding bitmap_body_def by (cases acc) (auto intro!: safe_intros)
next
  fix e acc acc' u u'
  assume u: "uoff u \<le> length (umsg u)" "bitmap_body e acc u = (Inr acc', u')"
  have "strict_reader (bitmap_body e acc)"
    unfolding bitmap_body_def by (cases acc) (auto intro!: strict_intros safe_intros)
  with u show "uoff u < uoff u'" unfolding strict_reader_def by blast
qed (auto simp: bitmap_body_ok, simp add: enc_window_def)


lemma windows_ok:
  "sorted_wrt (<) (map fst B) \<Longrightarrow> \<forall>b \<in> set B. 0 < length (snd b) \<and> length (snd b) \<le> 32 \<Longrightarrow>
   snd (snd acc) \<or> (\<forall>b \<in> set B. fst (snd acc) < uint (fst b)) \<Longrightarrow>
   items_ok window_ok add_window acc B"
  by (induction B arbitrary: acc) (auto simp: window_ok_def add_window_def word_less_def)

lemma foldl_add_window:
  "fst (foldl add_window acc B) = fst acc @ concat (map (\<lambda>(w, bm). windowTypes w bm) B)"
  by (induction B arbitrary: acc) (auto simp: add_window_def case_prod_beta)

definition typeBuckets :: "u16 list \<Rightarrow> bucket list" where
  "typeBuckets types = map trimBucket (fold addBucket (sort types) [])"

definition encTypes :: "u16 list \<Rightarrow> bytes" where
  "encTypes types = concat (map enc_window (typeBuckets types))"

lemma buckets_inv_types: "buckets_inv (set types) (fold addBucket (sort types) [])"
  using fold_addBucket_inv [of "sort types"] by simp

lemma typeBuckets_spec:
  "sorted_wrt (<) (map fst (typeBuckets types))"
  "\<forall>b \<in> set (typeBuckets types). 0 < length (snd b) \<and> length (snd b) \<le> 32"
  "concat (map (\<lambda>(w, bm). windowTypes w bm) (typeBuckets types)) = sorted_list_of_set (set types)"
proof -
  let ?B = "fold addBucket (sort types) []"
  note inv = buckets_inv_types [of types]
  have len: "length bm = 32" if "(w, bm) \<in> set ?B" for w bm
    using inv that by (auto simp: buckets_inv_def)
  have trim: "windowTypes w (take (trimLen bm 32) bm) = windowTypes w bm"
    "1 \<le> trimLen bm 32 \<and> trimLen bm 32 \<le> 32" if "(w, bm) \<in> set ?B" for w bm
    using trimLen_spec [of 32 bm w] len [OF that] by auto
  show "sorted_wrt (<) (map fst (typeBuckets types))"
    using inv by (simp add: buckets_inv_def typeBuckets_def trimBucket_def comp_def)
  show "\<forall>b \<in> set (typeBuckets types). 0 < length (snd b) \<and> length (snd b) \<le> 32"
    using trim(2) len by (fastforce simp: typeBuckets_def trimBucket_def)
  have "concat (map (\<lambda>(w, bm). windowTypes w bm) (typeBuckets types)) =
      concat (map (\<lambda>(w, bm). windowTypes w bm) ?B)"
    unfolding typeBuckets_def map_map
    by (intro arg_cong [where f = concat] map_cong refl) (auto simp: trimBucket_def trim(1))
  then show "concat (map (\<lambda>(w, bm). windowTypes w bm) (typeBuckets types)) = sorted_list_of_set (set types)"
    using buckets_types [OF inv] by simp
qed

lemma putBucket_raw: "length (snd b) = 32 \<Longrightarrow> putBucket b = putRaw (enc_window (trimBucket b))"
  using trimLen_spec [of 32 "snd b" 0]
  by (auto simp: fun_eq_iff putBucket_def Let_def wire_simps enc_window_def trimBucket_def min_def)

lemma fold_putBucket:
  "\<forall>b \<in> set B. length (snd b) = 32 \<Longrightarrow>
   fold putBucket B p = putRaw (concat (map enc_window (map trimBucket B))) p"
  by (induction B arbitrary: p) (simp_all add: putBucket_raw wire_simps, simp add: putRaw_def)

lemma encodeTypeBitmap_raw [wire_simps]: "encodeTypeBitmap types = putRaw (encTypes types)"
proof (rule ext)
  fix p
  have "\<forall>b \<in> set (fold addBucket (sort types) []). length (snd b) = 32"
    using buckets_inv_types [of types] by (auto simp: buckets_inv_def)
  from fold_putBucket [OF this, of p] show "encodeTypeBitmap types p = putRaw (encTypes types) p"
    by (auto simp: encodeTypeBitmap_def encTypes_def typeBuckets_def putRaw_def)
qed

lemma appender_types [append_intros]: "appender_op (encodeTypeBitmap types)"
  unfolding encodeTypeBitmap_raw by (intro append_intros)

lemma decodeTypeBitmap_at [wire_simps]:
  "n = int (length (encTypes types)) \<Longrightarrow>
   ubind (decodeTypeBitmap n) f (cur_at pre (encTypes types @ s)) =
     f (sorted_list_of_set (set types)) (cur_at (pre @ encTypes types) s)"
proof -
  assume n: "n = int (length (encTypes types))"
  have "forOff (int (length pre) + n) (bitmap_body (int (length pre) + n)) ([], - 1, True)
      (cur_at pre (encTypes types @ s)) =
    (Inr (foldl add_window ([], - 1, True) (typeBuckets types)), cur_at (pre @ encTypes types) s)"
    unfolding encTypes_def
    by (rule bitmap.forOff_items, rule windows_ok) (use typeBuckets_spec n in \<open>auto simp: encTypes_def\<close>)
  then show ?thesis
    by (simp add: decodeTypeBitmap_def Let_def ubind_def uOff_def ureturn_def foldl_add_window
        typeBuckets_spec(3))
qed

text \<open>What the decoder accepts is strictly increasing.\<close>

definition acc_sorted :: "bitmap_acc \<Rightarrow> bool" where
  "acc_sorted acc \<longleftrightarrow> sorted_wrt (<) (fst acc) \<and>
     (if snd (snd acc) then fst acc = [] else \<forall>t \<in> set (fst acc). uint (typeWin t) \<le> fst (snd acc))"

lemma acc_sorted_win:
  assumes "acc_sorted acc" "window_ok acc b" "s \<in> set (fst acc)"
  shows "uint (typeWin s) < uint (fst b)"
proof -
  have "\<not> snd (snd acc)" using assms(1,3) by (auto simp: acc_sorted_def)
  with assms show ?thesis unfolding acc_sorted_def window_ok_def by fastforce
qed

lemma typeWin_less: "typeWin s < typeWin t \<Longrightarrow> s < t"
proof (rule ccontr)
  assume "typeWin s < typeWin t" "\<not> s < t"
  then have "unat (typeWin s) < unat (typeWin t)" "unat t \<le> unat s"
    by (simp_all add: word_less_nat_alt)
  with div_le_mono [of "unat t" "unat s" 256] show False by (simp add: unat_typeWin)
qed

lemma windowTypes_win: "length bm \<le> 32 \<Longrightarrow> t \<in> set (windowTypes w bm) \<Longrightarrow> typeWin t = w"
  by (auto simp: set_windowTypes mkType_inv(1))

lemma add_window_sorted:
  assumes "acc_sorted acc" "window_ok acc b"
  shows "acc_sorted (add_window acc b)"
proof -
  have l: "length (snd b) \<le> 32" using assms(2) by (simp add: window_ok_def)
  have "s < t" if "s \<in> set (fst acc)" "t \<in> set (windowTypes (fst b) (snd b))" for s t
    using acc_sorted_win [OF assms that(1)] windowTypes_win [OF l that(2)]
    by (intro typeWin_less) (simp add: word_less_def)
  moreover have "uint (typeWin s) \<le> uint (fst b)" if "s \<in> set (fst acc)" for s
    using acc_sorted_win [OF assms that] by simp
  moreover have "sorted_wrt (<) (fst acc)" using assms(1) by (simp add: acc_sorted_def)
  ultimately show ?thesis
    using sorted_windowTypes [OF l, of "fst b"] windowTypes_win [OF l]
    unfolding acc_sorted_def add_window_def by (auto simp: sorted_wrt_append)
qed

lemma yields_types: "yields (decodeTypeBitmap n) (sorted_wrt (<))"
proof -
  have "yields (bitmap_body e acc) acc_sorted" if acc: "acc_sorted acc" for e acc
  proof -
    obtain out last first where a: "acc = (out, last, first)" by (cases acc)
    have "acc_sorted (out @ windowTypes win bm, uint win, False)"
      if "\<not> (\<not> first \<and> uint win \<le> last)" "\<not> (ln = 0 \<or> ln > 32)" "int (length bm) = int (unat (ln :: u8))"
      for win bm ln
    proof -
      have "length bm = unat ln" using that(3) by (simp only: of_nat_eq_iff)
      then have "window_ok acc (win, bm)"
        using that(1,2) a by (auto simp: window_ok_def word_less_nat_alt unat_gt_0)
      from add_window_sorted [OF acc this] show ?thesis by (simp add: add_window_def a)
    qed
    then show ?thesis
      unfolding a bitmap_body_def prod.case by (intro yields_rules) blast
  qed
  then have "yields (forOff e (bitmap_body e) ([], - 1, True)) acc_sorted" for e
    by (rule yields_forOff) (simp_all add: acc_sorted_def)
  then show ?thesis
    unfolding decodeTypeBitmap_def Let_def
    by (intro yields_rules yields_bind [where Q = acc_sorted and m = "forOff e b a" for e b a])
      (simp_all add: acc_sorted_def)
qed

lemma forward_types [safe_intros]: "forward_reader (decodeTypeBitmap n)"
  unfolding decodeTypeBitmap_def Let_def by (intro safe_intros bitmap.forward_forOff)

lemma types_sorted [simp]: "sorted_wrt (<) ts \<Longrightarrow> sorted_list_of_set (set ts) = (ts :: u16 list)"
  by (simp add: strict_sorted_iff sorted_list_of_set.idem_if_sorted_distinct)


subsection \<open>The contracts\<close>

lemmas dnssec_rules = yields_bind [OF yields_types] safe_intros append_intros yields_rules

interpretation dnskey: plain_codec packDNSKEY unpackDNSKEY "\<lambda>r. DNSKEY_protocol r = 3"
proof unfold_locales
  fix r enc pre s assume "DNSKEY_protocol r = 3" "enc = packBytes packDNSKEY r"
  then show "unpackDNSKEY (int (length enc)) (cur_at pre (enc @ s)) = (Inr r, cur_at (pre @ enc) s)"
    by (cases r) (simp add: packDNSKEY_def unpackDNSKEY_def packBytes_def wire_simps Let_def)
qed (auto simp: packDNSKEY_def unpackDNSKEY_def packBytes_def wire_simps Let_def intro!: dnssec_rules)

interpretation ds: plain_codec packDS unpackDS "\<lambda>_. True"
  by unfold_locales
    (auto simp: packDS_def unpackDS_def packBytes_def wire_simps Let_def intro!: dnssec_rules)

interpretation rrsig: plain_codec packRRSIG unpackRRSIG "\<lambda>r. nm_ok (RRSIG_signerName r)"
proof unfold_locales
  fix r enc pre s assume r: "nm_ok (RRSIG_signerName r)" and "enc = packBytes packRRSIG r"
  then show "unpackRRSIG (int (length enc)) (cur_at pre (enc @ s)) = (Inr r, cur_at (pre @ enc) s)"
    using Suc_leI [OF wire_nonempty(1) [OF r]]
    by (auto simp: packRRSIG_def unpackRRSIG_def packBytes_def wire_simps Let_def)
qed (auto simp: packRRSIG_def unpackRRSIG_def packBytes_def wire_simps Let_def intro!: dnssec_rules)

definition invNSEC :: "rdNSEC \<Rightarrow> bool" where
  "invNSEC r \<longleftrightarrow> nm_ok (NSEC_next r) \<and> sorted_wrt (<) (NSEC_types r)"

interpretation nsec: plain_codec packNSEC unpackNSEC invNSEC
  by unfold_locales
    (auto simp: packNSEC_def unpackNSEC_def invNSEC_def packBytes_def wire_simps Let_def
      intro!: dnssec_rules)

definition invNSEC3 :: "rdNSEC3 \<Rightarrow> bool" where
  "invNSEC3 r \<longleftrightarrow> length (NSEC3_salt r) \<le> 255 \<and> 0 < length (NSEC3_nextOwner r) \<and>
     length (NSEC3_nextOwner r) \<le> 255 \<and> sorted_wrt (<) (NSEC3_types r)"

interpretation nsec3: plain_codec packNSEC3 unpackNSEC3 invNSEC3
proof unfold_locales
  fix r enc pre s assume r: "invNSEC3 r" and enc: "enc = packBytes packNSEC3 r"
  then have "(word_of_nat (length (NSEC3_nextOwner r)) :: u8) \<noteq> 0"
    by (simp add: invNSEC3_def unat_eq_0 [symmetric])
  with r enc show "unpackNSEC3 (int (length enc)) (cur_at pre (enc @ s)) = (Inr r, cur_at (pre @ enc) s)"
    by (auto simp: packNSEC3_def unpackNSEC3_def invNSEC3_def packBytes_def wire_simps Let_def)
next
  fix n show "yields (unpackNSEC3 n) invNSEC3"
    unfolding unpackNSEC3_def Let_def
    by (intro dnssec_rules) (simp add: invNSEC3_def unat_gt_0 del: of_nat_unat)
qed (auto simp: packNSEC3_def unpackNSEC3_def packBytes_def wire_simps Let_def intro!: dnssec_rules)

interpretation nsec3param: plain_codec packNSEC3PARAM unpackNSEC3PARAM
  "\<lambda>r. length (NSEC3PARAM_salt r) \<le> 255"
proof unfold_locales
  fix n show "yields (unpackNSEC3PARAM n) (\<lambda>r. length (NSEC3PARAM_salt r) \<le> 255)"
    unfolding unpackNSEC3PARAM_def Let_def
    by (intro dnssec_rules) (simp del: of_nat_unat)
qed (auto simp: packNSEC3PARAM_def unpackNSEC3PARAM_def packBytes_def wire_simps Let_def
    intro!: dnssec_rules)

interpretation csync: plain_codec packCSYNC unpackCSYNC "\<lambda>r. sorted_wrt (<) (CSYNC_types r)"
  by unfold_locales
    (auto simp: packCSYNC_def unpackCSYNC_def packBytes_def wire_simps Let_def intro!: dnssec_rules)

interpretation cds: plain_codec packCDS unpackCDS "\<lambda>_. True"
  by unfold_locales
    (auto simp: packCDS_def unpackCDS_def packBytes_def wire_simps Let_def intro!: dnssec_rules)

interpretation cdnskey: plain_codec packCDNSKEY unpackCDNSKEY "\<lambda>_. True"
  by unfold_locales
    (auto simp: packCDNSKEY_def unpackCDNSKEY_def packBytes_def wire_simps Let_def intro!: dnssec_rules)

end
