(* ===== verification/Rdata_Fixed.thy ===== *)
theory Rdata_Fixed
  imports Rdata_Core
begin

text \<open>
  Payloads of fixed fields followed by opaque octets: \<^verbatim>\<open>addr.go\<close>, \<^verbatim>\<open>nsap.go\<close>, \<^verbatim>\<open>eui.go\<close>,
  \<^verbatim>\<open>loc.go\<close>, \<^verbatim>\<open>openpgpkey.go\<close>, \<^verbatim>\<open>dhcid.go\<close>, \<^verbatim>\<open>sshfp.go\<close>, \<^verbatim>\<open>tlsa.go\<close>, \<^verbatim>\<open>cert.go\<close>, the
  integer types of \<^verbatim>\<open>ilnp.go\<close>, \<^verbatim>\<open>zonemd.go\<close> and \<^verbatim>\<open>tkey.go\<close>.  The defensive copies of the sources
  are identities here.
\<close>

subsection \<open>A, AAAA\<close>

datatype rdA = RdA (A_addr: ipaddr)

text \<open>On an address without a 4-octet form \<^verbatim>\<open>As4\<close> panics: the value is then unspecified.\<close>

definition packA :: "rdA \<Rightarrow> packer \<Rightarrow> packer" where
  "packA r = putRaw (the (As4 (A_addr r)))"

definition NewA :: "ipaddr \<Rightarrow> wire_error + rdA" where
  "NewA addr =
     (if \<not> Is4 addr then Inl (ErrInvalidRData ''A requires IPv4 address'') else Inr (RdA addr))"

definition unpackA :: "int \<Rightarrow> rdA unp" where
  "unpackA rdlen =
     (if rdlen \<noteq> 4 then ufail (ErrInvalidRData ''A rdlen'')
      else ubind (getBytes 4) (\<lambda>b. ureturn (RdA (AddrFrom4 b))))"

datatype rdAAAA = RdAAAA (AAAA_addr: ipaddr)

definition packAAAA :: "rdAAAA \<Rightarrow> packer \<Rightarrow> packer" where
  "packAAAA r = putRaw (As16 (AAAA_addr r))"

definition NewAAAA :: "ipaddr \<Rightarrow> wire_error + rdAAAA" where
  "NewAAAA addr =
     (if \<not> Is6 addr then Inl (ErrInvalidRData ''AAAA requires IPv6 address'') else Inr (RdAAAA addr))"

definition unpackAAAA :: "int \<Rightarrow> rdAAAA unp" where
  "unpackAAAA rdlen =
     (if rdlen \<noteq> 16 then ufail (ErrInvalidRData ''AAAA rdlen'')
      else ubind (getBytes 16) (\<lambda>b. ureturn (RdAAAA (AddrFrom16 b))))"

subsection \<open>Opaque octets: NSAP, OPENPGPKEY, DHCID, EUI48, EUI64\<close>

datatype rdNSAP = RdNSAP (NSAP_addr: bytes)

definition packNSAP :: "rdNSAP \<Rightarrow> packer \<Rightarrow> packer" where
  "packNSAP r = putRaw (NSAP_addr r)"

definition NewNSAP :: "bytes \<Rightarrow> rdNSAP" where
  "NewNSAP addr = RdNSAP addr"

definition unpackNSAP :: "int \<Rightarrow> rdNSAP unp" where
  "unpackNSAP rdlen = ubind (getBytes rdlen) (\<lambda>b. ureturn (RdNSAP b))"

datatype rdOPENPGPKEY = RdOPENPGPKEY (OPENPGPKEY_pubkey: bytes)

definition packOPENPGPKEY :: "rdOPENPGPKEY \<Rightarrow> packer \<Rightarrow> packer" where
  "packOPENPGPKEY r = putRaw (OPENPGPKEY_pubkey r)"

definition NewOPENPGPKEY :: "bytes \<Rightarrow> rdOPENPGPKEY" where
  "NewOPENPGPKEY pubkey = RdOPENPGPKEY pubkey"

definition unpackOPENPGPKEY :: "int \<Rightarrow> rdOPENPGPKEY unp" where
  "unpackOPENPGPKEY rdlen = ubind (getBytes rdlen) (\<lambda>b. ureturn (RdOPENPGPKEY b))"

datatype rdDHCID = RdDHCID (DHCID_data: bytes)

definition packDHCID :: "rdDHCID \<Rightarrow> packer \<Rightarrow> packer" where
  "packDHCID r = putRaw (DHCID_data r)"

definition NewDHCID :: "bytes \<Rightarrow> rdDHCID" where
  "NewDHCID data = RdDHCID data"

definition unpackDHCID :: "int \<Rightarrow> rdDHCID unp" where
  "unpackDHCID rdlen = ubind (getBytes rdlen) (\<lambda>b. ureturn (RdDHCID b))"

text \<open>The array types \<^verbatim>\<open>[6]byte\<close> and \<^verbatim>\<open>[8]byte\<close> are lists here; the invariants fix the length.\<close>

datatype rdEUI48 = RdEUI48 (EUI48_addr: bytes)

definition packEUI48 :: "rdEUI48 \<Rightarrow> packer \<Rightarrow> packer" where
  "packEUI48 r = putRaw (EUI48_addr r)"

definition NewEUI48 :: "bytes \<Rightarrow> rdEUI48" where
  "NewEUI48 addr = RdEUI48 addr"

definition unpackEUI48 :: "int \<Rightarrow> rdEUI48 unp" where
  "unpackEUI48 rdlen =
     (if rdlen \<noteq> 6 then ufail (ErrInvalidRData ''EUI48 rdlen'')
      else ubind (getBytes 6) (\<lambda>b. ureturn (RdEUI48 b)))"

datatype rdEUI64 = RdEUI64 (EUI64_addr: bytes)

definition packEUI64 :: "rdEUI64 \<Rightarrow> packer \<Rightarrow> packer" where
  "packEUI64 r = putRaw (EUI64_addr r)"

definition NewEUI64 :: "bytes \<Rightarrow> rdEUI64" where
  "NewEUI64 addr = RdEUI64 addr"

definition unpackEUI64 :: "int \<Rightarrow> rdEUI64 unp" where
  "unpackEUI64 rdlen =
     (if rdlen \<noteq> 8 then ufail (ErrInvalidRData ''EUI64 rdlen'')
      else ubind (getBytes 8) (\<lambda>b. ureturn (RdEUI64 b)))"

subsection \<open>LOC\<close>

datatype rdLOC =
  RdLOC (LOC_version: u8) (LOC_size: u8) (LOC_horizPre: u8) (LOC_vertPre: u8) (LOC_lat: u32)
    (LOC_lon: u32) (LOC_alt: u32)

definition packLOC :: "rdLOC \<Rightarrow> packer \<Rightarrow> packer" where
  "packLOC r =
     pseq [putUint8 (LOC_version r), putUint8 (LOC_size r), putUint8 (LOC_horizPre r),
       putUint8 (LOC_vertPre r), putUint32 (LOC_lat r), putUint32 (LOC_lon r),
       putUint32 (LOC_alt r)]"

definition validateLOCSizeByte :: "string \<Rightarrow> u8 \<Rightarrow> wire_error option" where
  "validateLOCSizeByte name b =
     (if drop_bit 4 b > 9 then Some (ErrInvalidRData (''LOC '' @ name @ '' mantissa''))
      else if b AND 0x0f > 9 then Some (ErrInvalidRData (''LOC '' @ name @ '' exponent''))
      else None)"

definition NewLOC :: "u8 \<Rightarrow> u8 \<Rightarrow> u8 \<Rightarrow> u8 \<Rightarrow> u32 \<Rightarrow> u32 \<Rightarrow> u32 \<Rightarrow> wire_error + rdLOC" where
  "NewLOC version sz horizPre vertPre latitude longitude altitude =
     (case validateLOCSizeByte ''size'' sz of
        Some e \<Rightarrow> Inl e
      | None \<Rightarrow>
     (case validateLOCSizeByte ''horizPre'' horizPre of
        Some e \<Rightarrow> Inl e
      | None \<Rightarrow>
     (case validateLOCSizeByte ''vertPre'' vertPre of
        Some e \<Rightarrow> Inl e
      | None \<Rightarrow> Inr (RdLOC version sz horizPre vertPre latitude longitude altitude))))"

text \<open>\<^verbatim>\<open>if err := ...; err != nil { return zero, err }\<close> for an error computed without the unpacker\<close>

definition ucheck :: "wire_error option \<Rightarrow> unit unp" where
  "ucheck r = (case r of Some e \<Rightarrow> ufail e | None \<Rightarrow> ureturn ())"

definition unpackLOC :: "int \<Rightarrow> rdLOC unp" where
  "unpackLOC rdlen =
     (if rdlen \<noteq> 16 then ufail (ErrInvalidRData ''LOC rdlen'')
      else
        ubind getUint8 (\<lambda>v.
        ubind getUint8 (\<lambda>sz.
        ubind (ucheck (validateLOCSizeByte ''size'' sz)) (\<lambda>_.
        ubind getUint8 (\<lambda>hp.
        ubind (ucheck (validateLOCSizeByte ''horizPre'' hp)) (\<lambda>_.
        ubind getUint8 (\<lambda>vp.
        ubind (ucheck (validateLOCSizeByte ''vertPre'' vp)) (\<lambda>_.
        ubind getUint32 (\<lambda>lat.
        ubind getUint32 (\<lambda>lon.
        ubind getUint32 (\<lambda>alt. ureturn (RdLOC v sz hp vp lat lon alt))))))))))))"

subsection \<open>SSHFP, TLSA, SMIMEA, CERT\<close>

datatype rdSSHFP = RdSSHFP (SSHFP_alg: u8) (SSHFP_fpt: u8) (SSHFP_value: bytes)

definition packSSHFP :: "rdSSHFP \<Rightarrow> packer \<Rightarrow> packer" where
  "packSSHFP r = pseq [putUint8 (SSHFP_alg r), putUint8 (SSHFP_fpt r), putRaw (SSHFP_value r)]"

definition NewSSHFP :: "u8 \<Rightarrow> u8 \<Rightarrow> bytes \<Rightarrow> rdSSHFP" where
  "NewSSHFP alg fpt fingerprint = RdSSHFP alg fpt fingerprint"

definition unpackSSHFP :: "int \<Rightarrow> rdSSHFP unp" where
  "unpackSSHFP rdlen =
     (if rdlen < 2 then ufail (ErrInvalidRData ''SSHFP rdlen'')
      else
        ubind getUint8 (\<lambda>alg.
        ubind getUint8 (\<lambda>fpt.
        ubind (getBytes (rdlen - 2)) (\<lambda>fp. ureturn (RdSSHFP alg fpt fp)))))"

datatype rdTLSA = RdTLSA (TLSA_usage: u8) (TLSA_selector: u8) (TLSA_matching: u8) (TLSA_data: bytes)

definition packTLSA :: "rdTLSA \<Rightarrow> packer \<Rightarrow> packer" where
  "packTLSA r =
     pseq [putUint8 (TLSA_usage r), putUint8 (TLSA_selector r), putUint8 (TLSA_matching r),
       putRaw (TLSA_data r)]"

definition NewTLSA :: "u8 \<Rightarrow> u8 \<Rightarrow> u8 \<Rightarrow> bytes \<Rightarrow> rdTLSA" where
  "NewTLSA usage selector matching data = RdTLSA usage selector matching data"

definition unpackTLSA :: "int \<Rightarrow> rdTLSA unp" where
  "unpackTLSA rdlen =
     (if rdlen < 3 then ufail (ErrInvalidRData ''TLSA rdlen'')
      else
        ubind getUint8 (\<lambda>usage.
        ubind getUint8 (\<lambda>selector.
        ubind getUint8 (\<lambda>matching.
        ubind (getBytes (rdlen - 3)) (\<lambda>data. ureturn (RdTLSA usage selector matching data))))))"

datatype rdSMIMEA =
  RdSMIMEA (SMIMEA_usage: u8) (SMIMEA_selector: u8) (SMIMEA_matching: u8) (SMIMEA_data: bytes)

definition packSMIMEA :: "rdSMIMEA \<Rightarrow> packer \<Rightarrow> packer" where
  "packSMIMEA r =
     pseq [putUint8 (SMIMEA_usage r), putUint8 (SMIMEA_selector r), putUint8 (SMIMEA_matching r),
       putRaw (SMIMEA_data r)]"

definition NewSMIMEA :: "u8 \<Rightarrow> u8 \<Rightarrow> u8 \<Rightarrow> bytes \<Rightarrow> rdSMIMEA" where
  "NewSMIMEA usage selector matching data = RdSMIMEA usage selector matching data"

definition unpackSMIMEA :: "int \<Rightarrow> rdSMIMEA unp" where
  "unpackSMIMEA rdlen =
     (if rdlen < 3 then ufail (ErrInvalidRData ''SMIMEA rdlen'')
      else
        ubind getUint8 (\<lambda>usage.
        ubind getUint8 (\<lambda>selector.
        ubind getUint8 (\<lambda>matching.
        ubind (getBytes (rdlen - 3)) (\<lambda>data. ureturn (RdSMIMEA usage selector matching data))))))"

datatype rdCERT = RdCERT (CERT_certType: u16) (CERT_keyTag: u16) (CERT_algorithm: u8) (CERT_cert: bytes)

definition packCERT :: "rdCERT \<Rightarrow> packer \<Rightarrow> packer" where
  "packCERT r =
     pseq [putUint16 (CERT_certType r), putUint16 (CERT_keyTag r), putUint8 (CERT_algorithm r),
       putRaw (CERT_cert r)]"

definition NewCERT :: "u16 \<Rightarrow> u16 \<Rightarrow> u8 \<Rightarrow> bytes \<Rightarrow> rdCERT" where
  "NewCERT certType keyTag alg cert = RdCERT certType keyTag alg cert"

definition unpackCERT :: "int \<Rightarrow> rdCERT unp" where
  "unpackCERT rdlen =
     (if rdlen < 5 then ufail (ErrInvalidRData ''CERT rdlen'')
      else
        ubind uOff (\<lambda>o1. let e = int o1 + rdlen in
        ubind getUint16 (\<lambda>ct.
        ubind getUint16 (\<lambda>tag.
        ubind getUint8 (\<lambda>alg.
        ubind uOff (\<lambda>o2.
        ubind (getBytes (e - int o2)) (\<lambda>cert. ureturn (RdCERT ct tag alg cert))))))))"

subsection \<open>NID, L32, L64, ZONEMD, TKEY\<close>

datatype rdNID = RdNID (NID_pref: u16) (NID_id: u64)

definition packNID :: "rdNID \<Rightarrow> packer \<Rightarrow> packer" where
  "packNID r =
     pseq [putUint16 (NID_pref r), putUint32 (ucast (drop_bit 32 (NID_id r))),
       putUint32 (ucast (NID_id r))]"

definition NewNID :: "u16 \<Rightarrow> u64 \<Rightarrow> rdNID" where
  "NewNID pref nodeID = RdNID pref nodeID"

definition unpackNID :: "int \<Rightarrow> rdNID unp" where
  "unpackNID rdlen =
     (if rdlen \<noteq> 10 then ufail (ErrInvalidRData ''NID rdlen'')
      else
        ubind getUint16 (\<lambda>pref.
        ubind getUint32 (\<lambda>hi.
        ubind getUint32 (\<lambda>lo. ureturn (RdNID pref (join64 hi lo))))))"

datatype rdL32 = RdL32 (L32_pref: u16) (L32_loc: u32)

definition packL32 :: "rdL32 \<Rightarrow> packer \<Rightarrow> packer" where
  "packL32 r = pseq [putUint16 (L32_pref r), putUint32 (L32_loc r)]"

definition NewL32 :: "u16 \<Rightarrow> u32 \<Rightarrow> rdL32" where
  "NewL32 pref locator = RdL32 pref locator"

definition unpackL32 :: "int \<Rightarrow> rdL32 unp" where
  "unpackL32 rdlen =
     (if rdlen \<noteq> 6 then ufail (ErrInvalidRData ''L32 rdlen'')
      else
        ubind getUint16 (\<lambda>pref.
        ubind getUint32 (\<lambda>loc. ureturn (RdL32 pref loc))))"

datatype rdL64 = RdL64 (L64_pref: u16) (L64_loc: u64)

definition packL64 :: "rdL64 \<Rightarrow> packer \<Rightarrow> packer" where
  "packL64 r =
     pseq [putUint16 (L64_pref r), putUint32 (ucast (drop_bit 32 (L64_loc r))),
       putUint32 (ucast (L64_loc r))]"

definition NewL64 :: "u16 \<Rightarrow> u64 \<Rightarrow> rdL64" where
  "NewL64 pref locator = RdL64 pref locator"

definition unpackL64 :: "int \<Rightarrow> rdL64 unp" where
  "unpackL64 rdlen =
     (if rdlen \<noteq> 10 then ufail (ErrInvalidRData ''L64 rdlen'')
      else
        ubind getUint16 (\<lambda>pref.
        ubind getUint32 (\<lambda>hi.
        ubind getUint32 (\<lambda>lo. ureturn (RdL64 pref (join64 hi lo))))))"

datatype rdZONEMD =
  RdZONEMD (ZONEMD_serial: u32) (ZONEMD_scheme: u8) (ZONEMD_hash: u8) (ZONEMD_digest: bytes)

definition packZONEMD :: "rdZONEMD \<Rightarrow> packer \<Rightarrow> packer" where
  "packZONEMD r =
     pseq [putUint32 (ZONEMD_serial r), putUint8 (ZONEMD_scheme r), putUint8 (ZONEMD_hash r),
       putRaw (ZONEMD_digest r)]"

definition validateZONEMDDigestLength :: "u8 \<Rightarrow> nat \<Rightarrow> wire_error option" where
  "validateZONEMDDigestLength hash n =
     (if hash = 1 then (if n \<noteq> 48 then Some (ErrInvalidRData ''ZONEMD digest len'') else None)
      else if hash = 2 then (if n \<noteq> 64 then Some (ErrInvalidRData ''ZONEMD digest len'') else None)
      else None)"

definition NewZONEMD :: "u32 \<Rightarrow> u8 \<Rightarrow> u8 \<Rightarrow> bytes \<Rightarrow> wire_error + rdZONEMD" where
  "NewZONEMD serial scheme hash digest =
     (case validateZONEMDDigestLength hash (length digest) of
        Some e \<Rightarrow> Inl e
      | None \<Rightarrow> Inr (RdZONEMD serial scheme hash digest))"

definition unpackZONEMD :: "int \<Rightarrow> rdZONEMD unp" where
  "unpackZONEMD rdlen =
     (if rdlen < 6 then ufail (ErrInvalidRData ''ZONEMD rdlen'')
      else
        ubind getUint32 (\<lambda>serial.
        ubind getUint8 (\<lambda>scheme.
        ubind getUint8 (\<lambda>hash.
        ubind (getBytes (rdlen - 6)) (\<lambda>digest.
        ubind (ucheck (validateZONEMDDigestLength hash (length digest))) (\<lambda>_.
          ureturn (RdZONEMD serial scheme hash digest)))))))"

datatype rdTKEY =
  RdTKEY (TKEY_algorithm: wname) (TKEY_inception: u32) (TKEY_expire: u32) (TKEY_mode: u16)
    (TKEY_errCode: u16) (TKEY_keyData: bytes) (TKEY_otherData: bytes)

definition packTKEY :: "rdTKEY \<Rightarrow> packer \<Rightarrow> packer" where
  "packTKEY r =
     pseq [putNameUncompressed (TKEY_algorithm r), putUint32 (TKEY_inception r),
       putUint32 (TKEY_expire r), putUint16 (TKEY_mode r), putUint16 (TKEY_errCode r),
       putUint16 (word_of_nat (length (TKEY_keyData r))), putRaw (TKEY_keyData r),
       putUint16 (word_of_nat (length (TKEY_otherData r))), putRaw (TKEY_otherData r)]"

text \<open>The two times are given as their \<^verbatim>\<open>Unix()\<close> seconds.\<close>

definition NewTKEY ::
    "wname \<Rightarrow> int \<Rightarrow> int \<Rightarrow> u16 \<Rightarrow> u16 \<Rightarrow> bytes \<Rightarrow> bytes \<Rightarrow> wire_error + rdTKEY" where
  "NewTKEY algorithm inception expiration mode errCode keyData otherData =
     (if length keyData > 0xffff then Inl (ErrInvalidRData ''TKEY key-data exceeds 65535 bytes'')
      else if length otherData > 0xffff
        then Inl (ErrInvalidRData ''TKEY other-data exceeds 65535 bytes'')
      else Inr (RdTKEY algorithm (word_of_int inception) (word_of_int expiration) mode errCode
             keyData otherData))"

definition unpackTKEY :: "int \<Rightarrow> rdTKEY unp" where
  "unpackTKEY rdlen =
     ubind uOff (\<lambda>o1. let e = int o1 + rdlen in
     ubind uOff (\<lambda>o2.
     ubind (getUncompressedName (e - int o2)) (\<lambda>alg.
     ubind getUint32 (\<lambda>inc.
     ubind getUint32 (\<lambda>exp.
     ubind getUint16 (\<lambda>mode.
     ubind getUint16 (\<lambda>ec.
     ubind getUint16 (\<lambda>klen.
     ubind uOff (\<lambda>o3.
     ubind (uguard (int o3 + int (unat klen) > e)
       (ErrInvalidRData ''TKEY key-data length exceeds rdlen'')) (\<lambda>_.
     ubind (getBytes (int (unat klen))) (\<lambda>kd.
     ubind getUint16 (\<lambda>olen.
     ubind uOff (\<lambda>o4.
     ubind (uguard (int o4 + int (unat olen) > e)
       (ErrInvalidRData ''TKEY other-data length exceeds rdlen'')) (\<lambda>_.
     ubind (getBytes (int (unat olen))) (\<lambda>od.
       ureturn (RdTKEY alg inc exp mode ec kd od))))))))))))))))"

subsection \<open>The contracts\<close>

lemma ucheck_simps [wire_simps]: "ucheck None = ureturn ()" "ucheck (Some e) = ufail e"
  by (simp_all add: ucheck_def)

lemma yields_check: "yields (ucheck r) (\<lambda>_. r = None)"
  by (cases r) (simp_all add: ucheck_def yields_def ufail_def)

lemma forward_check [safe_intros]: "r \<noteq> Some Diverges \<Longrightarrow> forward_reader (ucheck r)"
  by (cases r) (auto simp: ucheck_def intro!: safe_intros)

lemmas fixed_rules = yields_bind [OF yields_check] safe_intros append_intros yields_rules

interpretation a: plain_codec packA unpackA "\<lambda>r. addr4_ok (A_addr r)"
proof unfold_locales
  fix r enc pre s assume "addr4_ok (A_addr r)" "enc = packBytes packA r"
  then show "unpackA (int (length enc)) (cur_at pre (enc @ s)) = (Inr r, cur_at (pre @ enc) s)"
    by (cases r) (auto simp: packA_def unpackA_def packBytes_def wire_simps addr4_ok_def AddrFrom4_def)
qed (auto simp: packA_def unpackA_def packBytes_def wire_simps addr4_ok_def AddrFrom4_def
    intro!: fixed_rules)

interpretation aaaa: plain_codec packAAAA unpackAAAA "\<lambda>r. addr6_ok (AAAA_addr r)"
proof unfold_locales
  fix r enc pre s assume "addr6_ok (AAAA_addr r)" "enc = packBytes packAAAA r"
  then show "unpackAAAA (int (length enc)) (cur_at pre (enc @ s)) = (Inr r, cur_at (pre @ enc) s)"
    by (cases r) (auto simp: packAAAA_def unpackAAAA_def packBytes_def wire_simps addr6_ok_def AddrFrom16_def)
qed (auto simp: packAAAA_def unpackAAAA_def packBytes_def wire_simps addr6_ok_def AddrFrom16_def
    intro!: fixed_rules)

interpretation nsap: plain_codec packNSAP unpackNSAP "\<lambda>_. True"
  by unfold_locales
    (auto simp: packNSAP_def unpackNSAP_def packBytes_def wire_simps Let_def intro!: fixed_rules)

interpretation openpgpkey: plain_codec packOPENPGPKEY unpackOPENPGPKEY "\<lambda>_. True"
  by unfold_locales
    (auto simp: packOPENPGPKEY_def unpackOPENPGPKEY_def packBytes_def wire_simps Let_def intro!: fixed_rules)

interpretation dhcid: plain_codec packDHCID unpackDHCID "\<lambda>_. True"
  by unfold_locales
    (auto simp: packDHCID_def unpackDHCID_def packBytes_def wire_simps Let_def intro!: fixed_rules)

interpretation eui48: plain_codec packEUI48 unpackEUI48 "\<lambda>r. length (EUI48_addr r) = 6"
  by unfold_locales
    (auto simp: packEUI48_def unpackEUI48_def packBytes_def wire_simps Let_def intro!: fixed_rules)

interpretation eui64: plain_codec packEUI64 unpackEUI64 "\<lambda>r. length (EUI64_addr r) = 8"
  by unfold_locales
    (auto simp: packEUI64_def unpackEUI64_def packBytes_def wire_simps Let_def intro!: fixed_rules)

interpretation sshfp: plain_codec packSSHFP unpackSSHFP "\<lambda>_. True"
  by unfold_locales
    (auto simp: packSSHFP_def unpackSSHFP_def packBytes_def wire_simps Let_def intro!: fixed_rules)

interpretation tlsa: plain_codec packTLSA unpackTLSA "\<lambda>_. True"
  by unfold_locales
    (auto simp: packTLSA_def unpackTLSA_def packBytes_def wire_simps Let_def intro!: fixed_rules)

interpretation smimea: plain_codec packSMIMEA unpackSMIMEA "\<lambda>_. True"
  by unfold_locales
    (auto simp: packSMIMEA_def unpackSMIMEA_def packBytes_def wire_simps Let_def intro!: fixed_rules)

interpretation cert: plain_codec packCERT unpackCERT "\<lambda>_. True"
  by unfold_locales
    (auto simp: packCERT_def unpackCERT_def packBytes_def wire_simps Let_def intro!: fixed_rules)

interpretation nid: plain_codec packNID unpackNID "\<lambda>_. True"
  by unfold_locales
    (auto simp: packNID_def unpackNID_def packBytes_def wire_simps Let_def intro!: fixed_rules)

interpretation l32: plain_codec packL32 unpackL32 "\<lambda>_. True"
  by unfold_locales
    (auto simp: packL32_def unpackL32_def packBytes_def wire_simps Let_def intro!: fixed_rules)

interpretation l64: plain_codec packL64 unpackL64 "\<lambda>_. True"
  by unfold_locales
    (auto simp: packL64_def unpackL64_def packBytes_def wire_simps Let_def intro!: fixed_rules)

definition invLOC :: "rdLOC \<Rightarrow> bool" where
  "invLOC r \<longleftrightarrow> validateLOCSizeByte ''size'' (LOC_size r) = None \<and>
     validateLOCSizeByte ''horizPre'' (LOC_horizPre r) = None \<and>
     validateLOCSizeByte ''vertPre'' (LOC_vertPre r) = None"

lemma validate_no_div [simp]:
  "validateLOCSizeByte n b \<noteq> Some Diverges" "validateZONEMDDigestLength h k \<noteq> Some Diverges"
  by (simp_all add: validateLOCSizeByte_def validateZONEMDDigestLength_def)

interpretation loc: plain_codec packLOC unpackLOC invLOC
  by unfold_locales
    (auto simp: packLOC_def unpackLOC_def invLOC_def packBytes_def wire_simps intro!: fixed_rules)

definition invZONEMD :: "rdZONEMD \<Rightarrow> bool" where
  "invZONEMD r \<longleftrightarrow> validateZONEMDDigestLength (ZONEMD_hash r) (length (ZONEMD_digest r)) = None"

interpretation zonemd: plain_codec packZONEMD unpackZONEMD invZONEMD
  by unfold_locales
    (auto simp: packZONEMD_def unpackZONEMD_def invZONEMD_def packBytes_def wire_simps intro!: fixed_rules)

definition invTKEY :: "rdTKEY \<Rightarrow> bool" where
  "invTKEY r \<longleftrightarrow> nm_ok (TKEY_algorithm r) \<and> length (TKEY_keyData r) < 65536 \<and>
     length (TKEY_otherData r) < 65536"

lemma length_of_u16: "int (length b) = uint (v :: u16) \<Longrightarrow> length b < 65536"
  using unat_u16_less [of v] by (metis nat_int unat_eq_nat_uint)

interpretation tkey: plain_codec packTKEY unpackTKEY invTKEY
  by unfold_locales
    (auto simp: packTKEY_def unpackTKEY_def invTKEY_def packBytes_def wire_simps Let_def
      intro!: fixed_rules dest: length_of_u16)

end
