(* ===== verification/Rdata_Window.thy ===== *)
theory Rdata_Window
  imports Rdata_Fixed
begin

text \<open>
  Payloads whose layout depends on a type octet or that repeat an item until the rdata window is
  used up: \<^verbatim>\<open>amtrelay.go\<close>, \<^verbatim>\<open>ipseckey.go\<close>, \<^verbatim>\<open>hip.go\<close> and \<^verbatim>\<open>apl.go\<close>.
\<close>

subsection \<open>AMTRELAY\<close>

datatype rdAMTRELAY =
  RdAMTRELAY (AMTRELAY_prec: u8) (AMTRELAY_discovery: bool) (AMTRELAY_rt: u8)
    (AMTRELAY_relayAddr: ipaddr) (AMTRELAY_relayName: wname)

definition packAMTRELAY :: "rdAMTRELAY \<Rightarrow> packer \<Rightarrow> packer" where
  "packAMTRELAY r =
     pseq [putUint8 (AMTRELAY_prec r),
       putUint8 ((AMTRELAY_rt r AND 0x7f) OR (if AMTRELAY_discovery r then 0x80 else 0)),
       (if AMTRELAY_rt r = 1 then putRaw (the (As4 (AMTRELAY_relayAddr r)))
        else if AMTRELAY_rt r = 2 then putRaw (As16 (AMTRELAY_relayAddr r))
        else if AMTRELAY_rt r = 3 then putNameUncompressed (AMTRELAY_relayName r)
        else (\<lambda>p. p))]"

definition NewAMTRELAYNone :: "u8 \<Rightarrow> bool \<Rightarrow> rdAMTRELAY" where
  "NewAMTRELAYNone prec discovery = RdAMTRELAY prec discovery 0 ZeroAddr zeroName"

definition NewAMTRELAYAddr :: "u8 \<Rightarrow> bool \<Rightarrow> ipaddr \<Rightarrow> wire_error + rdAMTRELAY" where
  "NewAMTRELAYAddr prec discovery addr =
     (if Is4 addr then Inr (RdAMTRELAY prec discovery 1 addr zeroName)
      else if Is6 addr then Inr (RdAMTRELAY prec discovery 2 addr zeroName)
      else Inl (ErrInvalidRData ''AMTRELAY address must be IPv4 or IPv6''))"

definition NewAMTRELAYName :: "u8 \<Rightarrow> bool \<Rightarrow> wname \<Rightarrow> wire_error + rdAMTRELAY" where
  "NewAMTRELAYName prec discovery name =
     (if \<not> IsValid name then Inl (ErrInvalidRData ''AMTRELAY relay name is invalid'')
      else Inr (RdAMTRELAY prec discovery 3 ZeroAddr name))"

definition unpackAMTRELAY :: "int \<Rightarrow> rdAMTRELAY unp" where
  "unpackAMTRELAY rdlen =
     (if rdlen < 2 then ufail (ErrInvalidRData ''AMTRELAY rdlen'')
      else
        ubind uOff (\<lambda>o1. let e = int o1 + rdlen in
        ubind getUint8 (\<lambda>prec.
        ubind getUint8 (\<lambda>b. let rt = b AND 0x7f; disc = (b AND 0x80 \<noteq> 0) in
        ubind
          (if rt = 0 then ureturn (ZeroAddr, zeroName)
           else if rt = 1 then
             ubind uOff (\<lambda>o2.
             ubind (uguard (int o2 + 4 > e) (ErrInvalidRData ''AMTRELAY IPv4 relay exceeds rdlen'')) (\<lambda>_.
             ubind (getBytes 4) (\<lambda>raw. ureturn (AddrFrom4 raw, zeroName))))
           else if rt = 2 then
             ubind uOff (\<lambda>o2.
             ubind (uguard (int o2 + 16 > e) (ErrInvalidRData ''AMTRELAY IPv6 relay exceeds rdlen'')) (\<lambda>_.
             ubind (getBytes 16) (\<lambda>raw. ureturn (AddrFrom16 raw, zeroName))))
           else if rt = 3 then
             ubind uOff (\<lambda>o2.
             ubind (getUncompressedName (e - int o2)) (\<lambda>n. ureturn (ZeroAddr, n)))
           else ufail (ErrInvalidRData ''AMTRELAY unknown relay type'')) (\<lambda>relay.
        ubind uOff (\<lambda>o3.
        ubind (uguard (int o3 \<noteq> e) (ErrInvalidRData ''AMTRELAY trailing bytes'')) (\<lambda>_.
          ureturn (RdAMTRELAY prec disc rt (fst relay) (snd relay)))))))))"

subsection \<open>IPSECKEY\<close>

datatype rdIPSECKEY =
  RdIPSECKEY (IPSECKEY_prec: u8) (IPSECKEY_gt: u8) (IPSECKEY_alg: u8) (IPSECKEY_gwAddr: ipaddr)
    (IPSECKEY_gwName: wname) (IPSECKEY_pubkey: bytes)

definition packIPSECKEY :: "rdIPSECKEY \<Rightarrow> packer \<Rightarrow> packer" where
  "packIPSECKEY r =
     pseq [putUint8 (IPSECKEY_prec r), putUint8 (IPSECKEY_gt r), putUint8 (IPSECKEY_alg r),
       (if IPSECKEY_gt r = 1 then putRaw (the (As4 (IPSECKEY_gwAddr r)))
        else if IPSECKEY_gt r = 2 then putRaw (As16 (IPSECKEY_gwAddr r))
        else if IPSECKEY_gt r = 3 then putNameUncompressed (IPSECKEY_gwName r)
        else (\<lambda>p. p)),
       putRaw (IPSECKEY_pubkey r)]"

definition NewIPSECKEYNoGateway :: "u8 \<Rightarrow> u8 \<Rightarrow> bytes \<Rightarrow> rdIPSECKEY" where
  "NewIPSECKEYNoGateway prec alg pubkey = RdIPSECKEY prec 0 alg ZeroAddr zeroName pubkey"

definition NewIPSECKEYAddr :: "u8 \<Rightarrow> u8 \<Rightarrow> ipaddr \<Rightarrow> bytes \<Rightarrow> wire_error + rdIPSECKEY" where
  "NewIPSECKEYAddr prec alg addr pubkey =
     (if Is6 addr then Inr (RdIPSECKEY prec 2 alg addr zeroName pubkey)
      else if \<not> Is4 addr then Inl (ErrInvalidRData ''IPSECKEY gateway address must be IPv4 or IPv6'')
      else Inr (RdIPSECKEY prec 1 alg addr zeroName pubkey))"

definition NewIPSECKEYName :: "u8 \<Rightarrow> u8 \<Rightarrow> wname \<Rightarrow> bytes \<Rightarrow> wire_error + rdIPSECKEY" where
  "NewIPSECKEYName prec alg name pubkey =
     (if \<not> IsValid name then Inl (ErrInvalidRData ''IPSECKEY gateway name is invalid'')
      else Inr (RdIPSECKEY prec 3 alg ZeroAddr name pubkey))"

definition unpackIPSECKEY :: "int \<Rightarrow> rdIPSECKEY unp" where
  "unpackIPSECKEY rdlen =
     ubind uOff (\<lambda>o1. let e = int o1 + rdlen in
     ubind getUint8 (\<lambda>prec.
     ubind getUint8 (\<lambda>gt.
     ubind getUint8 (\<lambda>alg.
     ubind
       (if gt = 0 then ureturn (ZeroAddr, zeroName)
        else if gt = 1 then
          ubind uOff (\<lambda>o2.
          ubind (uguard (int o2 + 4 > e) (ErrInvalidRData ''IPSECKEY IPv4 gateway exceeds rdlen'')) (\<lambda>_.
          ubind (getBytes 4) (\<lambda>raw. ureturn (AddrFrom4 raw, zeroName))))
        else if gt = 2 then
          ubind uOff (\<lambda>o2.
          ubind (uguard (int o2 + 16 > e) (ErrInvalidRData ''IPSECKEY IPv6 gateway exceeds rdlen'')) (\<lambda>_.
          ubind (getBytes 16) (\<lambda>raw. ureturn (AddrFrom16 raw, zeroName))))
        else if gt = 3 then
          ubind uOff (\<lambda>o2.
          ubind (getUncompressedName (e - int o2)) (\<lambda>n. ureturn (ZeroAddr, n)))
        else ufail (ErrInvalidRData ''IPSECKEY unknown gateway type'')) (\<lambda>gw.
     ubind uOff (\<lambda>o3. let remaining = e - int o3 in
     ubind (uguard (remaining < 0) (ErrInvalidRData ''IPSECKEY gateway exceeds rdlen'')) (\<lambda>_.
     ubind (getBytes remaining) (\<lambda>pk.
       ureturn (RdIPSECKEY prec gt alg (fst gw) (snd gw) pk)))))))))"

subsection \<open>HIP\<close>

datatype rdHIP = RdHIP (HIP_alg: u8) (HIP_hit: bytes) (HIP_pubkey: bytes) (HIP_rvs: "wname list")

definition packHIP :: "rdHIP \<Rightarrow> packer \<Rightarrow> packer" where
  "packHIP r =
     pseq [putUint8 (word_of_nat (length (HIP_hit r))), putUint8 (HIP_alg r),
       putUint16 (word_of_nat (length (HIP_pubkey r))), putRaw (HIP_hit r), putRaw (HIP_pubkey r),
       fold putNameUncompressed (HIP_rvs r)]"

definition NewHIP :: "u8 \<Rightarrow> bytes \<Rightarrow> bytes \<Rightarrow> wname list \<Rightarrow> wire_error + rdHIP" where
  "NewHIP alg hit pubkey rvs =
     (if length hit > 0xff then Inl (ErrInvalidRData ''HIP HIT length exceeds 255'')
      else if length pubkey > 0xffff then Inl (ErrInvalidRData ''HIP public key length exceeds 65535'')
      else Inr (RdHIP alg hit pubkey rvs))"

definition hip_body :: "int \<Rightarrow> wname list \<Rightarrow> wname list unp" where
  "hip_body e rvs =
     ubind uOff (\<lambda>o1.
     ubind (getUncompressedName (e - int o1)) (\<lambda>n. ureturn (rvs @ [n])))"

definition unpackHIP :: "int \<Rightarrow> rdHIP unp" where
  "unpackHIP rdlen =
     ubind uOff (\<lambda>o1. let e = int o1 + rdlen in
     ubind getUint8 (\<lambda>hitLen.
     ubind getUint8 (\<lambda>alg.
     ubind getUint16 (\<lambda>pkLen.
     ubind uOff (\<lambda>o2.
     ubind (uguard (int o2 + int (unat hitLen) > e)
       (ErrInvalidRData ''HIP hit length exceeds rdata window'')) (\<lambda>_.
     ubind (getBytes (int (unat hitLen))) (\<lambda>hit.
     ubind uOff (\<lambda>o3.
     ubind (uguard (int o3 + int (unat pkLen) > e)
       (ErrInvalidRData ''HIP pubkey length exceeds rdata window'')) (\<lambda>_.
     ubind (getBytes (int (unat pkLen))) (\<lambda>pk.
     ubind (forOff e (hip_body e) []) (\<lambda>rvs.
       ureturn (RdHIP alg hit pk rvs))))))))))))"

subsection \<open>APL\<close>

text \<open>
  \<^verbatim>\<open>netip.Prefix\<close>: an address without zone and the number of bits, \<open>-1\<close> for an invalid prefix.
\<close>

datatype ipprefix = Prefix (prefix_addr: ipaddr) (prefix_bits: int)

fun withoutZone :: "ipaddr \<Rightarrow> ipaddr" where
  "withoutZone (Addr6 b z) = Addr6 b []"
| "withoutZone a = a"

fun BitLen :: "ipaddr \<Rightarrow> int" where
  "BitLen ZeroAddr = 0"
| "BitLen (Addr4 _) = 32"
| "BitLen (Addr6 _ _) = 128"

definition PrefixFrom :: "ipaddr \<Rightarrow> int \<Rightarrow> ipprefix" where
  "PrefixFrom a bits =
     (if a \<noteq> ZeroAddr \<and> 0 \<le> bits \<and> bits \<le> BitLen a then Prefix (withoutZone a) bits
      else Prefix (withoutZone a) (- 1))"

definition prefixIsValid :: "ipprefix \<Rightarrow> bool" where
  "prefixIsValid p \<longleftrightarrow> 0 \<le> prefix_bits p"

datatype aplItem = APLItem (APL_family: u16) (APL_prefix: ipprefix) (APL_neg: bool)

definition NewAPLItem :: "ipprefix \<Rightarrow> bool \<Rightarrow> wire_error + aplItem" where
  "NewAPLItem prefix negate =
     (if \<not> prefixIsValid prefix then Inl (ErrInvalidRData ''APL prefix invalid'')
      else Inr (APLItem (if Is6 (prefix_addr prefix) then 2 else 1) prefix negate))"

datatype rdAPL = RdAPL (APL_items: "aplItem list")

text \<open>\<^verbatim>\<open>for len(raw) > 0 && raw[len(raw)-1] == 0 { raw = raw[:len(raw)-1] }\<close>\<close>

fun stripZeros :: "bytes \<Rightarrow> bytes" where
  "stripZeros raw = (if raw \<noteq> [] \<and> last raw = 0 then stripZeros (butlast raw) else raw)"

declare stripZeros.simps [simp del]

definition encodeAPLAFD :: "ipprefix \<Rightarrow> bytes" where
  "encodeAPLAFD p =
     (let raw = (if Is4 (prefix_addr p) then the (As4 (prefix_addr p)) else As16 (prefix_addr p)) in
      stripZeros raw)"

definition putAPLItem :: "aplItem \<Rightarrow> packer \<Rightarrow> packer" where
  "putAPLItem it =
     (let afd = encodeAPLAFD (APL_prefix it);
          nlen = (word_of_nat (length afd) AND 0x7f) OR (if APL_neg it then 0x80 else 0) in
      pseq [putUint16 (APL_family it), putUint8 (word_of_int (prefix_bits (APL_prefix it))),
        putUint8 nlen, putRaw afd])"

definition packAPL :: "rdAPL \<Rightarrow> packer \<Rightarrow> packer" where
  "packAPL r = fold putAPLItem (APL_items r)"

definition NewAPL :: "aplItem list \<Rightarrow> rdAPL" where
  "NewAPL items = RdAPL items"

text \<open>\<^verbatim>\<open>copy(b[:], afd)\<close> into a zeroed array of \<open>n\<close> octets\<close>

definition padTo :: "nat \<Rightarrow> bytes \<Rightarrow> bytes" where
  "padTo n b = take n b @ replicate (n - length b) 0"

definition decodeAPLAFD :: "u16 \<Rightarrow> u8 \<Rightarrow> bytes \<Rightarrow> wire_error + ipprefix" where
  "decodeAPLAFD family prefix afd =
     (if family = 1 then
        if prefix > 32 \<or> length afd > 4 then Inl (ErrInvalidRData ''APL IPv4 prefix'')
        else Inr (PrefixFrom (AddrFrom4 (padTo 4 afd)) (uint prefix))
      else if family = 2 then
        if prefix > 128 \<or> length afd > 16 then Inl (ErrInvalidRData ''APL IPv6 prefix'')
        else Inr (PrefixFrom (AddrFrom16 (padTo 16 afd)) (uint prefix))
      else Inl (ErrInvalidRData ''APL unknown family''))"

definition ulift :: "wire_error + 'a \<Rightarrow> 'a unp" where
  "ulift r = (case r of Inl e \<Rightarrow> ufail e | Inr x \<Rightarrow> ureturn x)"

definition apl_body :: "int \<Rightarrow> aplItem list \<Rightarrow> aplItem list unp" where
  "apl_body e items =
     ubind getUint16 (\<lambda>fam.
     ubind getUint8 (\<lambda>prefix.
     ubind getUint8 (\<lambda>nlen. let alen = int (unat (nlen AND 0x7f)); neg = (nlen AND 0x80 \<noteq> 0) in
     ubind uOff (\<lambda>o1.
     ubind (uguard (int o1 + alen > e) (ErrInvalidRData ''APL afdlength walks past rdata window'')) (\<lambda>_.
     ubind (getBytes alen) (\<lambda>afd.
     ubind (ulift (decodeAPLAFD fam prefix afd)) (\<lambda>p.
       ureturn (items @ [APLItem fam p neg]))))))))"

definition unpackAPL :: "int \<Rightarrow> rdAPL unp" where
  "unpackAPL rdlen =
     ubind uOff (\<lambda>o1. let e = int o1 + rdlen in
     ubind (forOff e (apl_body e) []) (\<lambda>items. ureturn (RdAPL items)))"

subsection \<open>The contracts of AMTRELAY and IPSECKEY\<close>

definition relay_ok :: "u8 \<Rightarrow> ipaddr \<Rightarrow> wname \<Rightarrow> bool" where
  "relay_ok t a n \<longleftrightarrow>
     t = 0 \<and> a = ZeroAddr \<and> n = zeroName \<or> t = 1 \<and> addr4_ok a \<and> n = zeroName \<or>
     t = 2 \<and> addr6_ok a \<and> n = zeroName \<or> t = 3 \<and> a = ZeroAddr \<and> nm_ok n"

lemma relay_okE:
  assumes "relay_ok t a n"
  obtains "t = 0" "a = ZeroAddr" "n = zeroName"
  | b where "t = 1" "a = Addr4 b" "length b = 4" "n = zeroName"
  | b where "t = 2" "a = Addr6 b []" "length b = 16" "n = zeroName"
  | "t = 3" "a = ZeroAddr" "nm_ok n"
  using assms by (auto simp: relay_ok_def addr4_ok_def addr6_ok_def)

lemmas relay_simps = AddrFrom4_def AddrFrom16_def

definition invAMTRELAY :: "rdAMTRELAY \<Rightarrow> bool" where
  "invAMTRELAY r \<longleftrightarrow> relay_ok (AMTRELAY_rt r) (AMTRELAY_relayAddr r) (AMTRELAY_relayName r)"

interpretation amtrelay: plain_codec packAMTRELAY unpackAMTRELAY invAMTRELAY
proof unfold_locales
  fix r enc pre s assume r: "invAMTRELAY r" and enc: "enc = packBytes packAMTRELAY r"
  from r have "relay_ok (AMTRELAY_rt r) (AMTRELAY_relayAddr r) (AMTRELAY_relayName r)"
    by (simp add: invAMTRELAY_def)
  then show "unpackAMTRELAY (int (length enc)) (cur_at pre (enc @ s)) = (Inr r, cur_at (pre @ enc) s)"
    using enc
    by (elim relay_okE; cases r; cases "AMTRELAY_discovery r")
      (simp_all add: packAMTRELAY_def unpackAMTRELAY_def packBytes_def wire_simps Let_def relay_simps)
next
  fix r assume "invAMTRELAY r"
  then have "relay_ok (AMTRELAY_rt r) (AMTRELAY_relayAddr r) (AMTRELAY_relayName r)"
    by (simp add: invAMTRELAY_def)
  then show "packAMTRELAY r = putRaw (packBytes packAMTRELAY r)"
    by (elim relay_okE) (simp_all add: packAMTRELAY_def packBytes_def wire_simps)
next
  fix n show "yields (unpackAMTRELAY n) invAMTRELAY"
    unfolding unpackAMTRELAY_def Let_def
    by (intro yields_rules yields_bind [where Q = "\<lambda>g. relay_ok t (fst g) (snd g)" for t])
      (auto simp: relay_ok_def addr4_ok_def addr6_ok_def relay_simps invAMTRELAY_def)
next
  fix r show "appender_op (packAMTRELAY r)" unfolding packAMTRELAY_def by (intro append_intros)
next
  fix n show "forward_reader (unpackAMTRELAY n)"
    unfolding unpackAMTRELAY_def Let_def by (intro safe_intros) auto
qed

definition invIPSECKEY :: "rdIPSECKEY \<Rightarrow> bool" where
  "invIPSECKEY r \<longleftrightarrow> relay_ok (IPSECKEY_gt r) (IPSECKEY_gwAddr r) (IPSECKEY_gwName r)"

interpretation ipseckey: plain_codec packIPSECKEY unpackIPSECKEY invIPSECKEY
proof unfold_locales
  fix r enc pre s assume r: "invIPSECKEY r" and enc: "enc = packBytes packIPSECKEY r"
  from r have "relay_ok (IPSECKEY_gt r) (IPSECKEY_gwAddr r) (IPSECKEY_gwName r)"
    by (simp add: invIPSECKEY_def)
  then show "unpackIPSECKEY (int (length enc)) (cur_at pre (enc @ s)) = (Inr r, cur_at (pre @ enc) s)"
    using enc
    by (elim relay_okE; cases r)
      (simp_all add: packIPSECKEY_def unpackIPSECKEY_def packBytes_def wire_simps Let_def relay_simps)
next
  fix r assume "invIPSECKEY r"
  then have "relay_ok (IPSECKEY_gt r) (IPSECKEY_gwAddr r) (IPSECKEY_gwName r)"
    by (simp add: invIPSECKEY_def)
  then show "packIPSECKEY r = putRaw (packBytes packIPSECKEY r)"
    by (elim relay_okE) (simp_all add: packIPSECKEY_def packBytes_def wire_simps)
next
  fix n show "yields (unpackIPSECKEY n) invIPSECKEY"
    unfolding unpackIPSECKEY_def Let_def
    by (intro yields_rules yields_bind [where Q = "\<lambda>g. relay_ok t (fst g) (snd g)" for t])
      (auto simp: relay_ok_def addr4_ok_def addr6_ok_def relay_simps invIPSECKEY_def)
next
  fix r show "appender_op (packIPSECKEY r)" unfolding packIPSECKEY_def by (intro append_intros)
next
  fix n show "forward_reader (unpackIPSECKEY n)"
    unfolding unpackIPSECKEY_def Let_def by (intro safe_intros) auto
qed

subsection \<open>The contract of HIP\<close>

definition invHIP :: "rdHIP \<Rightarrow> bool" where
  "invHIP r \<longleftrightarrow> length (HIP_hit r) \<le> 255 \<and> length (HIP_pubkey r) < 65536 \<and> list_all nm_ok (HIP_rvs r)"

interpretation hip_names: item_codec hip_body wire "\<lambda>rvs n. rvs @ [n]" "\<lambda>_. nm_ok"
proof unfold_locales
  fix e acc acc' u u'
  assume u: "uoff u \<le> length (umsg u)" "hip_body e acc u = (Inr acc', u')"
  obtain k where "hip_body e acc u = ubind (getUncompressedName k) (\<lambda>n. ureturn (acc @ [n])) u"
    by (simp add: hip_body_def ubind_def uOff_def)
  moreover have "strict_reader (ubind (getUncompressedName k) (\<lambda>n. ureturn (acc @ [n])))"
    by (intro strict_intros safe_intros)
  ultimately show "uoff u < uoff u'" using u unfolding strict_reader_def by metis
qed (auto simp: hip_body_def wire_simps intro!: safe_intros)

lemma fold_putNameUncompressed [wire_simps]:
  "list_all nm_ok ns \<Longrightarrow> fold putNameUncompressed ns = putRaw (concat (map wire ns))"
proof (rule ext)
  fix p show "list_all nm_ok ns \<Longrightarrow> fold putNameUncompressed ns p = putRaw (concat (map wire ns)) p"
    by (induction ns arbitrary: p) (simp_all add: wire_simps, simp add: putRaw_def)
qed

lemma forOff_hip [wire_simps]:
  "list_all nm_ok ns \<Longrightarrow> e = int (length pre) + int (length (concat (map wire ns))) \<Longrightarrow>
   ubind (forOff e (hip_body e) []) f (cur_at pre (concat (map wire ns) @ s)) =
     f ns (cur_at (pre @ concat (map wire ns)) s)"
  using hip_names.forOff_items [of "[]" ns e pre s] by (simp add: ubind_def items_ok_const)

lemma yields_hip: "yields (forOff e (hip_body e) []) (list_all nm_ok)"
  by (rule yields_forOff) (auto simp: hip_body_def intro!: yields_rules)

interpretation hip: plain_codec packHIP unpackHIP invHIP
proof unfold_locales
  fix n show "yields (unpackHIP n) invHIP"
    unfolding unpackHIP_def Let_def
    by (intro yields_rules yields_bind [OF yields_hip]) (simp add: invHIP_def del: of_nat_unat)
next
  fix n show "forward_reader (unpackHIP n)"
    unfolding unpackHIP_def Let_def by (intro safe_intros hip_names.forward_forOff) auto
qed (auto simp: packHIP_def unpackHIP_def invHIP_def packBytes_def wire_simps Let_def intro!: append_intros)

subsection \<open>The contract of APL\<close>

lemma stripZeros_prefix: "\<exists>k. raw = stripZeros raw @ replicate k 0"
proof (induction raw rule: stripZeros.induct)
  case (1 raw)
  show ?case
  proof (cases "raw \<noteq> [] \<and> last raw = 0")
    case True
    then obtain k where "butlast raw = stripZeros (butlast raw) @ replicate k 0" using 1 by blast
    moreover have "raw = butlast raw @ [0]" using True by (metis append_butlast_last_id)
    moreover have "stripZeros raw = stripZeros (butlast raw)" using True by (subst stripZeros.simps) simp
    ultimately have "raw = stripZeros raw @ replicate (Suc k) 0"
      by (metis append_assoc replicate_append_same replicate_Suc)
    then show ?thesis ..
  next
    case False
    then have "stripZeros raw = raw" by (subst stripZeros.simps) auto
    then show ?thesis by (metis append_Nil2 replicate_0)
  qed
qed

lemma padTo_stripZeros:
  assumes "length raw = n"
  shows "padTo n (stripZeros raw) = raw" "length (stripZeros raw) \<le> n"
proof -
  obtain k where k: "raw = stripZeros raw @ replicate k 0" using stripZeros_prefix by blast
  then have l: "length (stripZeros raw) + k = n" using assms by (metis length_append length_replicate)
  then show "length (stripZeros raw) \<le> n" by simp
  have "padTo n (stripZeros raw) = stripZeros raw @ replicate k 0" using l by (auto simp: padTo_def)
  with k show "padTo n (stripZeros raw) = raw" by simp
qed

lemma length_padTo [simp]: "length (padTo n b) = n"
  by (simp add: padTo_def)

definition apl_ok :: "aplItem \<Rightarrow> bool" where
  "apl_ok it \<longleftrightarrow>
     (\<exists>b k. APL_prefix it = Prefix (Addr4 b) k \<and> length b = 4 \<and> APL_family it = 1 \<and> 0 \<le> k \<and> k \<le> 32) \<or>
     (\<exists>b k. APL_prefix it = Prefix (Addr6 b []) k \<and> length b = 16 \<and> APL_family it = 2 \<and> 0 \<le> k \<and> k \<le> 128)"

lemma apl_ok_code [code]:
  "apl_ok it =
     (case APL_prefix it of Prefix a k \<Rightarrow> 0 \<le> k \<and>
        (case a of Addr4 b \<Rightarrow> length b = 4 \<and> APL_family it = 1 \<and> k \<le> 32
         | Addr6 b z \<Rightarrow> z = [] \<and> length b = 16 \<and> APL_family it = 2 \<and> k \<le> 128
         | ZeroAddr \<Rightarrow> False))"
  by (cases "APL_prefix it") (auto simp: apl_ok_def split: ipaddr.splits)

definition enc_apl :: "aplItem \<Rightarrow> bytes" where
  "enc_apl it =
     (let afd = encodeAPLAFD (APL_prefix it) in
      be16 (APL_family it) @
      [word_of_int (prefix_bits (APL_prefix it)),
       (word_of_nat (length afd) AND 0x7f) OR (if APL_neg it then 0x80 else 0)] @ afd)"

lemma nlen_split:
  assumes "l \<le> 16"
  shows "unat (((word_of_nat l AND 0x7f) OR (if b then 0x80 else 0)) AND 0x7f :: byte) = l"
    "((word_of_nat l AND 0x7f) OR (if b then 0x80 else 0)) AND 0x80 \<noteq> (0 :: byte) \<longleftrightarrow> b"
proof -
  have "l \<in> set [0..<17]" using assms by auto
  moreover have "\<forall>l \<in> set [0..<17]. \<forall>b.
      unat (((word_of_nat l AND 0x7f) OR (if b then 0x80 else 0)) AND 0x7f :: byte) = l \<and>
      (((word_of_nat l AND 0x7f) OR (if b then 0x80 else 0)) AND 0x80 \<noteq> (0 :: byte) \<longleftrightarrow> b)"
    by (simp add: upt_rec all_bool_eq)
  ultimately show "unat (((word_of_nat l AND 0x7f) OR (if b then 0x80 else 0)) AND 0x7f :: byte) = l"
    "((word_of_nat l AND 0x7f) OR (if b then 0x80 else 0)) AND 0x80 \<noteq> (0 :: byte) \<longleftrightarrow> b" by blast+
qed


lemma small_prefix:
  assumes "0 \<le> k" "k \<le> 128"
  shows "uint (word_of_int k :: byte) = k" "(word_of_int k :: byte) > 128 \<longleftrightarrow> False"
    "(word_of_int k :: byte) > 32 \<longleftrightarrow> k > 32"
proof -
  show u: "uint (word_of_int k :: byte) = k" using assms by (simp add: uint_word_of_int)
  show "(word_of_int k :: byte) > 128 \<longleftrightarrow> False" "(word_of_int k :: byte) > 32 \<longleftrightarrow> k > 32"
    using assms by (simp_all add: word_less_def u)
qed

lemma decode_encodeAPLAFD:
  assumes "apl_ok it"
  shows "decodeAPLAFD (APL_family it) (word_of_int (prefix_bits (APL_prefix it)))
      (encodeAPLAFD (APL_prefix it)) = Inr (APL_prefix it) \<and>
    length (encodeAPLAFD (APL_prefix it)) \<le> 16"
proof -
  consider b k where "APL_prefix it = Prefix (Addr4 b) k" "length b = 4" "APL_family it = 1" "0 \<le> k" "k \<le> 32"
    | b k where "APL_prefix it = Prefix (Addr6 b []) k" "length b = 16" "APL_family it = 2" "0 \<le> k" "k \<le> 128"
    using assms unfolding apl_ok_def by blast
  then show ?thesis
  proof cases
    case 1
    with padTo_stripZeros [OF 1(2)] small_prefix [of k] show ?thesis
      by (simp add: encodeAPLAFD_def decodeAPLAFD_def PrefixFrom_def AddrFrom4_def)
  next
    case 2
    with padTo_stripZeros [OF 2(2)] small_prefix [of k] show ?thesis
      by (simp add: encodeAPLAFD_def decodeAPLAFD_def PrefixFrom_def AddrFrom16_def)
  qed
qed

lemma decodeAPLAFD_ok: "decodeAPLAFD fam p afd = Inr q \<Longrightarrow> apl_ok (APLItem fam q neg)"
  using uint_ge_0 [of p]
  by (auto simp: decodeAPLAFD_def apl_ok_def PrefixFrom_def AddrFrom4_def AddrFrom16_def word_less_def
      split: if_splits)

lemma ulift_simps [wire_simps]: "ulift (Inr x) = ureturn x" "ulift (Inl e) = ufail e"
  by (simp_all add: ulift_def)

lemma yields_lift: "yields (ulift r) (\<lambda>x. r = Inr x)"
  by (cases r) (simp_all add: ulift_def yields_def ufail_def ureturn_def)

lemma forward_lift [safe_intros]: "r \<noteq> Inl Diverges \<Longrightarrow> forward_reader (ulift r)"
  by (cases r) (auto simp: ulift_def intro!: safe_intros)

lemma decodeAPLAFD_no_div [simp]: "decodeAPLAFD fam p afd \<noteq> Inl Diverges"
  by (simp add: decodeAPLAFD_def)

lemma forward_apl: "forward_reader (apl_body e acc)"
  unfolding apl_body_def Let_def by (intro safe_intros) auto

interpretation apl_items: item_codec apl_body enc_apl "\<lambda>items it. items @ [it]" "\<lambda>_. apl_ok"
proof unfold_locales
  fix e acc it s and pre :: bytes
  assume it: "apl_ok it" and e: "int (length pre) + int (length (enc_apl it)) \<le> e"
  let ?afd = "encodeAPLAFD (APL_prefix it)"
  have d: "decodeAPLAFD (APL_family it) (word_of_int (prefix_bits (APL_prefix it))) ?afd =
      Inr (APL_prefix it)" "length ?afd \<le> 16"
    using decode_encodeAPLAFD [OF it] by auto
  show "apl_body e acc (cur_at pre (enc_apl it @ s)) = (Inr (acc @ [it]), cur_at (pre @ enc_apl it) s)"
    using e nlen_split [OF d(2), of "APL_neg it"] d(1)
    by (simp add: apl_body_def enc_apl_def Let_def wire_simps del: of_nat_unat)
next
  fix e acc acc' u u'
  assume u: "uoff u \<le> length (umsg u)" "apl_body e acc u = (Inr acc', u')"
  have "strict_reader (apl_body e acc)"
    unfolding apl_body_def Let_def by (intro strict_intros safe_intros) auto
  with u show "uoff u < uoff u'" unfolding strict_reader_def by blast
qed (auto simp: forward_apl enc_apl_def Let_def)

lemma putAPLItem_raw: "putAPLItem it = putRaw (enc_apl it)"
  by (simp add: putAPLItem_def enc_apl_def Let_def wire_simps)

lemma fold_putAPLItem [wire_simps]: "fold putAPLItem its = putRaw (concat (map enc_apl its))"
proof (rule ext)
  fix p show "fold putAPLItem its p = putRaw (concat (map enc_apl its)) p"
    by (induction its arbitrary: p) (simp_all add: putAPLItem_raw wire_simps, simp add: putRaw_def)
qed

lemma forOff_apl [wire_simps]:
  "list_all apl_ok its \<Longrightarrow> e = int (length pre) + int (length (concat (map enc_apl its))) \<Longrightarrow>
   ubind (forOff e (apl_body e) []) f (cur_at pre (concat (map enc_apl its) @ s)) =
     f its (cur_at (pre @ concat (map enc_apl its)) s)"
  using apl_items.forOff_items [of "[]" its e pre s] by (simp add: ubind_def items_ok_const)

lemma yields_apl: "yields (forOff e (apl_body e) []) (list_all apl_ok)"
  by (rule yields_forOff)
    (auto simp: apl_body_def Let_def intro!: yields_rules yields_bind [OF yields_lift] decodeAPLAFD_ok)

interpretation apl: plain_codec packAPL unpackAPL "\<lambda>r. list_all apl_ok (APL_items r)"
proof unfold_locales
  fix r show "appender_op (packAPL r)"
    unfolding packAPL_def fold_putAPLItem by (intro append_intros)
qed (auto simp: packAPL_def unpackAPL_def packBytes_def wire_simps Let_def
    intro!: safe_intros yields_rules yields_bind [OF yields_apl] apl_items.forward_forOff)

end
