(* ===== verification/Rdata_Svcb.thy ===== *)
theory Rdata_Svcb
  imports Rdata_Window "HOL-Library.Multiset"
begin

text \<open>
  SVCB and HTTPS service bindings (\<^verbatim>\<open>svcb.go\<close>): the shared body, its construction and decoding
  with the ordering and mandatory-key rules of RFC 9460, and the typed views of the parameters.
\<close>

subsection \<open>Parameters\<close>

datatype svcbParam = SVCBParam (svc_key: u16) (svc_data: bytes)

definition NewSVCBParam :: "u16 \<Rightarrow> bytes \<Rightarrow> svcbParam" where
  "NewSVCBParam key data = SVCBParam key data"

datatype svcbBody = SvcbBody (svcb_priority: u16) (svcb_target: wname) (svcb_params: "svcbParam list")

definition putSvcParam :: "svcbParam \<Rightarrow> packer \<Rightarrow> packer" where
  "putSvcParam sp =
     pseq [putUint16 (svc_key sp), putUint16 (word_of_nat (length (svc_data sp))), putRaw (svc_data sp)]"

definition packBody :: "svcbBody \<Rightarrow> packer \<Rightarrow> packer" where
  "packBody s =
     pseq [putUint16 (svcb_priority s), putNameUncompressed (svcb_target s),
       fold putSvcParam (svcb_params s)]"

text \<open>\<^verbatim>\<open>decodeALPN\<close>: the loop over the length-prefixed entries\<close>

function decodeALPN :: "bytes \<Rightarrow> bytes list \<Rightarrow> wire_error + bytes list" where
  "decodeALPN buf out =
     (case buf of
        [] \<Rightarrow> Inr out
      | l # r \<Rightarrow>
          if unat l = 0 then Inl (ErrInvalidRData ''SVCB ALPN entry has zero length'')
          else if unat l > length r then Inl (ErrInvalidRData ''SVCB ALPN entry length exceeds remaining'')
          else decodeALPN (drop (unat l) r) (out @ [take (unat l) r]))"
  by pat_completeness auto
termination by (relation "measure (\<lambda>(buf, out). length buf)") auto

declare decodeALPN.simps [simp del]

definition validateSvcParam :: "svcbParam \<Rightarrow> wire_error option" where
  "validateSvcParam p =
     (if svc_key p = 1 then (case decodeALPN (svc_data p) [] of Inl e \<Rightarrow> Some e | Inr _ \<Rightarrow> None) else None)"

text \<open>The loop over the key list of the mandatory parameter; \<open>seen\<close> are the keys of the record.\<close>

fun mandatory_loop :: "u16 list \<Rightarrow> int \<Rightarrow> bytes \<Rightarrow> wire_error option" where
  "mandatory_loop seen lastKey (a # b # rest) =
     (let k = rd16 [a, b] in
      if k = 0 then Some (ErrInvalidRData ''SVCB mandatory list includes key 0'')
      else if uint k \<le> lastKey then Some (ErrInvalidRData ''SVCB mandatory keys out of order or duplicate'')
      else if k \<notin> set seen then Some (ErrInvalidRData ''SVCB mandatory key not present in record'')
      else mandatory_loop seen (uint k) rest)"
| "mandatory_loop seen lastKey _ = None"

text \<open>\<^verbatim>\<open>mandatory\<close> is left pointing at the last parameter with key 0.\<close>

definition validateMandatoryParam :: "svcbParam list \<Rightarrow> wire_error option" where
  "validateMandatoryParam params =
     (let seen = map svc_key params in
      case filter (\<lambda>p. svc_key p = 0) params of
        [] \<Rightarrow> None
      | ms \<Rightarrow>
          let data = svc_data (last ms) in
          if length data = 0 then Some (ErrInvalidRData ''SVCB mandatory list is empty'')
          else if length data mod 2 \<noteq> 0 then Some (ErrInvalidRData ''SVCB mandatory length not multiple of 2'')
          else mandatory_loop seen (- 1) data)"

subsection \<open>Construction\<close>

fun svcDuplicate :: "svcbParam list \<Rightarrow> bool" where
  "svcDuplicate (p # q # ps) = (svc_key q = svc_key p \<or> svcDuplicate (q # ps))"
| "svcDuplicate _ = False"

fun validateSvcParams :: "svcbParam list \<Rightarrow> wire_error option" where
  "validateSvcParams [] = None"
| "validateSvcParams (p # ps) =
     (case validateSvcParam p of Some e \<Rightarrow> Some e | None \<Rightarrow> validateSvcParams ps)"

definition newSvcbBody :: "u16 \<Rightarrow> wname \<Rightarrow> svcbParam list \<Rightarrow> wire_error + svcbBody" where
  "newSvcbBody priority target params =
     (if \<not> IsValid target then Inl (ErrInvalidRData ''SVCB target name is invalid'')
      else
        let cp = sort_key svc_key params in
        if svcDuplicate cp then Inl (ErrInvalidRData ''duplicate SVCB param key'')
        else
          (case validateSvcParams cp of
             Some e \<Rightarrow> Inl e
           | None \<Rightarrow>
          (case validateMandatoryParam cp of
             Some e \<Rightarrow> Inl e
           | None \<Rightarrow> Inr (SvcbBody priority target cp))))"

fun alpn_loop :: "bytes list \<Rightarrow> bytes \<Rightarrow> wire_error + bytes" where
  "alpn_loop [] buf = Inr buf"
| "alpn_loop (a # as) buf =
     (if length a = 0 \<or> length a > 255 then Inl (ErrInvalidRData ''ALPN length not in [1,255]'')
      else alpn_loop as (buf @ [word_of_nat (length a)] @ a))"

definition NewSvcParamALPN :: "bytes list \<Rightarrow> wire_error + svcbParam" where
  "NewSvcParamALPN alpns =
     (case alpn_loop alpns [] of Inl e \<Rightarrow> Inl e | Inr buf \<Rightarrow> Inr (SVCBParam 1 buf))"

definition NewSvcParamPort :: "u16 \<Rightarrow> svcbParam" where
  "NewSvcParamPort port = SVCBParam 3 [ucast (drop_bit 8 port), ucast port]"

fun v4hint_loop :: "ipaddr list \<Rightarrow> bytes \<Rightarrow> wire_error + bytes" where
  "v4hint_loop [] buf = Inr buf"
| "v4hint_loop (a # as) buf =
     (if \<not> Is4 a then Inl (ErrInvalidRData ''ipv4hint is not IPv4'')
      else v4hint_loop as (buf @ the (As4 a)))"

definition NewSvcParamIPv4Hint :: "ipaddr list \<Rightarrow> wire_error + svcbParam" where
  "NewSvcParamIPv4Hint addrs =
     (case v4hint_loop addrs [] of Inl e \<Rightarrow> Inl e | Inr buf \<Rightarrow> Inr (SVCBParam 4 buf))"

fun v6hint_loop :: "ipaddr list \<Rightarrow> bytes \<Rightarrow> wire_error + bytes" where
  "v6hint_loop [] buf = Inr buf"
| "v6hint_loop (a # as) buf =
     (if \<not> Is6 a then Inl (ErrInvalidRData ''ipv6hint is not IPv6'')
      else v6hint_loop as (buf @ As16 a))"

definition NewSvcParamIPv6Hint :: "ipaddr list \<Rightarrow> wire_error + svcbParam" where
  "NewSvcParamIPv6Hint addrs =
     (case v6hint_loop addrs [] of Inl e \<Rightarrow> Inl e | Inr buf \<Rightarrow> Inr (SVCBParam 6 buf))"

definition NewSvcParamDOHPath :: "bytes \<Rightarrow> svcbParam" where
  "NewSvcParamDOHPath template = SVCBParam 7 template"

subsection \<open>Typed views\<close>

fun svcALPN :: "svcbParam list \<Rightarrow> bytes list" where
  "svcALPN [] = []"
| "svcALPN (p # ps) =
     (if svc_key p \<noteq> 1 then svcALPN ps
      else (case decodeALPN (svc_data p) [] of Inl _ \<Rightarrow> [] | Inr out \<Rightarrow> out))"

fun svcPort :: "svcbParam list \<Rightarrow> u16 option" where
  "svcPort [] = None"
| "svcPort (p # ps) =
     (if svc_key p = 3 \<and> length (svc_data p) = 2 then Some (rd16 (svc_data p)) else svcPort ps)"

fun svcDOHPath :: "svcbParam list \<Rightarrow> bytes option" where
  "svcDOHPath [] = None"
| "svcDOHPath (p # ps) = (if svc_key p = 7 then Some (svc_data p) else svcDOHPath ps)"

text \<open>The chunk size \<open>sz\<close> is 4 or 16 at every call.\<close>

function addr_chunks :: "nat \<Rightarrow> bytes \<Rightarrow> ipaddr list" where
  "addr_chunks sz v =
     (if v = [] \<or> sz = 0 then []
      else (if sz = 4 then [AddrFrom4 (take 4 v)] else if sz = 16 then [AddrFrom16 (take 16 v)] else []) @
        addr_chunks sz (drop sz v))"
  by pat_completeness auto
termination by (relation "measure (\<lambda>(sz, v). length v)") auto

declare addr_chunks.simps [simp del]

fun decodeAddrHint :: "svcbParam list \<Rightarrow> u16 \<Rightarrow> nat \<Rightarrow> ipaddr list" where
  "decodeAddrHint [] key sz = []"
| "decodeAddrHint (p # ps) key sz =
     (if svc_key p \<noteq> key then decodeAddrHint ps key sz
      else if length (svc_data p) mod sz \<noteq> 0 then [] else addr_chunks sz (svc_data p))"

definition svcIPv4Hints :: "svcbBody \<Rightarrow> ipaddr list" where
  "svcIPv4Hints s = decodeAddrHint (svcb_params s) 4 4"

definition svcIPv6Hints :: "svcbBody \<Rightarrow> ipaddr list" where
  "svcIPv6Hints s = decodeAddrHint (svcb_params s) 6 16"

subsection \<open>Decoding\<close>

definition svcb_loop_body :: "int \<Rightarrow> svcbParam list \<times> int \<Rightarrow> (svcbParam list \<times> int) unp" where
  "svcb_loop_body e acc =
     (case acc of (params, lastKey) \<Rightarrow>
        ubind getUint16 (\<lambda>key.
        ubind (uguard (uint key \<le> lastKey) (ErrInvalidRData ''SVCB params out of order or duplicate'')) (\<lambda>_.
        ubind getUint16 (\<lambda>l.
        ubind uOff (\<lambda>o1.
        ubind (uguard (int o1 + int (unat l) > e) (ErrInvalidRData ''SVCB param length out of range'')) (\<lambda>_.
        ubind (getBytes (int (unat l))) (\<lambda>v.
        ubind (ucheck (validateSvcParam (SVCBParam key v))) (\<lambda>_.
          ureturn (params @ [SVCBParam key v], uint key)))))))))"

definition unpackSvcbBody :: "int \<Rightarrow> svcbBody unp" where
  "unpackSvcbBody rdlen =
     ubind uOff (\<lambda>o1. let e = int o1 + rdlen in
     ubind getUint16 (\<lambda>prio.
     ubind uOff (\<lambda>o2.
     ubind (getUncompressedName (e - int o2)) (\<lambda>target.
     ubind (forOff e (svcb_loop_body e) ([], - 1)) (\<lambda>acc.
     ubind (ucheck (validateMandatoryParam (fst acc))) (\<lambda>_.
       ureturn (SvcbBody prio target (fst acc))))))))"

subsection \<open>The contract\<close>

definition invSvcb :: "svcbBody \<Rightarrow> bool" where
  "invSvcb s \<longleftrightarrow> nm_ok (svcb_target s) \<and> sorted_wrt (<) (map svc_key (svcb_params s)) \<and>
     list_all (\<lambda>p. length (svc_data p) < 65536 \<and> validateSvcParam p = None) (svcb_params s) \<and>
     validateMandatoryParam (svcb_params s) = None"

definition enc_svc :: "svcbParam \<Rightarrow> bytes" where
  "enc_svc p = be16 (svc_key p) @ be16 (word_of_nat (length (svc_data p))) @ svc_data p"

definition svc_ok :: "svcbParam list \<times> int \<Rightarrow> svcbParam \<Rightarrow> bool" where
  "svc_ok acc p \<longleftrightarrow> snd acc < uint (svc_key p) \<and> length (svc_data p) < 65536 \<and> validateSvcParam p = None"

definition svc_add :: "svcbParam list \<times> int \<Rightarrow> svcbParam \<Rightarrow> svcbParam list \<times> int" where
  "svc_add acc p = (fst acc @ [p], uint (svc_key p))"

lemma decodeALPN_no_div: "decodeALPN buf out \<noteq> Inl Diverges"
proof (induction buf out rule: decodeALPN.induct)
  case (1 buf out)
  then show ?case by (subst decodeALPN.simps) (auto split: list.splits)
qed

lemma mandatory_no_div: "mandatory_loop seen k data \<noteq> Some Diverges"
  by (induction seen k data rule: mandatory_loop.induct) (auto simp: Let_def)

lemma svc_no_div [simp]:
  "validateSvcParam p \<noteq> Some Diverges" "validateMandatoryParam ps \<noteq> Some Diverges"
  using decodeALPN_no_div [of "svc_data p" "[]"]
  by (auto simp: validateSvcParam_def validateMandatoryParam_def Let_def mandatory_no_div
      split: sum.splits list.splits)

lemma forward_svcb_body: "forward_reader (svcb_loop_body e acc)"
  unfolding svcb_loop_body_def by (cases acc) (auto intro!: safe_intros)

interpretation svc_items: item_codec svcb_loop_body enc_svc svc_add svc_ok
proof unfold_locales
  fix e acc p s and pre :: bytes
  assume "svc_ok acc p" "int (length pre) + int (length (enc_svc p)) \<le> e"
  then show "svcb_loop_body e acc (cur_at pre (enc_svc p @ s)) = (Inr (svc_add acc p), cur_at (pre @ enc_svc p) s)"
    by (cases acc; cases p)
      (simp add: svcb_loop_body_def enc_svc_def svc_ok_def svc_add_def wire_simps)
next
  fix e acc acc' u u'
  assume u: "uoff u \<le> length (umsg u)" "svcb_loop_body e acc u = (Inr acc', u')"
  have "strict_reader (svcb_loop_body e acc)"
    unfolding svcb_loop_body_def by (cases acc) (auto intro!: strict_intros safe_intros)
  with u show "uoff u < uoff u'" unfolding strict_reader_def by blast
next
  fix acc p assume "svc_ok acc p"
  have "length (enc_svc p) \<noteq> 0" by (simp add: enc_svc_def)
  then show "enc_svc p \<noteq> []" by fastforce
qed (rule forward_svcb_body)

lemma svc_items_ok:
  "sorted_wrt (<) (map svc_key ps) \<Longrightarrow>
   list_all (\<lambda>p. length (svc_data p) < 65536 \<and> validateSvcParam p = None) ps \<Longrightarrow>
   \<forall>p \<in> set ps. snd acc < uint (svc_key p) \<Longrightarrow> items_ok svc_ok svc_add acc ps"
  by (induction ps arbitrary: acc) (auto simp: svc_ok_def svc_add_def word_less_def)

lemma foldl_svc_add: "fst (foldl svc_add acc ps) = fst acc @ ps"
  by (induction ps arbitrary: acc) (auto simp: svc_add_def)

lemma fold_putSvcParam [wire_simps]: "fold putSvcParam ps = putRaw (concat (map enc_svc ps))"
proof (rule ext)
  fix p
  have "putSvcParam sp = putRaw (enc_svc sp)" for sp by (simp add: putSvcParam_def enc_svc_def wire_simps)
  then show "fold putSvcParam ps p = putRaw (concat (map enc_svc ps)) p"
    by (induction ps arbitrary: p) (simp_all add: wire_simps, simp add: putRaw_def)
qed

lemma forOff_svc [wire_simps]:
  assumes "invSvcb b" "ps = svcb_params b" "e = int (length pre) + int (length (concat (map enc_svc ps)))"
  shows "ubind (forOff e (svcb_loop_body e) ([], - 1)) f (cur_at pre (concat (map enc_svc ps) @ s)) =
    f (foldl svc_add ([], - 1) ps) (cur_at (pre @ concat (map enc_svc ps)) s)"
proof -
  have "items_ok svc_ok svc_add ([], - 1) ps"
    using assms(1,2) by (intro svc_items_ok) (auto simp: invSvcb_def intro: less_le_trans [OF _ uint_ge_0])
  from svc_items.forOff_items [OF this assms(3)] show ?thesis by (simp add: ubind_def)
qed

text \<open>The parameters accumulated by the decoder.\<close>

definition svc_acc_ok :: "svcbParam list \<times> int \<Rightarrow> bool" where
  "svc_acc_ok acc \<longleftrightarrow> sorted_wrt (<) (map svc_key (fst acc)) \<and>
     list_all (\<lambda>p. length (svc_data p) < 65536 \<and> validateSvcParam p = None) (fst acc) \<and>
     (\<forall>p \<in> set (fst acc). uint (svc_key p) \<le> snd acc)"

lemma svc_add_ok: "svc_acc_ok acc \<Longrightarrow> svc_ok acc p \<Longrightarrow> svc_acc_ok (svc_add acc p)"
  by (fastforce simp: svc_acc_ok_def svc_ok_def svc_add_def sorted_wrt_append word_less_def)

lemma yields_svc: "yields (forOff e (svcb_loop_body e) ([], - 1)) svc_acc_ok"
proof (rule yields_forOff)
  fix acc assume acc: "svc_acc_ok acc"
  obtain ps last where a: "acc = (ps, last)" by (cases acc)
  have "svc_acc_ok (ps @ [SVCBParam key v], uint key)"
    if "\<not> uint key \<le> last" "int (length v) = int (unat (l :: u16))" "validateSvcParam (SVCBParam key v) = None"
    for key v l
  proof -
    have "length v < 65536" using that(2) unat_u16_less [of l] by linarith
    then have "svc_ok acc (SVCBParam key v)" using that a by (simp add: svc_ok_def)
    from svc_add_ok [OF acc this] show ?thesis by (simp add: svc_add_def a)
  qed
  then show "yields (svcb_loop_body e acc) svc_acc_ok"
    unfolding a svcb_loop_body_def prod.case by (intro yields_rules yields_bind [OF yields_check]) blast
qed (simp add: svc_acc_ok_def)

interpretation svcb: plain_codec packBody unpackSvcbBody invSvcb
proof unfold_locales
  fix r enc pre s assume r: "invSvcb r" and enc: "enc = packBytes packBody r"
  have "nm_ok (svcb_target r)" "validateMandatoryParam (svcb_params r) = None"
    using r by (simp_all add: invSvcb_def)
  then show "unpackSvcbBody (int (length enc)) (cur_at pre (enc @ s)) = (Inr r, cur_at (pre @ enc) s)"
    unfolding enc
    by (simp add: packBody_def unpackSvcbBody_def packBytes_def wire_simps Let_def forOff_svc [OF r]
        foldl_svc_add)
next
  fix r assume "invSvcb r"
  then show "packBody r = putRaw (packBytes packBody r)"
    by (simp add: invSvcb_def packBody_def packBytes_def wire_simps)
next
  fix n show "yields (unpackSvcbBody n) invSvcb"
    unfolding unpackSvcbBody_def Let_def
    by (intro yields_rules yields_bind [OF yields_svc] yields_bind [OF yields_check])
      (simp add: invSvcb_def svc_acc_ok_def)
next
  fix n show "forward_reader (unpackSvcbBody n)"
    unfolding unpackSvcbBody_def Let_def by (intro safe_intros svc_items.forward_forOff) auto
qed (auto simp: packBody_def fold_putSvcParam intro!: append_intros)

subsection \<open>What construction guarantees\<close>

lemma svcDuplicate_sorted:
  "sorted (map svc_key ps) \<Longrightarrow> \<not> svcDuplicate ps \<Longrightarrow> sorted_wrt (<) (map svc_key ps)"
proof (induction ps rule: svcDuplicate.induct)
  case (1 p q ps)
  then have "sorted_wrt (<) (map svc_key (q # ps))" "svc_key p < svc_key q"
    by (auto simp: le_less)
  then show ?case by (auto dest: less_trans)
qed auto

lemma validateSvcParams_all: "validateSvcParams ps = None \<longleftrightarrow> list_all (\<lambda>p. validateSvcParam p = None) ps"
  by (induction ps) (auto split: option.splits)

lemma newSvcbBody_inv:
  assumes "newSvcbBody pr t params = Inr b" "nm_ok t" "\<forall>p \<in> set params. length (svc_data p) < 65536"
  shows "invSvcb b" "mset (svcb_params b) = mset params"
proof -
  have b: "b = SvcbBody pr t (sort_key svc_key params)" "\<not> svcDuplicate (sort_key svc_key params)"
    "validateSvcParams (sort_key svc_key params) = None"
    "validateMandatoryParam (sort_key svc_key params) = None"
    using assms(1) by (auto simp: newSvcbBody_def Let_def split: if_splits option.splits)
  then show "invSvcb b" "mset (svcb_params b) = mset params"
    using assms(2,3) svcDuplicate_sorted [OF sorted_sort_key b(2)]
    by (auto simp: invSvcb_def validateSvcParams_all list_all_iff)
qed

lemma decodeALPN_enc:
  "list_all (\<lambda>a. 0 < length a \<and> length a \<le> 255) as \<Longrightarrow>
   decodeALPN (concat (map (\<lambda>a. word_of_nat (length a) # a) as)) out = Inr (out @ as)"
proof (induction as arbitrary: out)
  case (Cons a as)
  then show ?case by (subst decodeALPN.simps) simp
qed (simp add: decodeALPN.simps)

lemma alpn_loop_spec:
  "alpn_loop as buf = Inr r \<longleftrightarrow>
     list_all (\<lambda>a. 0 < length a \<and> length a \<le> 255) as \<and>
     r = buf @ concat (map (\<lambda>a. word_of_nat (length a) # a) as)"
  by (induction as arbitrary: buf) auto

lemma NewSvcParamALPN_decodes:
  "NewSvcParamALPN as = Inr p \<Longrightarrow> decodeALPN (svc_data p) [] = Inr as \<and> validateSvcParam p = None"
  using decodeALPN_enc [of as "[]"]
  by (auto simp: NewSvcParamALPN_def validateSvcParam_def alpn_loop_spec split: sum.splits)

text \<open>What an accepted record says about its mandatory keys.\<close>

fun key_list :: "bytes \<Rightarrow> u16 list" where
  "key_list (a # b # r) = rd16 [a, b] # key_list r"
| "key_list _ = []"

lemma mandatory_loop_spec:
  "mandatory_loop seen k data = None \<longleftrightarrow>
     sorted_wrt (<) (key_list data) \<and> (\<forall>x \<in> set (key_list data). x \<noteq> 0 \<and> x \<in> set seen \<and> k < uint x)"
  by (induction seen k data rule: mandatory_loop.induct) (auto simp: Let_def word_less_def)

lemma filter_unique_key:
  "distinct (map f ps) \<Longrightarrow> p \<in> set ps \<Longrightarrow> f p = k \<Longrightarrow> filter (\<lambda>q. f q = k) ps = [p]"
  by (induction ps) (auto simp: filter_empty_conv image_iff)

lemma invSvcb_mandatory:
  assumes "invSvcb b" "p \<in> set (svcb_params b)" "svc_key p = 0"
  shows "svc_data p \<noteq> [] \<and> sorted_wrt (<) (key_list (svc_data p)) \<and>
    (\<forall>k \<in> set (key_list (svc_data p)). k \<noteq> 0 \<and> k \<in> svc_key ` set (svcb_params b))"
proof -
  have "distinct (map svc_key (svcb_params b))" using assms(1) by (simp add: invSvcb_def strict_sorted_iff)
  then have "filter (\<lambda>q. svc_key q = 0) (svcb_params b) = [p]"
    using assms(2,3) by (rule filter_unique_key)
  with assms(1) show ?thesis
    by (auto simp: invSvcb_def validateMandatoryParam_def Let_def mandatory_loop_spec split: if_splits)
qed

end
