(* ===== verification/Rdata.thy ===== *)
theory Rdata
  imports Rdata_Names Rdata_Strings Rdata_Dnssec Rdata_Svcb
begin

text \<open>
  The closed sum of the rdata payloads (\<^verbatim>\<open>rdata.go\<close>, \<^verbatim>\<open>unknown.go\<close>, the constants of \<^verbatim>\<open>rrtype.go\<close>): the
  interface \<^verbatim>\<open>RData\<close> with its methods \<^verbatim>\<open>Type\<close> and \<^verbatim>\<open>Pack\<close>, and the dispatching decoder \<^verbatim>\<open>Unpack\<close>.  The contract of
  the dispatcher is the conjunction of the contracts of the payload types: what a payload packs is
  read back as that payload, the reader stays inside the message, and whatever it returns
  satisfies the invariant of its type.
\<close>

subsection \<open>The RR type codes of rrtype.go\<close>

abbreviation (input) typeA :: u16 where "typeA \<equiv> 1"
abbreviation (input) typeNS :: u16 where "typeNS \<equiv> 2"
abbreviation (input) typeCNAME :: u16 where "typeCNAME \<equiv> 5"
abbreviation (input) typeSOA :: u16 where "typeSOA \<equiv> 6"
abbreviation (input) typePTR :: u16 where "typePTR \<equiv> 12"
abbreviation (input) typeHINFO :: u16 where "typeHINFO \<equiv> 13"
abbreviation (input) typeMX :: u16 where "typeMX \<equiv> 15"
abbreviation (input) typeTXT :: u16 where "typeTXT \<equiv> 16"
abbreviation (input) typeRP :: u16 where "typeRP \<equiv> 17"
abbreviation (input) typeAFSDB :: u16 where "typeAFSDB \<equiv> 18"
abbreviation (input) typeX25 :: u16 where "typeX25 \<equiv> 19"
abbreviation (input) typeISDN :: u16 where "typeISDN \<equiv> 20"
abbreviation (input) typeRT :: u16 where "typeRT \<equiv> 21"
abbreviation (input) typeNSAP :: u16 where "typeNSAP \<equiv> 22"
abbreviation (input) typeNSAPPTR :: u16 where "typeNSAPPTR \<equiv> 23"
abbreviation (input) typeAAAA :: u16 where "typeAAAA \<equiv> 28"
abbreviation (input) typeLOC :: u16 where "typeLOC \<equiv> 29"
abbreviation (input) typeSRV :: u16 where "typeSRV \<equiv> 33"
abbreviation (input) typeNAPTR :: u16 where "typeNAPTR \<equiv> 35"
abbreviation (input) typeKX :: u16 where "typeKX \<equiv> 36"
abbreviation (input) typeCERT :: u16 where "typeCERT \<equiv> 37"
abbreviation (input) typeDNAME :: u16 where "typeDNAME \<equiv> 39"
abbreviation (input) typeOPT :: u16 where "typeOPT \<equiv> 41"
abbreviation (input) typeAPL :: u16 where "typeAPL \<equiv> 42"
abbreviation (input) typeDS :: u16 where "typeDS \<equiv> 43"
abbreviation (input) typeSSHFP :: u16 where "typeSSHFP \<equiv> 44"
abbreviation (input) typeIPSECKEY :: u16 where "typeIPSECKEY \<equiv> 45"
abbreviation (input) typeRRSIG :: u16 where "typeRRSIG \<equiv> 46"
abbreviation (input) typeNSEC :: u16 where "typeNSEC \<equiv> 47"
abbreviation (input) typeDNSKEY :: u16 where "typeDNSKEY \<equiv> 48"
abbreviation (input) typeDHCID :: u16 where "typeDHCID \<equiv> 49"
abbreviation (input) typeNSEC3 :: u16 where "typeNSEC3 \<equiv> 50"
abbreviation (input) typeNSEC3PARAM :: u16 where "typeNSEC3PARAM \<equiv> 51"
abbreviation (input) typeTLSA :: u16 where "typeTLSA \<equiv> 52"
abbreviation (input) typeSMIMEA :: u16 where "typeSMIMEA \<equiv> 53"
abbreviation (input) typeHIP :: u16 where "typeHIP \<equiv> 55"
abbreviation (input) typeCDS :: u16 where "typeCDS \<equiv> 59"
abbreviation (input) typeCDNSKEY :: u16 where "typeCDNSKEY \<equiv> 60"
abbreviation (input) typeOPENPGPKEY :: u16 where "typeOPENPGPKEY \<equiv> 61"
abbreviation (input) typeCSYNC :: u16 where "typeCSYNC \<equiv> 62"
abbreviation (input) typeZONEMD :: u16 where "typeZONEMD \<equiv> 63"
abbreviation (input) typeSVCB :: u16 where "typeSVCB \<equiv> 64"
abbreviation (input) typeHTTPS :: u16 where "typeHTTPS \<equiv> 65"
abbreviation (input) typeSPF :: u16 where "typeSPF \<equiv> 99"
abbreviation (input) typeNID :: u16 where "typeNID \<equiv> 104"
abbreviation (input) typeL32 :: u16 where "typeL32 \<equiv> 105"
abbreviation (input) typeL64 :: u16 where "typeL64 \<equiv> 106"
abbreviation (input) typeLP :: u16 where "typeLP \<equiv> 107"
abbreviation (input) typeEUI48 :: u16 where "typeEUI48 \<equiv> 108"
abbreviation (input) typeEUI64 :: u16 where "typeEUI64 \<equiv> 109"
abbreviation (input) typeNXNAME :: u16 where "typeNXNAME \<equiv> 128"
abbreviation (input) typeTKEY :: u16 where "typeTKEY \<equiv> 249"
abbreviation (input) typeIXFR :: u16 where "typeIXFR \<equiv> 251"
abbreviation (input) typeAXFR :: u16 where "typeAXFR \<equiv> 252"
abbreviation (input) typeANY :: u16 where "typeANY \<equiv> 255"
abbreviation (input) typeURI :: u16 where "typeURI \<equiv> 256"
abbreviation (input) typeCAA :: u16 where "typeCAA \<equiv> 257"
abbreviation (input) typeAMTRELAY :: u16 where "typeAMTRELAY \<equiv> 260"
abbreviation (input) typeRESINFO :: u16 where "typeRESINFO \<equiv> 261"

subsection \<open>RData\<close>

text \<open>
  The Go interface \<^verbatim>\<open>RData\<close> has one implementation per payload type.  The sum is built in two
  levels, one datatype per theory of payloads and the sum of these; the abbreviations
  \<open>RD_X\<close> are its constructors.
\<close>

datatype rdName =
    Name_CNAME rdCNAME
  | Name_NS rdNS
  | Name_PTR rdPTR
  | Name_MX rdMX
  | Name_SOA rdSOA
  | Name_SRV rdSRV
  | Name_RP rdRP
  | Name_AFSDB rdAFSDB
  | Name_RT rdRT
  | Name_NSAPPTR rdNSAPPTR
  | Name_LP rdLP
  | Name_DNAME rdDNAME
  | Name_KX rdKX

datatype rdStr =
    Str_TXT rdTXT
  | Str_CAA rdCAA
  | Str_NAPTR rdNAPTR
  | Str_X25 rdX25
  | Str_ISDN rdISDN
  | Str_URI rdURI
  | Str_RESINFO rdRESINFO
  | Str_SPF rdSPF
  | Str_HINFO rdHINFO

datatype rdFix =
    Fix_A rdA
  | Fix_AAAA rdAAAA
  | Fix_NSAP rdNSAP
  | Fix_LOC rdLOC
  | Fix_DHCID rdDHCID
  | Fix_NID rdNID
  | Fix_L32 rdL32
  | Fix_L64 rdL64
  | Fix_EUI48 rdEUI48
  | Fix_EUI64 rdEUI64
  | Fix_ZONEMD rdZONEMD
  | Fix_SSHFP rdSSHFP
  | Fix_TLSA rdTLSA
  | Fix_SMIMEA rdSMIMEA
  | Fix_OPENPGPKEY rdOPENPGPKEY
  | Fix_CERT rdCERT
  | Fix_TKEY rdTKEY

datatype rdSec =
    Sec_DNSKEY rdDNSKEY
  | Sec_DS rdDS
  | Sec_RRSIG rdRRSIG
  | Sec_NSEC rdNSEC
  | Sec_NSEC3 rdNSEC3
  | Sec_NSEC3PARAM rdNSEC3PARAM
  | Sec_CSYNC rdCSYNC
  | Sec_CDS rdCDS
  | Sec_CDNSKEY rdCDNSKEY

datatype rdWin =
    Win_SVCB svcbBody
  | Win_HTTPS svcbBody
  | Win_APL rdAPL
  | Win_IPSECKEY rdIPSECKEY
  | Win_HIP rdHIP
  | Win_AMTRELAY rdAMTRELAY

datatype rdata =
    InName rdName
  | InStr rdStr
  | InFix rdFix
  | InSec rdSec
  | InWin rdWin
  | RD_Unknown (unk_type: u16) (unk_data: bytes)

abbreviation "RD_A \<equiv> \<lambda>r. InFix (Fix_A r)"
abbreviation "RD_AAAA \<equiv> \<lambda>r. InFix (Fix_AAAA r)"
abbreviation "RD_CNAME \<equiv> \<lambda>r. InName (Name_CNAME r)"
abbreviation "RD_NS \<equiv> \<lambda>r. InName (Name_NS r)"
abbreviation "RD_PTR \<equiv> \<lambda>r. InName (Name_PTR r)"
abbreviation "RD_MX \<equiv> \<lambda>r. InName (Name_MX r)"
abbreviation "RD_TXT \<equiv> \<lambda>r. InStr (Str_TXT r)"
abbreviation "RD_SOA \<equiv> \<lambda>r. InName (Name_SOA r)"
abbreviation "RD_SVCB \<equiv> \<lambda>r. InWin (Win_SVCB r)"
abbreviation "RD_HTTPS \<equiv> \<lambda>r. InWin (Win_HTTPS r)"
abbreviation "RD_CAA \<equiv> \<lambda>r. InStr (Str_CAA r)"
abbreviation "RD_DNSKEY \<equiv> \<lambda>r. InSec (Sec_DNSKEY r)"
abbreviation "RD_DS \<equiv> \<lambda>r. InSec (Sec_DS r)"
abbreviation "RD_RRSIG \<equiv> \<lambda>r. InSec (Sec_RRSIG r)"
abbreviation "RD_NSEC \<equiv> \<lambda>r. InSec (Sec_NSEC r)"
abbreviation "RD_NSEC3 \<equiv> \<lambda>r. InSec (Sec_NSEC3 r)"
abbreviation "RD_NSEC3PARAM \<equiv> \<lambda>r. InSec (Sec_NSEC3PARAM r)"
abbreviation "RD_SRV \<equiv> \<lambda>r. InName (Name_SRV r)"
abbreviation "RD_NAPTR \<equiv> \<lambda>r. InStr (Str_NAPTR r)"
abbreviation "RD_RP \<equiv> \<lambda>r. InName (Name_RP r)"
abbreviation "RD_AFSDB \<equiv> \<lambda>r. InName (Name_AFSDB r)"
abbreviation "RD_X25 \<equiv> \<lambda>r. InStr (Str_X25 r)"
abbreviation "RD_ISDN \<equiv> \<lambda>r. InStr (Str_ISDN r)"
abbreviation "RD_RT \<equiv> \<lambda>r. InName (Name_RT r)"
abbreviation "RD_NSAP \<equiv> \<lambda>r. InFix (Fix_NSAP r)"
abbreviation "RD_NSAPPTR \<equiv> \<lambda>r. InName (Name_NSAPPTR r)"
abbreviation "RD_LOC \<equiv> \<lambda>r. InFix (Fix_LOC r)"
abbreviation "RD_APL \<equiv> \<lambda>r. InWin (Win_APL r)"
abbreviation "RD_IPSECKEY \<equiv> \<lambda>r. InWin (Win_IPSECKEY r)"
abbreviation "RD_DHCID \<equiv> \<lambda>r. InFix (Fix_DHCID r)"
abbreviation "RD_HIP \<equiv> \<lambda>r. InWin (Win_HIP r)"
abbreviation "RD_NID \<equiv> \<lambda>r. InFix (Fix_NID r)"
abbreviation "RD_L32 \<equiv> \<lambda>r. InFix (Fix_L32 r)"
abbreviation "RD_L64 \<equiv> \<lambda>r. InFix (Fix_L64 r)"
abbreviation "RD_LP \<equiv> \<lambda>r. InName (Name_LP r)"
abbreviation "RD_EUI48 \<equiv> \<lambda>r. InFix (Fix_EUI48 r)"
abbreviation "RD_EUI64 \<equiv> \<lambda>r. InFix (Fix_EUI64 r)"
abbreviation "RD_URI \<equiv> \<lambda>r. InStr (Str_URI r)"
abbreviation "RD_ZONEMD \<equiv> \<lambda>r. InFix (Fix_ZONEMD r)"
abbreviation "RD_RESINFO \<equiv> \<lambda>r. InStr (Str_RESINFO r)"
abbreviation "RD_SPF \<equiv> \<lambda>r. InStr (Str_SPF r)"
abbreviation "RD_SSHFP \<equiv> \<lambda>r. InFix (Fix_SSHFP r)"
abbreviation "RD_TLSA \<equiv> \<lambda>r. InFix (Fix_TLSA r)"
abbreviation "RD_SMIMEA \<equiv> \<lambda>r. InFix (Fix_SMIMEA r)"
abbreviation "RD_CSYNC \<equiv> \<lambda>r. InSec (Sec_CSYNC r)"
abbreviation "RD_DNAME \<equiv> \<lambda>r. InName (Name_DNAME r)"
abbreviation "RD_HINFO \<equiv> \<lambda>r. InStr (Str_HINFO r)"
abbreviation "RD_KX \<equiv> \<lambda>r. InName (Name_KX r)"
abbreviation "RD_CDS \<equiv> \<lambda>r. InSec (Sec_CDS r)"
abbreviation "RD_CDNSKEY \<equiv> \<lambda>r. InSec (Sec_CDNSKEY r)"
abbreviation "RD_OPENPGPKEY \<equiv> \<lambda>r. InFix (Fix_OPENPGPKEY r)"
abbreviation "RD_CERT \<equiv> \<lambda>r. InFix (Fix_CERT r)"
abbreviation "RD_AMTRELAY \<equiv> \<lambda>r. InWin (Win_AMTRELAY r)"
abbreviation "RD_TKEY \<equiv> \<lambda>r. InFix (Fix_TKEY r)"

text \<open>The methods \<^verbatim>\<open>Type\<close> and \<^verbatim>\<open>Pack\<close> of each payload.\<close>

primrec TypeName :: "rdName \<Rightarrow> u16" where
  "TypeName (Name_CNAME r) = typeCNAME"
| "TypeName (Name_NS r) = typeNS"
| "TypeName (Name_PTR r) = typePTR"
| "TypeName (Name_MX r) = typeMX"
| "TypeName (Name_SOA r) = typeSOA"
| "TypeName (Name_SRV r) = typeSRV"
| "TypeName (Name_RP r) = typeRP"
| "TypeName (Name_AFSDB r) = typeAFSDB"
| "TypeName (Name_RT r) = typeRT"
| "TypeName (Name_NSAPPTR r) = typeNSAPPTR"
| "TypeName (Name_LP r) = typeLP"
| "TypeName (Name_DNAME r) = typeDNAME"
| "TypeName (Name_KX r) = typeKX"

primrec TypeStr :: "rdStr \<Rightarrow> u16" where
  "TypeStr (Str_TXT r) = typeTXT"
| "TypeStr (Str_CAA r) = typeCAA"
| "TypeStr (Str_NAPTR r) = typeNAPTR"
| "TypeStr (Str_X25 r) = typeX25"
| "TypeStr (Str_ISDN r) = typeISDN"
| "TypeStr (Str_URI r) = typeURI"
| "TypeStr (Str_RESINFO r) = typeRESINFO"
| "TypeStr (Str_SPF r) = typeSPF"
| "TypeStr (Str_HINFO r) = typeHINFO"

primrec TypeFix :: "rdFix \<Rightarrow> u16" where
  "TypeFix (Fix_A r) = typeA"
| "TypeFix (Fix_AAAA r) = typeAAAA"
| "TypeFix (Fix_NSAP r) = typeNSAP"
| "TypeFix (Fix_LOC r) = typeLOC"
| "TypeFix (Fix_DHCID r) = typeDHCID"
| "TypeFix (Fix_NID r) = typeNID"
| "TypeFix (Fix_L32 r) = typeL32"
| "TypeFix (Fix_L64 r) = typeL64"
| "TypeFix (Fix_EUI48 r) = typeEUI48"
| "TypeFix (Fix_EUI64 r) = typeEUI64"
| "TypeFix (Fix_ZONEMD r) = typeZONEMD"
| "TypeFix (Fix_SSHFP r) = typeSSHFP"
| "TypeFix (Fix_TLSA r) = typeTLSA"
| "TypeFix (Fix_SMIMEA r) = typeSMIMEA"
| "TypeFix (Fix_OPENPGPKEY r) = typeOPENPGPKEY"
| "TypeFix (Fix_CERT r) = typeCERT"
| "TypeFix (Fix_TKEY r) = typeTKEY"

primrec TypeSec :: "rdSec \<Rightarrow> u16" where
  "TypeSec (Sec_DNSKEY r) = typeDNSKEY"
| "TypeSec (Sec_DS r) = typeDS"
| "TypeSec (Sec_RRSIG r) = typeRRSIG"
| "TypeSec (Sec_NSEC r) = typeNSEC"
| "TypeSec (Sec_NSEC3 r) = typeNSEC3"
| "TypeSec (Sec_NSEC3PARAM r) = typeNSEC3PARAM"
| "TypeSec (Sec_CSYNC r) = typeCSYNC"
| "TypeSec (Sec_CDS r) = typeCDS"
| "TypeSec (Sec_CDNSKEY r) = typeCDNSKEY"

primrec TypeWin :: "rdWin \<Rightarrow> u16" where
  "TypeWin (Win_SVCB r) = typeSVCB"
| "TypeWin (Win_HTTPS r) = typeHTTPS"
| "TypeWin (Win_APL r) = typeAPL"
| "TypeWin (Win_IPSECKEY r) = typeIPSECKEY"
| "TypeWin (Win_HIP r) = typeHIP"
| "TypeWin (Win_AMTRELAY r) = typeAMTRELAY"

primrec Type :: "rdata \<Rightarrow> u16" where
  "Type (InName r) = TypeName r"
| "Type (InStr r) = TypeStr r"
| "Type (InFix r) = TypeFix r"
| "Type (InSec r) = TypeSec r"
| "Type (InWin r) = TypeWin r"
| "Type (RD_Unknown t d) = t"

primrec packRdataName :: "rdName \<Rightarrow> packer \<Rightarrow> packer" where
  "packRdataName (Name_CNAME r) = packCNAME r"
| "packRdataName (Name_NS r) = packNS r"
| "packRdataName (Name_PTR r) = packPTR r"
| "packRdataName (Name_MX r) = packMX r"
| "packRdataName (Name_SOA r) = packSOA r"
| "packRdataName (Name_SRV r) = packSRV r"
| "packRdataName (Name_RP r) = packRP r"
| "packRdataName (Name_AFSDB r) = packAFSDB r"
| "packRdataName (Name_RT r) = packRT r"
| "packRdataName (Name_NSAPPTR r) = packNSAPPTR r"
| "packRdataName (Name_LP r) = packLP r"
| "packRdataName (Name_DNAME r) = packDNAME r"
| "packRdataName (Name_KX r) = packKX r"

primrec packRdataStr :: "rdStr \<Rightarrow> packer \<Rightarrow> packer" where
  "packRdataStr (Str_TXT r) = packTXT r"
| "packRdataStr (Str_CAA r) = packCAA r"
| "packRdataStr (Str_NAPTR r) = packNAPTR r"
| "packRdataStr (Str_X25 r) = packX25 r"
| "packRdataStr (Str_ISDN r) = packISDN r"
| "packRdataStr (Str_URI r) = packURI r"
| "packRdataStr (Str_RESINFO r) = packRESINFO r"
| "packRdataStr (Str_SPF r) = packSPF r"
| "packRdataStr (Str_HINFO r) = packHINFO r"

primrec packRdataFix :: "rdFix \<Rightarrow> packer \<Rightarrow> packer" where
  "packRdataFix (Fix_A r) = packA r"
| "packRdataFix (Fix_AAAA r) = packAAAA r"
| "packRdataFix (Fix_NSAP r) = packNSAP r"
| "packRdataFix (Fix_LOC r) = packLOC r"
| "packRdataFix (Fix_DHCID r) = packDHCID r"
| "packRdataFix (Fix_NID r) = packNID r"
| "packRdataFix (Fix_L32 r) = packL32 r"
| "packRdataFix (Fix_L64 r) = packL64 r"
| "packRdataFix (Fix_EUI48 r) = packEUI48 r"
| "packRdataFix (Fix_EUI64 r) = packEUI64 r"
| "packRdataFix (Fix_ZONEMD r) = packZONEMD r"
| "packRdataFix (Fix_SSHFP r) = packSSHFP r"
| "packRdataFix (Fix_TLSA r) = packTLSA r"
| "packRdataFix (Fix_SMIMEA r) = packSMIMEA r"
| "packRdataFix (Fix_OPENPGPKEY r) = packOPENPGPKEY r"
| "packRdataFix (Fix_CERT r) = packCERT r"
| "packRdataFix (Fix_TKEY r) = packTKEY r"

primrec packRdataSec :: "rdSec \<Rightarrow> packer \<Rightarrow> packer" where
  "packRdataSec (Sec_DNSKEY r) = packDNSKEY r"
| "packRdataSec (Sec_DS r) = packDS r"
| "packRdataSec (Sec_RRSIG r) = packRRSIG r"
| "packRdataSec (Sec_NSEC r) = packNSEC r"
| "packRdataSec (Sec_NSEC3 r) = packNSEC3 r"
| "packRdataSec (Sec_NSEC3PARAM r) = packNSEC3PARAM r"
| "packRdataSec (Sec_CSYNC r) = packCSYNC r"
| "packRdataSec (Sec_CDS r) = packCDS r"
| "packRdataSec (Sec_CDNSKEY r) = packCDNSKEY r"

primrec packRdataWin :: "rdWin \<Rightarrow> packer \<Rightarrow> packer" where
  "packRdataWin (Win_SVCB r) = packBody r"
| "packRdataWin (Win_HTTPS r) = packBody r"
| "packRdataWin (Win_APL r) = packAPL r"
| "packRdataWin (Win_IPSECKEY r) = packIPSECKEY r"
| "packRdataWin (Win_HIP r) = packHIP r"
| "packRdataWin (Win_AMTRELAY r) = packAMTRELAY r"

primrec packRdata :: "rdata \<Rightarrow> packer \<Rightarrow> packer" where
  "packRdata (InName r) = packRdataName r"
| "packRdata (InStr r) = packRdataStr r"
| "packRdata (InFix r) = packRdataFix r"
| "packRdata (InSec r) = packRdataSec r"
| "packRdata (InWin r) = packRdataWin r"
| "packRdata (RD_Unknown t d) = putRaw d"

definition umap :: "('a \<Rightarrow> 'b) \<Rightarrow> 'a unp \<Rightarrow> 'b unp" where
  "umap f m = ubind m (\<lambda>x. ureturn (f x))"

definition unpackSVCB :: "u16 \<Rightarrow> int \<Rightarrow> rdata unp" where
  "unpackSVCB t rdlen =
     ubind (unpackSvcbBody rdlen) (\<lambda>body.
       if t = typeSVCB then ureturn (RD_SVCB body)
       else if t = typeHTTPS then ureturn (RD_HTTPS body)
       else ufail (ErrInvalidRData ''unexpected SVCB-family type''))"

definition unpackTyped :: "u16 \<Rightarrow> int \<Rightarrow> rdata unp" where
  "unpackTyped t rdlen =
     (if t = typeA then umap RD_A (unpackA rdlen)
      else if t = typeAAAA then umap RD_AAAA (unpackAAAA rdlen)
      else if t = typeCNAME then umap RD_CNAME (unpackCNAME rdlen)
      else if t = typeNS then umap RD_NS (unpackNS rdlen)
      else if t = typePTR then umap RD_PTR (unpackPTR rdlen)
      else if t = typeMX then umap RD_MX (unpackMX rdlen)
      else if t = typeTXT then umap RD_TXT (unpackTXT rdlen)
      else if t = typeSOA then umap RD_SOA (unpackSOA rdlen)
      else if t = typeSVCB \<or> t = typeHTTPS then unpackSVCB t rdlen
      else if t = typeCAA then umap RD_CAA (unpackCAA rdlen)
      else if t = typeDNSKEY then umap RD_DNSKEY (unpackDNSKEY rdlen)
      else if t = typeDS then umap RD_DS (unpackDS rdlen)
      else if t = typeRRSIG then umap RD_RRSIG (unpackRRSIG rdlen)
      else if t = typeNSEC then umap RD_NSEC (unpackNSEC rdlen)
      else if t = typeNSEC3 then umap RD_NSEC3 (unpackNSEC3 rdlen)
      else if t = typeNSEC3PARAM then umap RD_NSEC3PARAM (unpackNSEC3PARAM rdlen)
      else if t = typeSRV then umap RD_SRV (unpackSRV rdlen)
      else if t = typeNAPTR then umap RD_NAPTR (unpackNAPTR rdlen)
      else if t = typeRP then umap RD_RP (unpackRP rdlen)
      else if t = typeAFSDB then umap RD_AFSDB (unpackAFSDB rdlen)
      else if t = typeX25 then umap RD_X25 (unpackX25 rdlen)
      else if t = typeISDN then umap RD_ISDN (unpackISDN rdlen)
      else if t = typeRT then umap RD_RT (unpackRT rdlen)
      else if t = typeNSAP then umap RD_NSAP (unpackNSAP rdlen)
      else if t = typeNSAPPTR then umap RD_NSAPPTR (unpackNSAPPTR rdlen)
      else if t = typeLOC then umap RD_LOC (unpackLOC rdlen)
      else if t = typeAPL then umap RD_APL (unpackAPL rdlen)
      else if t = typeIPSECKEY then umap RD_IPSECKEY (unpackIPSECKEY rdlen)
      else if t = typeDHCID then umap RD_DHCID (unpackDHCID rdlen)
      else if t = typeHIP then umap RD_HIP (unpackHIP rdlen)
      else if t = typeNID then umap RD_NID (unpackNID rdlen)
      else if t = typeL32 then umap RD_L32 (unpackL32 rdlen)
      else if t = typeL64 then umap RD_L64 (unpackL64 rdlen)
      else if t = typeLP then umap RD_LP (unpackLP rdlen)
      else if t = typeEUI48 then umap RD_EUI48 (unpackEUI48 rdlen)
      else if t = typeEUI64 then umap RD_EUI64 (unpackEUI64 rdlen)
      else if t = typeURI then umap RD_URI (unpackURI rdlen)
      else if t = typeZONEMD then umap RD_ZONEMD (unpackZONEMD rdlen)
      else if t = typeRESINFO then umap RD_RESINFO (unpackRESINFO rdlen)
      else if t = typeSPF then umap RD_SPF (unpackSPF rdlen)
      else if t = typeSSHFP then umap RD_SSHFP (unpackSSHFP rdlen)
      else if t = typeTLSA then umap RD_TLSA (unpackTLSA rdlen)
      else if t = typeSMIMEA then umap RD_SMIMEA (unpackSMIMEA rdlen)
      else if t = typeCSYNC then umap RD_CSYNC (unpackCSYNC rdlen)
      else if t = typeDNAME then umap RD_DNAME (unpackDNAME rdlen)
      else if t = typeHINFO then umap RD_HINFO (unpackHINFO rdlen)
      else if t = typeKX then umap RD_KX (unpackKX rdlen)
      else if t = typeCDS then umap RD_CDS (unpackCDS rdlen)
      else if t = typeCDNSKEY then umap RD_CDNSKEY (unpackCDNSKEY rdlen)
      else if t = typeOPENPGPKEY then umap RD_OPENPGPKEY (unpackOPENPGPKEY rdlen)
      else if t = typeCERT then umap RD_CERT (unpackCERT rdlen)
      else if t = typeAMTRELAY then umap RD_AMTRELAY (unpackAMTRELAY rdlen)
      else if t = typeTKEY then umap RD_TKEY (unpackTKEY rdlen)
      else ubind (getBytes rdlen) (\<lambda>b. ureturn (RD_Unknown t b)))"

definition Unpack :: "u16 \<Rightarrow> int \<Rightarrow> rdata unp" where
  "Unpack t rdlen u =
     (if rdlen < 0 \<or> uRemaining u < rdlen then
        (Inl (ErrInvalidRData ''rdlen exceeds remaining''), u)
      else if rdlen = 0 then (Inr (RD_Unknown t []), u)
      else let e = int (uoff u) + rdlen in
        ubind (unpackTyped t rdlen) (\<lambda>r.
        ubind uOff (\<lambda>off.
          if int off \<noteq> e then ufail (ErrInvalidRData ''consumed fewer or more than rdlen'')
          else ureturn r)) u)"

subsection \<open>Invariant and compressible names\<close>

text \<open>The types that \<^const>\<open>unpackTyped\<close> decodes itself.\<close>

definition typedTypes :: "u16 list" where
  "typedTypes =
     [typeA, typeAAAA, typeCNAME, typeNS, typePTR, typeMX, typeTXT, typeSOA,
      typeSVCB, typeHTTPS, typeCAA, typeDNSKEY, typeDS, typeRRSIG, typeNSEC, typeNSEC3,
      typeNSEC3PARAM, typeSRV, typeNAPTR, typeRP, typeAFSDB, typeX25, typeISDN, typeRT,
      typeNSAP, typeNSAPPTR, typeLOC, typeAPL, typeIPSECKEY, typeDHCID, typeHIP, typeNID,
      typeL32, typeL64, typeLP, typeEUI48, typeEUI64, typeURI, typeZONEMD, typeRESINFO,
      typeSPF, typeSSHFP, typeTLSA, typeSMIMEA, typeCSYNC, typeDNAME, typeHINFO, typeKX,
      typeCDS, typeCDNSKEY, typeOPENPGPKEY, typeCERT, typeAMTRELAY, typeTKEY]"

primrec invRdataName :: "rdName \<Rightarrow> bool" where
  "invRdataName (Name_CNAME r) \<longleftrightarrow> nm_ok (CNAME_target r)"
| "invRdataName (Name_NS r) \<longleftrightarrow> nm_ok (NS_name r)"
| "invRdataName (Name_PTR r) \<longleftrightarrow> nm_ok (PTR_name r)"
| "invRdataName (Name_MX r) \<longleftrightarrow> nm_ok (MX_exchange r)"
| "invRdataName (Name_SOA r) \<longleftrightarrow> invSOA r"
| "invRdataName (Name_SRV r) \<longleftrightarrow> nm_ok (SRV_target r)"
| "invRdataName (Name_RP r) \<longleftrightarrow> nm_ok (RP_mbox r) \<and> nm_ok (RP_txt r)"
| "invRdataName (Name_AFSDB r) \<longleftrightarrow> nm_ok (AFSDB_hostname r)"
| "invRdataName (Name_RT r) \<longleftrightarrow> nm_ok (RT_host r)"
| "invRdataName (Name_NSAPPTR r) \<longleftrightarrow> nm_ok (NSAPPTR_owner r)"
| "invRdataName (Name_LP r) \<longleftrightarrow> nm_ok (LP_fqdn r)"
| "invRdataName (Name_DNAME r) \<longleftrightarrow> nm_ok (DNAME_target r)"
| "invRdataName (Name_KX r) \<longleftrightarrow> nm_ok (KX_exchange r)"

primrec invRdataStr :: "rdStr \<Rightarrow> bool" where
  "invRdataStr (Str_TXT r) \<longleftrightarrow> list_all str255 (TXT_strs r)"
| "invRdataStr (Str_CAA r) \<longleftrightarrow> invCAA r"
| "invRdataStr (Str_NAPTR r) \<longleftrightarrow> invNAPTR r"
| "invRdataStr (Str_X25 r) \<longleftrightarrow> str255 (X25_addr r)"
| "invRdataStr (Str_ISDN r) \<longleftrightarrow> invISDN r"
| "invRdataStr (Str_URI r) \<longleftrightarrow> URI_target r \<noteq> []"
| "invRdataStr (Str_RESINFO r) \<longleftrightarrow> list_all str255 (RESINFO_strs r)"
| "invRdataStr (Str_SPF r) \<longleftrightarrow> list_all str255 (SPF_strs r)"
| "invRdataStr (Str_HINFO r) \<longleftrightarrow> str255 (HINFO_cpu r) \<and> str255 (HINFO_os r)"

primrec invRdataFix :: "rdFix \<Rightarrow> bool" where
  "invRdataFix (Fix_A r) \<longleftrightarrow> addr4_ok (A_addr r)"
| "invRdataFix (Fix_AAAA r) \<longleftrightarrow> addr6_ok (AAAA_addr r)"
| "invRdataFix (Fix_NSAP r) \<longleftrightarrow> True"
| "invRdataFix (Fix_LOC r) \<longleftrightarrow> invLOC r"
| "invRdataFix (Fix_DHCID r) \<longleftrightarrow> True"
| "invRdataFix (Fix_NID r) \<longleftrightarrow> True"
| "invRdataFix (Fix_L32 r) \<longleftrightarrow> True"
| "invRdataFix (Fix_L64 r) \<longleftrightarrow> True"
| "invRdataFix (Fix_EUI48 r) \<longleftrightarrow> length (EUI48_addr r) = 6"
| "invRdataFix (Fix_EUI64 r) \<longleftrightarrow> length (EUI64_addr r) = 8"
| "invRdataFix (Fix_ZONEMD r) \<longleftrightarrow> invZONEMD r"
| "invRdataFix (Fix_SSHFP r) \<longleftrightarrow> True"
| "invRdataFix (Fix_TLSA r) \<longleftrightarrow> True"
| "invRdataFix (Fix_SMIMEA r) \<longleftrightarrow> True"
| "invRdataFix (Fix_OPENPGPKEY r) \<longleftrightarrow> True"
| "invRdataFix (Fix_CERT r) \<longleftrightarrow> True"
| "invRdataFix (Fix_TKEY r) \<longleftrightarrow> invTKEY r"

primrec invRdataSec :: "rdSec \<Rightarrow> bool" where
  "invRdataSec (Sec_DNSKEY r) \<longleftrightarrow> DNSKEY_protocol r = 3"
| "invRdataSec (Sec_DS r) \<longleftrightarrow> True"
| "invRdataSec (Sec_RRSIG r) \<longleftrightarrow> nm_ok (RRSIG_signerName r)"
| "invRdataSec (Sec_NSEC r) \<longleftrightarrow> invNSEC r"
| "invRdataSec (Sec_NSEC3 r) \<longleftrightarrow> invNSEC3 r"
| "invRdataSec (Sec_NSEC3PARAM r) \<longleftrightarrow> length (NSEC3PARAM_salt r) \<le> 255"
| "invRdataSec (Sec_CSYNC r) \<longleftrightarrow> sorted_wrt (<) (CSYNC_types r)"
| "invRdataSec (Sec_CDS r) \<longleftrightarrow> True"
| "invRdataSec (Sec_CDNSKEY r) \<longleftrightarrow> True"

primrec invRdataWin :: "rdWin \<Rightarrow> bool" where
  "invRdataWin (Win_SVCB r) \<longleftrightarrow> invSvcb r"
| "invRdataWin (Win_HTTPS r) \<longleftrightarrow> invSvcb r"
| "invRdataWin (Win_APL r) \<longleftrightarrow> list_all apl_ok (APL_items r)"
| "invRdataWin (Win_IPSECKEY r) \<longleftrightarrow> invIPSECKEY r"
| "invRdataWin (Win_HIP r) \<longleftrightarrow> invHIP r"
| "invRdataWin (Win_AMTRELAY r) \<longleftrightarrow> invAMTRELAY r"

primrec invRdata :: "rdata \<Rightarrow> bool" where
  "invRdata (InName r) \<longleftrightarrow> invRdataName r"
| "invRdata (InStr r) \<longleftrightarrow> invRdataStr r"
| "invRdata (InFix r) \<longleftrightarrow> invRdataFix r"
| "invRdata (InSec r) \<longleftrightarrow> invRdataSec r"
| "invRdata (InWin r) \<longleftrightarrow> invRdataWin r"
| "invRdata (RD_Unknown t d) \<longleftrightarrow> t \<notin> set typedTypes"

text \<open>The names that a payload writes with compression.\<close>

primrec cnamesName :: "rdName \<Rightarrow> wname list" where
  "cnamesName (Name_CNAME r) = [CNAME_target r]"
| "cnamesName (Name_NS r) = [NS_name r]"
| "cnamesName (Name_PTR r) = [PTR_name r]"
| "cnamesName (Name_MX r) = [MX_exchange r]"
| "cnamesName (Name_SOA r) = [SOA_mname r, SOA_rname r]"
| "cnamesName (Name_SRV r) = []"
| "cnamesName (Name_RP r) = [RP_mbox r, RP_txt r]"
| "cnamesName (Name_AFSDB r) = []"
| "cnamesName (Name_RT r) = []"
| "cnamesName (Name_NSAPPTR r) = [NSAPPTR_owner r]"
| "cnamesName (Name_LP r) = []"
| "cnamesName (Name_DNAME r) = []"
| "cnamesName (Name_KX r) = []"

primrec cnamesStr :: "rdStr \<Rightarrow> wname list" where
  "cnamesStr (Str_TXT r) = []"
| "cnamesStr (Str_CAA r) = []"
| "cnamesStr (Str_NAPTR r) = []"
| "cnamesStr (Str_X25 r) = []"
| "cnamesStr (Str_ISDN r) = []"
| "cnamesStr (Str_URI r) = []"
| "cnamesStr (Str_RESINFO r) = []"
| "cnamesStr (Str_SPF r) = []"
| "cnamesStr (Str_HINFO r) = []"

primrec cnamesFix :: "rdFix \<Rightarrow> wname list" where
  "cnamesFix (Fix_A r) = []"
| "cnamesFix (Fix_AAAA r) = []"
| "cnamesFix (Fix_NSAP r) = []"
| "cnamesFix (Fix_LOC r) = []"
| "cnamesFix (Fix_DHCID r) = []"
| "cnamesFix (Fix_NID r) = []"
| "cnamesFix (Fix_L32 r) = []"
| "cnamesFix (Fix_L64 r) = []"
| "cnamesFix (Fix_EUI48 r) = []"
| "cnamesFix (Fix_EUI64 r) = []"
| "cnamesFix (Fix_ZONEMD r) = []"
| "cnamesFix (Fix_SSHFP r) = []"
| "cnamesFix (Fix_TLSA r) = []"
| "cnamesFix (Fix_SMIMEA r) = []"
| "cnamesFix (Fix_OPENPGPKEY r) = []"
| "cnamesFix (Fix_CERT r) = []"
| "cnamesFix (Fix_TKEY r) = []"

primrec cnamesSec :: "rdSec \<Rightarrow> wname list" where
  "cnamesSec (Sec_DNSKEY r) = []"
| "cnamesSec (Sec_DS r) = []"
| "cnamesSec (Sec_RRSIG r) = []"
| "cnamesSec (Sec_NSEC r) = []"
| "cnamesSec (Sec_NSEC3 r) = []"
| "cnamesSec (Sec_NSEC3PARAM r) = []"
| "cnamesSec (Sec_CSYNC r) = []"
| "cnamesSec (Sec_CDS r) = []"
| "cnamesSec (Sec_CDNSKEY r) = []"

primrec cnamesWin :: "rdWin \<Rightarrow> wname list" where
  "cnamesWin (Win_SVCB r) = []"
| "cnamesWin (Win_HTTPS r) = []"
| "cnamesWin (Win_APL r) = []"
| "cnamesWin (Win_IPSECKEY r) = []"
| "cnamesWin (Win_HIP r) = []"
| "cnamesWin (Win_AMTRELAY r) = []"

primrec cnames :: "rdata \<Rightarrow> wname list" where
  "cnames (InName r) = cnamesName r"
| "cnames (InStr r) = cnamesStr r"
| "cnames (InFix r) = cnamesFix r"
| "cnames (InSec r) = cnamesSec r"
| "cnames (InWin r) = cnamesWin r"
| "cnames (RD_Unknown t d) = []"

subsection \<open>The contract of the dispatcher\<close>

lemmas typed_forward =
  a.unpack_forward aaaa.unpack_forward cname.unpack_forward ns.unpack_forward ptr.unpack_forward
  mx.unpack_forward text_strings.unpack_forward soa.unpack_forward svcb.unpack_forward caa.unpack_forward
  dnskey.unpack_forward ds.unpack_forward rrsig.unpack_forward nsec.unpack_forward nsec3.unpack_forward
  nsec3param.unpack_forward srv.unpack_forward naptr.unpack_forward rp.unpack_forward afsdb.unpack_forward
  x25.unpack_forward isdn.unpack_forward rt.unpack_forward nsap.unpack_forward nsapptr.unpack_forward
  loc.unpack_forward apl.unpack_forward ipseckey.unpack_forward dhcid.unpack_forward hip.unpack_forward
  nid.unpack_forward l32.unpack_forward l64.unpack_forward lp.unpack_forward eui48.unpack_forward
  eui64.unpack_forward uri.unpack_forward zonemd.unpack_forward resinfo.unpack_forward spf.unpack_forward
  sshfp.unpack_forward tlsa.unpack_forward smimea.unpack_forward csync.unpack_forward dname.unpack_forward
  hinfo.unpack_forward kx.unpack_forward cds.unpack_forward cdnskey.unpack_forward openpgpkey.unpack_forward
  cert.unpack_forward amtrelay.unpack_forward tkey.unpack_forward

lemmas typed_appends =
  a.pack_appends aaaa.pack_appends cname.pack_appends ns.pack_appends ptr.pack_appends
  mx.pack_appends text_strings.pack_appends soa.pack_appends svcb.pack_appends caa.pack_appends
  dnskey.pack_appends ds.pack_appends rrsig.pack_appends nsec.pack_appends nsec3.pack_appends
  nsec3param.pack_appends srv.pack_appends naptr.pack_appends rp.pack_appends afsdb.pack_appends
  x25.pack_appends isdn.pack_appends rt.pack_appends nsap.pack_appends nsapptr.pack_appends
  loc.pack_appends apl.pack_appends ipseckey.pack_appends dhcid.pack_appends hip.pack_appends
  nid.pack_appends l32.pack_appends l64.pack_appends lp.pack_appends eui48.pack_appends
  eui64.pack_appends uri.pack_appends zonemd.pack_appends resinfo.pack_appends spf.pack_appends
  sshfp.pack_appends tlsa.pack_appends smimea.pack_appends csync.pack_appends dname.pack_appends
  hinfo.pack_appends kx.pack_appends cds.pack_appends cdnskey.pack_appends openpgpkey.pack_appends
  cert.pack_appends amtrelay.pack_appends tkey.pack_appends

lemmas typed_inv =
  a.unpack_inv aaaa.unpack_inv cname.unpack_inv ns.unpack_inv ptr.unpack_inv
  mx.unpack_inv text_strings.unpack_inv soa.unpack_inv svcb.unpack_inv caa.unpack_inv
  dnskey.unpack_inv ds.unpack_inv rrsig.unpack_inv nsec.unpack_inv nsec3.unpack_inv
  nsec3param.unpack_inv srv.unpack_inv naptr.unpack_inv rp.unpack_inv afsdb.unpack_inv
  x25.unpack_inv isdn.unpack_inv rt.unpack_inv nsap.unpack_inv nsapptr.unpack_inv
  loc.unpack_inv apl.unpack_inv ipseckey.unpack_inv dhcid.unpack_inv hip.unpack_inv
  nid.unpack_inv l32.unpack_inv l64.unpack_inv lp.unpack_inv eui48.unpack_inv
  eui64.unpack_inv uri.unpack_inv zonemd.unpack_inv resinfo.unpack_inv spf.unpack_inv
  sshfp.unpack_inv tlsa.unpack_inv smimea.unpack_inv csync.unpack_inv dname.unpack_inv
  hinfo.unpack_inv kx.unpack_inv cds.unpack_inv cdnskey.unpack_inv openpgpkey.unpack_inv
  cert.unpack_inv amtrelay.unpack_inv tkey.unpack_inv

lemmas typed_pack =
  a.unpack_pack aaaa.unpack_pack cname.unpack_pack ns.unpack_pack ptr.unpack_pack
  mx.unpack_pack text_strings.unpack_pack soa.unpack_pack svcb.unpack_pack caa.unpack_pack
  dnskey.unpack_pack ds.unpack_pack rrsig.unpack_pack nsec.unpack_pack nsec3.unpack_pack
  nsec3param.unpack_pack srv.unpack_pack naptr.unpack_pack rp.unpack_pack afsdb.unpack_pack
  x25.unpack_pack isdn.unpack_pack rt.unpack_pack nsap.unpack_pack nsapptr.unpack_pack
  loc.unpack_pack apl.unpack_pack ipseckey.unpack_pack dhcid.unpack_pack hip.unpack_pack
  nid.unpack_pack l32.unpack_pack l64.unpack_pack lp.unpack_pack eui48.unpack_pack
  eui64.unpack_pack uri.unpack_pack zonemd.unpack_pack resinfo.unpack_pack spf.unpack_pack
  sshfp.unpack_pack tlsa.unpack_pack smimea.unpack_pack csync.unpack_pack dname.unpack_pack
  hinfo.unpack_pack kx.unpack_pack cds.unpack_pack cdnskey.unpack_pack openpgpkey.unpack_pack
  cert.unpack_pack amtrelay.unpack_pack tkey.unpack_pack

lemma forward_umap [safe_intros]: "forward_reader m \<Longrightarrow> forward_reader (umap f m)"
  unfolding umap_def by (intro safe_intros)

lemma yields_umap: "yields m Q \<Longrightarrow> (\<And>x. Q x \<Longrightarrow> P (f x)) \<Longrightarrow> yields (umap f m) P"
  unfolding umap_def by (rule yields_bind [where Q = Q]) (auto intro: yields_return)

lemma reads_back_umap:
  "reads_back p p' unpack r \<Longrightarrow> reads_back p p' (\<lambda>n. umap f (unpack n)) (f r)"
  unfolding reads_back_def umap_def ubind_def ureturn_def by fastforce

lemma unpackSVCB_eq:
  "unpackSVCB typeSVCB n = umap RD_SVCB (unpackSvcbBody n)"
  "unpackSVCB typeHTTPS n = umap RD_HTTPS (unpackSvcbBody n)"
  by (simp_all add: unpackSVCB_def umap_def)

lemma forward_unpackTyped: "forward_reader (unpackTyped t n)"
  unfolding unpackTyped_def unpackSVCB_def by (intro safe_intros typed_forward) simp

lemma appender_packRdata: "appender_op (packRdata r)"
proof (cases r)
  case (InName x) then show ?thesis by (cases x) (simp_all add: typed_appends)
next
  case (InStr x) then show ?thesis by (cases x) (simp_all add: typed_appends)
next
  case (InFix x) then show ?thesis by (cases x) (simp_all add: typed_appends)
next
  case (InSec x) then show ?thesis by (cases x) (simp_all add: typed_appends)
next
  case (InWin x) then show ?thesis by (cases x) (simp_all add: typed_appends)
qed (simp add: append_intros)

lemmas typed_results = typed_inv [THEN yields_umap]

lemma yields_unpackTyped: "yields (unpackTyped t n) (\<lambda>r. Type r = t \<and> invRdata r)"
  unfolding unpackTyped_def unpackSVCB_def
  by (intro yields_if typed_results yields_bind [OF svcb.unpack_inv] yields_return yields_fail
      yields_bind [OF yields_bytes]) (simp_all add: typedTypes_def)

lemma unpackTyped_at:
  "unpackTyped typeA = (\<lambda>n. umap RD_A (unpackA n))"
  "unpackTyped typeAAAA = (\<lambda>n. umap RD_AAAA (unpackAAAA n))"
  "unpackTyped typeCNAME = (\<lambda>n. umap RD_CNAME (unpackCNAME n))"
  "unpackTyped typeNS = (\<lambda>n. umap RD_NS (unpackNS n))"
  "unpackTyped typePTR = (\<lambda>n. umap RD_PTR (unpackPTR n))"
  "unpackTyped typeMX = (\<lambda>n. umap RD_MX (unpackMX n))"
  "unpackTyped typeTXT = (\<lambda>n. umap RD_TXT (unpackTXT n))"
  "unpackTyped typeSOA = (\<lambda>n. umap RD_SOA (unpackSOA n))"
  "unpackTyped typeSVCB = (\<lambda>n. umap RD_SVCB (unpackSvcbBody n))"
  "unpackTyped typeHTTPS = (\<lambda>n. umap RD_HTTPS (unpackSvcbBody n))"
  "unpackTyped typeCAA = (\<lambda>n. umap RD_CAA (unpackCAA n))"
  "unpackTyped typeDNSKEY = (\<lambda>n. umap RD_DNSKEY (unpackDNSKEY n))"
  "unpackTyped typeDS = (\<lambda>n. umap RD_DS (unpackDS n))"
  "unpackTyped typeRRSIG = (\<lambda>n. umap RD_RRSIG (unpackRRSIG n))"
  "unpackTyped typeNSEC = (\<lambda>n. umap RD_NSEC (unpackNSEC n))"
  "unpackTyped typeNSEC3 = (\<lambda>n. umap RD_NSEC3 (unpackNSEC3 n))"
  "unpackTyped typeNSEC3PARAM = (\<lambda>n. umap RD_NSEC3PARAM (unpackNSEC3PARAM n))"
  "unpackTyped typeSRV = (\<lambda>n. umap RD_SRV (unpackSRV n))"
  "unpackTyped typeNAPTR = (\<lambda>n. umap RD_NAPTR (unpackNAPTR n))"
  "unpackTyped typeRP = (\<lambda>n. umap RD_RP (unpackRP n))"
  "unpackTyped typeAFSDB = (\<lambda>n. umap RD_AFSDB (unpackAFSDB n))"
  "unpackTyped typeX25 = (\<lambda>n. umap RD_X25 (unpackX25 n))"
  "unpackTyped typeISDN = (\<lambda>n. umap RD_ISDN (unpackISDN n))"
  "unpackTyped typeRT = (\<lambda>n. umap RD_RT (unpackRT n))"
  "unpackTyped typeNSAP = (\<lambda>n. umap RD_NSAP (unpackNSAP n))"
  "unpackTyped typeNSAPPTR = (\<lambda>n. umap RD_NSAPPTR (unpackNSAPPTR n))"
  "unpackTyped typeLOC = (\<lambda>n. umap RD_LOC (unpackLOC n))"
  "unpackTyped typeAPL = (\<lambda>n. umap RD_APL (unpackAPL n))"
  "unpackTyped typeIPSECKEY = (\<lambda>n. umap RD_IPSECKEY (unpackIPSECKEY n))"
  "unpackTyped typeDHCID = (\<lambda>n. umap RD_DHCID (unpackDHCID n))"
  "unpackTyped typeHIP = (\<lambda>n. umap RD_HIP (unpackHIP n))"
  "unpackTyped typeNID = (\<lambda>n. umap RD_NID (unpackNID n))"
  "unpackTyped typeL32 = (\<lambda>n. umap RD_L32 (unpackL32 n))"
  "unpackTyped typeL64 = (\<lambda>n. umap RD_L64 (unpackL64 n))"
  "unpackTyped typeLP = (\<lambda>n. umap RD_LP (unpackLP n))"
  "unpackTyped typeEUI48 = (\<lambda>n. umap RD_EUI48 (unpackEUI48 n))"
  "unpackTyped typeEUI64 = (\<lambda>n. umap RD_EUI64 (unpackEUI64 n))"
  "unpackTyped typeURI = (\<lambda>n. umap RD_URI (unpackURI n))"
  "unpackTyped typeZONEMD = (\<lambda>n. umap RD_ZONEMD (unpackZONEMD n))"
  "unpackTyped typeRESINFO = (\<lambda>n. umap RD_RESINFO (unpackRESINFO n))"
  "unpackTyped typeSPF = (\<lambda>n. umap RD_SPF (unpackSPF n))"
  "unpackTyped typeSSHFP = (\<lambda>n. umap RD_SSHFP (unpackSSHFP n))"
  "unpackTyped typeTLSA = (\<lambda>n. umap RD_TLSA (unpackTLSA n))"
  "unpackTyped typeSMIMEA = (\<lambda>n. umap RD_SMIMEA (unpackSMIMEA n))"
  "unpackTyped typeCSYNC = (\<lambda>n. umap RD_CSYNC (unpackCSYNC n))"
  "unpackTyped typeDNAME = (\<lambda>n. umap RD_DNAME (unpackDNAME n))"
  "unpackTyped typeHINFO = (\<lambda>n. umap RD_HINFO (unpackHINFO n))"
  "unpackTyped typeKX = (\<lambda>n. umap RD_KX (unpackKX n))"
  "unpackTyped typeCDS = (\<lambda>n. umap RD_CDS (unpackCDS n))"
  "unpackTyped typeCDNSKEY = (\<lambda>n. umap RD_CDNSKEY (unpackCDNSKEY n))"
  "unpackTyped typeOPENPGPKEY = (\<lambda>n. umap RD_OPENPGPKEY (unpackOPENPGPKEY n))"
  "unpackTyped typeCERT = (\<lambda>n. umap RD_CERT (unpackCERT n))"
  "unpackTyped typeAMTRELAY = (\<lambda>n. umap RD_AMTRELAY (unpackAMTRELAY n))"
  "unpackTyped typeTKEY = (\<lambda>n. umap RD_TKEY (unpackTKEY n))"
  by (simp_all add: unpackTyped_def fun_eq_iff unpackSVCB_eq)

lemmas typed_reads = typed_pack [THEN reads_back_umap]

lemma unpackTyped_unknown:
  "t \<notin> set typedTypes \<Longrightarrow> unpackTyped t = (\<lambda>n. umap (RD_Unknown t) (getBytes n))"
  by (simp add: unpackTyped_def typedTypes_def fun_eq_iff umap_def)

lemma reads_back_Unknown: "comp_ok p \<Longrightarrow> reads_back p (putRaw d p) getBytes d"
  unfolding reads_back_def by (intro exI [of _ d]) (simp add: wire_simps)

lemma reads_back_unpackTyped:
  assumes "invRdata r" "list_all few_labels (cnames r)" "comp_ok p"
  shows "reads_back p (packRdata r p) (unpackTyped (Type r)) r"
proof (cases r)
  case (InName x)
  with assms show ?thesis by (cases x) (auto simp: unpackTyped_at intro!: typed_reads)
next
  case (InStr x)
  with assms show ?thesis by (cases x) (auto simp: unpackTyped_at intro!: typed_reads)
next
  case (InFix x)
  with assms show ?thesis by (cases x) (auto simp: unpackTyped_at intro!: typed_reads)
next
  case (InSec x)
  with assms show ?thesis by (cases x) (auto simp: unpackTyped_at intro!: typed_reads)
next
  case (InWin x)
  with assms show ?thesis by (cases x) (auto simp: unpackTyped_at intro!: typed_reads)
next
  case (RD_Unknown t d)
  with assms show ?thesis
    using reads_back_umap [OF reads_back_Unknown [OF assms(3)], of d "RD_Unknown t"]
    by (simp add: unpackTyped_unknown)
qed

interpretation typed: rdata_codec packRdata "unpackTyped t" "\<lambda>r. Type r = t \<and> invRdata r" cnames for t
  by unfold_locales (auto simp: appender_packRdata forward_unpackTyped yields_unpackTyped intro: reads_back_unpackTyped)

interpretation pack_rdata: appender "packRdata r" for r
  by unfold_locales (rule appender_packRdata)

subsection \<open>Unpack\<close>

text \<open>A payload without octets is decoded as an unknown one, whatever its type.\<close>

definition validRdata :: "rdata \<Rightarrow> bool" where
  "validRdata r \<longleftrightarrow> invRdata r \<or> r = RD_Unknown (Type r) []"

lemma forward_Unpack [safe_intros]: "forward_reader (Unpack t n)"
proof -
  have "forward_reader (ubind (unpackTyped t n) (\<lambda>r. ubind uOff (\<lambda>off.
          if int off \<noteq> e then ufail (ErrInvalidRData ''consumed fewer or more than rdlen'') else ureturn r)))"
    for e by (intro safe_intros forward_unpackTyped) simp
  note body = this [unfolded forward_reader_def, rule_format]
  show ?thesis
  proof (rule forwardI)
    fix u :: unpacker assume "uoff u \<le> length (umsg u)"
    from body [OF this] this
    show "fst (Unpack t n u) \<noteq> Inl Diverges \<and> umsg (snd (Unpack t n u)) = umsg u \<and>
        uoff u \<le> uoff (snd (Unpack t n u)) \<and> uoff (snd (Unpack t n u)) \<le> length (umsg u)"
      by (simp add: Unpack_def Let_def)
  qed
qed

lemma Unpack_ok:
  assumes "Unpack t n u = (Inr r, u')"
  shows "Type r = t \<and> validRdata r" "int (uoff u') = int (uoff u) + n"
proof -
  have "Type r = t \<and> invRdata r \<and> int (uoff u') = int (uoff u) + n"
    if n: "n \<noteq> 0"
  proof -
    obtain u1 where *: "unpackTyped t n u = (Inr r, u1)" "u' = u1" "int (uoff u1) = int (uoff u) + n"
      using assms n
      by (auto simp: Unpack_def Let_def ubind_def uOff_def ufail_def ureturn_def
          split: if_splits prod.splits sum.splits)
    with yields_unpackTyped [of t n, unfolded yields_def] show ?thesis by blast
  qed
  moreover have "r = RD_Unknown t [] \<and> u' = u" if "n = 0"
    using assms that by (auto simp: Unpack_def split: if_splits)
  ultimately show "Type r = t \<and> validRdata r" "int (uoff u') = int (uoff u) + n"
    by (cases "n = 0"; force simp: validRdata_def)+
qed

lemma Unpack_packRdata:
  assumes "validRdata r" "list_all few_labels (cnames r)" "comp_ok p"
  obtains enc where "pbuf (packRdata r p) = pbuf p @ enc" "comp_ok (packRdata r p)"
    "\<And>s. Unpack (Type r) (int (length enc)) (cur_at (pbuf p) (enc @ s)) =
      (Inr (if enc = [] then RD_Unknown (Type r) [] else r), cur_at (pbuf p @ enc) s)"
proof (cases "invRdata r")
  case True
  then obtain enc where *: "pbuf (packRdata r p) = pbuf p @ enc" "comp_ok (packRdata r p)"
    "\<And>s. unpackTyped (Type r) (int (length enc)) (cur_at (pbuf p) (enc @ s)) = (Inr r, cur_at (pbuf p @ enc) s)"
    using reads_back_unpackTyped [OF True assms(2,3)] unfolding reads_back_def by blast
  show thesis
    by (rule that [OF *(1,2)])
      (simp add: Unpack_def uRemaining_def Let_def ubind_def *(3) uOff_def ureturn_def)
next
  case False
  with assms(1) have r: "r = RD_Unknown (Type r) []" by (simp add: validRdata_def)
  have "packRdata r p = p" by (subst r) (simp add: putRaw_def)
  with assms(3) show thesis
    by (intro that [of "[]"]) (simp_all add: Unpack_def uRemaining_def cur_at_def)
qed

subsection \<open>Payloads without octets\<close>

lemmas typed_plain =
  a.plain_pack aaaa.plain_pack text_strings.plain_pack svcb.plain_pack caa.plain_pack dnskey.plain_pack
  ds.plain_pack rrsig.plain_pack nsec.plain_pack nsec3.plain_pack nsec3param.plain_pack srv.plain_pack
  naptr.plain_pack afsdb.plain_pack x25.plain_pack isdn.plain_pack rt.plain_pack nsap.plain_pack
  loc.plain_pack apl.plain_pack ipseckey.plain_pack dhcid.plain_pack hip.plain_pack nid.plain_pack
  l32.plain_pack l64.plain_pack lp.plain_pack eui48.plain_pack eui64.plain_pack uri.plain_pack
  zonemd.plain_pack resinfo.plain_pack spf.plain_pack sshfp.plain_pack tlsa.plain_pack smimea.plain_pack
  csync.plain_pack dname.plain_pack hinfo.plain_pack kx.plain_pack cds.plain_pack cdnskey.plain_pack
  openpgpkey.plain_pack cert.plain_pack amtrelay.plain_pack tkey.plain_pack

lemma ex_putRaw: "f = putRaw b \<Longrightarrow> \<exists>b. f = putRaw b"
  by blast

lemma packRdata_plain:
  assumes "invRdata r" "cnames r = []"
  shows "\<exists>b. packRdata r = putRaw b"
proof (cases r)
  case (InName x)
  with assms show ?thesis by (cases x) (auto intro!: typed_plain [THEN ex_putRaw])
next
  case (InStr x)
  with assms show ?thesis by (cases x) (auto intro!: typed_plain [THEN ex_putRaw])
next
  case (InFix x)
  with assms show ?thesis by (cases x) (auto intro!: typed_plain [THEN ex_putRaw])
next
  case (InSec x)
  with assms show ?thesis by (cases x) (auto intro!: typed_plain [THEN ex_putRaw])
next
  case (InWin x)
  with assms show ?thesis by (cases x) (auto intro!: typed_plain [THEN ex_putRaw])
qed auto

lemma unpackTyped_named_end:
  assumes "cnames r \<noteq> []"
  shows "fst (unpackTyped (Type r) 0 (cur_at pre [])) \<noteq> Inr r"
proof (cases r)
  case (InName x)
  with assms show ?thesis
    by (cases x)
      (auto simp: unpackTyped_at umap_def unpackCNAME_def unpackNS_def unpackPTR_def unpackNSAPPTR_def unpackMX_def
        unpackRP_def unpackSOA_def ubind_def getName_def getNameInRange_def DecodeWire_def getUint16_def
        uOff_def Let_def clampEnd_def ufail_def split: prod.splits sum.splits if_splits)
next
  case (InStr x) with assms show ?thesis by (cases x) auto
next
  case (InFix x) with assms show ?thesis by (cases x) auto
next
  case (InSec x) with assms show ?thesis by (cases x) auto
next
  case (InWin x) with assms show ?thesis by (cases x) auto
qed (use assms in simp)

lemma packRdata_empty:
  assumes "validRdata r" "list_all few_labels (cnames r)" "comp_ok p" "pbuf (packRdata r p) = pbuf p @ enc"
  shows "enc = [] \<longleftrightarrow> packBytes packRdata r = []"
proof (cases "invRdata r")
  case False
  with assms(1) have r: "r = RD_Unknown (Type r) []" by (simp add: validRdata_def)
  from assms(4) show ?thesis by (subst (asm) r, subst r) (simp add: packBytes_def wire_simps)
next
  case inv: True
  show ?thesis
  proof (cases "cnames r = []")
    case True
    with packRdata_plain [OF inv] obtain b where "packRdata r = putRaw b" by blast
    with assms(4) show ?thesis by (simp add: packBytes_def wire_simps)
  next
    case False
    have ne: "e \<noteq> []" if "comp_ok q" "pbuf (packRdata r q) = pbuf q @ e" for q e
    proof
      assume e: "e = []"
      from reads_back_unpackTyped [OF inv assms(2) that(1)] obtain e' where
        e': "pbuf (packRdata r q) = pbuf q @ e'"
        "\<And>s. unpackTyped (Type r) (int (length e')) (cur_at (pbuf q) (e' @ s)) = (Inr r, cur_at (pbuf q @ e') s)"
        unfolding reads_back_def by blast
      with that(2) e have "e' = []" by simp
      with e'(2) [of "[]"] have "fst (unpackTyped (Type r) 0 (cur_at (pbuf q) [])) = Inr r" by simp
      with unpackTyped_named_end [OF False] show False by blast
    qed
    have "packBytes packRdata r \<noteq> []"
      using ne [of "NewPacker []"] by (simp add: packBytes_def wire_simps)
    with ne [OF assms(3,4)] show ?thesis by blast
  qed
qed

text \<open>What a payload is read back as.\<close>

definition normRdata :: "rdata \<Rightarrow> rdata" where
  "normRdata r = (if packBytes packRdata r = [] then RD_Unknown (Type r) [] else r)"

lemma Type_normRdata [simp]: "Type (normRdata r) = Type r"
  by (simp add: normRdata_def)

lemma Unpack_norm:
  assumes "validRdata r" "list_all few_labels (cnames r)" "comp_ok p"
  obtains enc where "pbuf (packRdata r p) = pbuf p @ enc" "comp_ok (packRdata r p)"
    "\<And>s. Unpack (Type r) (int (length enc)) (cur_at (pbuf p) (enc @ s)) =
      (Inr (normRdata r), cur_at (pbuf p @ enc) s)"
proof -
  obtain enc where *: "pbuf (packRdata r p) = pbuf p @ enc" "comp_ok (packRdata r p)"
    "\<And>s. Unpack (Type r) (int (length enc)) (cur_at (pbuf p) (enc @ s)) =
      (Inr (if enc = [] then RD_Unknown (Type r) [] else r), cur_at (pbuf p @ enc) s)"
    by (rule Unpack_packRdata [OF assms]) blast
  show thesis
    by (rule that [OF *(1,2)]) (simp add: *(3) normRdata_def packRdata_empty [OF assms *(1)])
qed

subsection \<open>A payload that was decoded from octets packs to octets\<close>

definition emptyPayloads :: "rdata set" where
  "emptyPayloads = {RD_TXT (RdTXT []), RD_SPF (RdSPF []), RD_RESINFO (RdRESINFO []), RD_NSAP (RdNSAP []),
     RD_OPENPGPKEY (RdOPENPGPKEY []), RD_DHCID (RdDHCID []), RD_APL (RdAPL [])} \<union> range (\<lambda>t. RD_Unknown t [])"

lemma putStr_len: "length (pbuf p) \<le> length (pbuf (putStr s p))"
  by (simp add: putStr_def putCharString_def putRaw_def)

lemma appender_grows: "appender_op f \<Longrightarrow> length (pbuf p) \<le> length (pbuf (f p))"
  using appender.length_grows [OF appender.intro] .

lemma putName_grows:
  assumes "nm_ok n" "comp_ok p"
  shows "length (pbuf p) < length (pbuf (putName n p))"
proof -
  from assms(1) have "wf_name n" by (simp add: nm_ok_def)
  then obtain enc h where "pbuf (putName n p) = pbuf p @ enc"
    "names_at (pbuf p @ enc) (length (pbuf p)) (Labels n) h (length enc)"
    using putName_ok [OF _ assms(2)] by metis
  with names_at_bound show ?thesis by fastforce
qed

lemma putName_seq_nonempty:
  assumes "nm_ok n" "appender_op (pseq fs)"
  shows "pbuf (pseq fs (putName n (NewPacker []))) \<noteq> []" "pbuf (putName n (NewPacker [])) \<noteq> []"
proof -
  have "0 < length (pbuf (putName n (NewPacker [])))"
    using putName_grows [OF assms(1), of "NewPacker []"] by (simp add: wire_simps)
  with appender_grows [OF assms(2), of "putName n (NewPacker [])"]
  show "pbuf (pseq fs (putName n (NewPacker []))) \<noteq> []" "pbuf (putName n (NewPacker [])) \<noteq> []" by auto
qed

lemma packBytes_named:
  assumes "invRdata r" "cnames r \<noteq> []"
  shows "packBytes packRdata r \<noteq> []"
proof (cases r)
  case (InName x)
  have 16: "pbuf (putName n (putUint16 v (NewPacker []))) \<noteq> []" for n v
    using appender_grows [OF appender_putName, of "putUint16 v (NewPacker [])" n] by (auto simp: wire_simps)
  have two: "nm_ok m \<Longrightarrow> pbuf (putName n (putName m (NewPacker []))) \<noteq> []" for m n
    using putName_seq_nonempty(1) [of m "[putName n]"] by (simp add: append_intros)
  note one = putName_seq_nonempty(2) [of _ "[]", OF _ appender_pseq(1)]
  from InName assms show ?thesis
    by (cases x) (auto simp: packBytes_def packCNAME_def packNS_def packPTR_def packNSAPPTR_def packMX_def packRP_def
      packSOA_def invSOA_def 16 one two putUint32_def)
next
  case (InStr x) with assms show ?thesis by (cases x) auto
next
  case (InFix x) with assms show ?thesis by (cases x) auto
next
  case (InSec x) with assms show ?thesis by (cases x) auto
next
  case (InWin x) with assms show ?thesis by (cases x) auto
qed (use assms in simp)

lemma packHIP_nonempty: "pbuf (packHIP r (NewPacker [])) \<noteq> []"
proof -
  let ?v = "word_of_nat (length (HIP_hit r)) :: byte"
  let ?w = "HIP_alg r # be16 (word_of_nat (length (HIP_pubkey r))) @ HIP_hit r @ HIP_pubkey r"
  have "appender_op (fold putNameUncompressed (HIP_rvs r))" by (intro append_intros)
  from appender_grows [OF this, of "putRaw (?v # ?w) (NewPacker [])"] show ?thesis
    by (auto simp: packHIP_def wire_simps)
qed

lemma apl_empty: "list_all apl_ok its \<Longrightarrow> \<forall>it \<in> set its. enc_apl it = [] \<Longrightarrow> its = []"
  using apl_items.enc_nonempty by (cases its) auto

lemma packBytes_empty:
  assumes "invRdata r" "packBytes packRdata r = []"
  shows "r \<in> emptyPayloads"
proof (cases "cnames r = []")
  case False
  with packBytes_named [OF assms(1)] assms(2) show ?thesis by simp
next
  case True
  show ?thesis
  proof (cases r)
    case (InName x)
    with assms True show ?thesis
      by (cases x) (auto simp: packBytes_def packAFSDB_def packCNAME_def packDNAME_def packKX_def packLP_def packMX_def packNSAPPTR_def packNS_def packPTR_def packRP_def packRT_def packSOA_def packSRV_def wire_simps emptyPayloads_def AppendWire_def IsValid_def
        invNAPTR_def invISDN_def rdTXT.expand rdSPF.expand rdRESINFO.expand rdNSAP.expand rdDHCID.expand
        rdOPENPGPKEY.expand rdAPL.expand addr4_ok_def addr6_ok_def be16_def be32_def packHIP_nonempty dest: apl_empty split: if_splits)
  next
    case (InStr x)
    with assms True show ?thesis
      by (cases x) (auto simp: packBytes_def packCAA_def packHINFO_def packISDN_def packNAPTR_def packRESINFO_def packSPF_def packTXT_def packURI_def packX25_def wire_simps emptyPayloads_def AppendWire_def IsValid_def
        invNAPTR_def invISDN_def rdTXT.expand rdSPF.expand rdRESINFO.expand rdNSAP.expand rdDHCID.expand
        rdOPENPGPKEY.expand rdAPL.expand addr4_ok_def addr6_ok_def be16_def be32_def packHIP_nonempty dest: apl_empty split: if_splits)
  next
    case (InFix x)
    with assms True show ?thesis
      by (cases x) (auto simp: packBytes_def packAAAA_def packA_def packCERT_def packDHCID_def packEUI48_def packEUI64_def packL32_def packL64_def packLOC_def packNID_def packNSAP_def packOPENPGPKEY_def packSMIMEA_def packSSHFP_def packTKEY_def packTLSA_def packZONEMD_def wire_simps emptyPayloads_def AppendWire_def IsValid_def
        invNAPTR_def invISDN_def rdTXT.expand rdSPF.expand rdRESINFO.expand rdNSAP.expand rdDHCID.expand
        rdOPENPGPKEY.expand rdAPL.expand addr4_ok_def addr6_ok_def be16_def be32_def packHIP_nonempty dest: apl_empty split: if_splits)
  next
    case (InSec x)
    with assms True show ?thesis
      by (cases x) (auto simp: packBytes_def packCDNSKEY_def packCDS_def packCSYNC_def packDNSKEY_def packDS_def packNSEC3PARAM_def packNSEC3_def packNSEC_def packRRSIG_def wire_simps emptyPayloads_def AppendWire_def IsValid_def
        invNAPTR_def invISDN_def rdTXT.expand rdSPF.expand rdRESINFO.expand rdNSAP.expand rdDHCID.expand
        rdOPENPGPKEY.expand rdAPL.expand addr4_ok_def addr6_ok_def be16_def be32_def packHIP_nonempty dest: apl_empty split: if_splits)
  next
    case (InWin x)
    with assms True show ?thesis
      by (cases x) (auto simp: packBytes_def packAMTRELAY_def packAPL_def packBody_def packIPSECKEY_def wire_simps emptyPayloads_def AppendWire_def IsValid_def
        invNAPTR_def invISDN_def rdTXT.expand rdSPF.expand rdRESINFO.expand rdNSAP.expand rdDHCID.expand
        rdOPENPGPKEY.expand rdAPL.expand addr4_ok_def addr6_ok_def be16_def be32_def packHIP_nonempty dest: apl_empty split: if_splits)
  next
    case (RD_Unknown t d)
    with assms show ?thesis by (auto simp: packBytes_def wire_simps emptyPayloads_def)
  qed
qed

lemma getBytes_empty: "getBytes n u = (Inr [], u') \<Longrightarrow> n = 0"
  by (auto simp: getBytes_def split: if_splits)

text \<open>A loop that has octets to read returns at least one item.\<close>

lemma loop_items_nonempty:
  assumes "item_reader body" "\<And>acc. yields (body e acc) (\<lambda>acc'. acc' \<noteq> [])"
    "uoff u \<le> length (umsg u)" "int (uoff u) < e" "forOff e (body e) acc u = (Inr r, u')"
  shows "r \<noteq> []"
proof -
  have "ubind (body e acc) (forOff e (body e)) u = (Inr r, u')"
    using assms(5) item_reader.forOff_unfold [OF assms(1,3)] assms(4) by simp
  moreover have "yields (ubind (body e acc) (forOff e (body e))) (\<lambda>acc'. acc' \<noteq> [])"
    by (intro yields_bind [OF assms(2)] yields_forOff assms(2))
  ultimately show ?thesis unfolding yields_def by blast
qed

lemma yields_snoc:
  "yields (strings_body e acc) (\<lambda>acc'. acc' \<noteq> [])" "yields (apl_body e acc') (\<lambda>acc'. acc' \<noteq> [])"
  unfolding strings_body_def apl_body_def Let_def
  by (intro yields_rules yields_bind [where m = "ulift _", OF yields_any]; simp)+

lemmas strings_nonempty = loop_items_nonempty [OF strings.item_reader_axioms yields_snoc(1)]
lemmas apl_nonempty = loop_items_nonempty [OF apl_items.item_reader_axioms yields_snoc(2)]

lemma unpackTyped_nonempty:
  assumes "unpackTyped t n u = (Inr r, u')" "uoff u \<le> length (umsg u)" "0 < n"
  shows "r \<notin> emptyPayloads"
proof
  assume "r \<in> emptyPayloads"
  have t: "t = Type r" and i: "invRdata r"
    using yields_unpackTyped [of t n] assms(1) unfolding yields_def by blast+
  have "forOff (int (uoff u) + n) (strings_body (int (uoff u) + n)) [] u \<noteq> (Inr [], u')"
    "forOff (int (uoff u) + n) (apl_body (int (uoff u) + n)) [] u \<noteq> (Inr [], u')"
    using strings_nonempty [OF assms(2), of "int (uoff u) + n" "[]" "[]" u']
      apl_nonempty [OF assms(2), of "int (uoff u) + n" "[]" "[]" u'] assms(3) by auto
  with \<open>r \<in> emptyPayloads\<close> assms i show False
    unfolding t emptyPayloads_def
    by (auto simp: unpackTyped_at unpackTyped_unknown umap_def unpackTXT_def unpackSPF_def unpackRESINFO_def
        unpackNSAP_def unpackOPENPGPKEY_def unpackDHCID_def unpackAPL_def ubind_def uOff_def ureturn_def Let_def
        split: prod.splits sum.splits dest!: getBytes_empty)
qed

lemma Unpack_normal:
  assumes "Unpack t n u = (Inr r, u')" "uoff u \<le> length (umsg u)"
  shows "normRdata r = r"
proof (cases "n = 0")
  case True
  with assms(1) have "r = RD_Unknown t []" by (auto simp: Unpack_def split: if_splits)
  then show ?thesis by (simp add: normRdata_def)
next
  case False
  with assms(1) have "0 < n" "unpackTyped t n u = (Inr r, u')"
    by (auto simp: Unpack_def Let_def ubind_def uOff_def ufail_def ureturn_def split: if_splits prod.splits sum.splits)
  with unpackTyped_nonempty [OF _ assms(2)] packBytes_empty [of r] yields_unpackTyped [of t n]
  show ?thesis unfolding normRdata_def yields_def by metis
qed

end
