(* ===== verification/Wire_Record.thy ===== *)
theory Wire_Record
  imports Rdata
begin

text \<open>
  The parts of a DNS message: the header flags (\<^verbatim>\<open>wire/flags.go\<close>), questions
  (\<^verbatim>\<open>wire/question.go\<close>), resource records (\<^verbatim>\<open>wire/record.go\<close>) and the OPT pseudo-record
  (\<^verbatim>\<open>wire/edns.go\<close>), each with its encoder and decoder.  The lemmas are the contracts that the
  message codec of \<open>Wire_Message\<close> rests on: what an encoder appends is read back, a decoder
  stays inside the message, and what it returns is well-formed.
\<close>

unbundle bit_operations_syntax

subsection \<open>Header flags\<close>

type_synonym Flags = u16

definition flagQR :: u16 where "flagQR = push_bit 15 1"
definition flagAA :: u16 where "flagAA = push_bit 10 1"
definition flagTC :: u16 where "flagTC = push_bit 9 1"
definition flagRD :: u16 where "flagRD = push_bit 8 1"
definition flagRA :: u16 where "flagRA = push_bit 7 1"
definition flagAD :: u16 where "flagAD = push_bit 5 1"
definition flagCD :: u16 where "flagCD = push_bit 4 1"

lemmas flag_masks = flagQR_def flagAA_def flagTC_def flagRD_def flagRA_def flagAD_def flagCD_def

text \<open>\<^verbatim>\<open>setBit\<close> of \<^verbatim>\<open>flags.go\<close>; Go's \<^verbatim>\<open>x &^ m\<close> is \<open>x AND NOT m\<close>.\<close>

definition setFlag :: "Flags \<Rightarrow> u16 \<Rightarrow> bool \<Rightarrow> Flags" where
  "setFlag f m on = (if on then f OR m else f AND NOT m)"

definition Response :: "Flags \<Rightarrow> bool" where "Response f \<longleftrightarrow> f AND flagQR \<noteq> 0"
definition Authoritative :: "Flags \<Rightarrow> bool" where "Authoritative f \<longleftrightarrow> f AND flagAA \<noteq> 0"
definition Truncated :: "Flags \<Rightarrow> bool" where "Truncated f \<longleftrightarrow> f AND flagTC \<noteq> 0"
definition RecursionDesired :: "Flags \<Rightarrow> bool" where "RecursionDesired f \<longleftrightarrow> f AND flagRD \<noteq> 0"
definition RecursionAvailable :: "Flags \<Rightarrow> bool" where "RecursionAvailable f \<longleftrightarrow> f AND flagRA \<noteq> 0"
definition AuthenticData :: "Flags \<Rightarrow> bool" where "AuthenticData f \<longleftrightarrow> f AND flagAD \<noteq> 0"
definition CheckingDisabled :: "Flags \<Rightarrow> bool" where "CheckingDisabled f \<longleftrightarrow> f AND flagCD \<noteq> 0"
definition OpcodeOf :: "Flags \<Rightarrow> u8" where "OpcodeOf f = ucast (drop_bit 11 f AND 0x0f)"
definition RcodeOf :: "Flags \<Rightarrow> u8" where "RcodeOf f = ucast (f AND 0x0f)"

definition WithResponse :: "Flags \<Rightarrow> bool \<Rightarrow> Flags" where "WithResponse f v = setFlag f flagQR v"
definition WithAuthoritative :: "Flags \<Rightarrow> bool \<Rightarrow> Flags" where "WithAuthoritative f v = setFlag f flagAA v"
definition WithTruncated :: "Flags \<Rightarrow> bool \<Rightarrow> Flags" where "WithTruncated f v = setFlag f flagTC v"
definition WithRecursionDesired :: "Flags \<Rightarrow> bool \<Rightarrow> Flags" where "WithRecursionDesired f v = setFlag f flagRD v"
definition WithRecursionAvailable :: "Flags \<Rightarrow> bool \<Rightarrow> Flags" where "WithRecursionAvailable f v = setFlag f flagRA v"
definition WithAuthenticData :: "Flags \<Rightarrow> bool \<Rightarrow> Flags" where "WithAuthenticData f v = setFlag f flagAD v"
definition WithCheckingDisabled :: "Flags \<Rightarrow> bool \<Rightarrow> Flags" where "WithCheckingDisabled f v = setFlag f flagCD v"

definition WithOpcode :: "Flags \<Rightarrow> u8 \<Rightarrow> Flags" where
  "WithOpcode f opc = (f AND NOT (push_bit 11 0x0f)) OR push_bit 11 (ucast (opc AND 0x0f))"

definition WithRCODE :: "Flags \<Rightarrow> u8 \<Rightarrow> Flags" where
  "WithRCODE f r = (f AND NOT 0x0f) OR ucast (r AND 0x0f)"

abbreviation (input) RCODENoError :: u8 where "RCODENoError \<equiv> 0"
abbreviation (input) RCODEFormErr :: u8 where "RCODEFormErr \<equiv> 1"
abbreviation (input) RCODEServFail :: u8 where "RCODEServFail \<equiv> 2"
abbreviation (input) RCODENXDomain :: u8 where "RCODENXDomain \<equiv> 3"
abbreviation (input) RCODENotImp :: u8 where "RCODENotImp \<equiv> 4"
abbreviation (input) RCODERefused :: u8 where "RCODERefused \<equiv> 5"
abbreviation (input) RCODEYXDomain :: u8 where "RCODEYXDomain \<equiv> 6"
abbreviation (input) RCODEYXRRSet :: u8 where "RCODEYXRRSet \<equiv> 7"
abbreviation (input) RCODENXRRSet :: u8 where "RCODENXRRSet \<equiv> 8"
abbreviation (input) RCODENotAuth :: u8 where "RCODENotAuth \<equiv> 9"
abbreviation (input) RCODENotZone :: u8 where "RCODENotZone \<equiv> 10"
abbreviation (input) OpcodeQuery :: u8 where "OpcodeQuery \<equiv> 0"
abbreviation (input) OpcodeNotify :: u8 where "OpcodeNotify \<equiv> 4"
abbreviation (input) OpcodeUpdate :: u8 where "OpcodeUpdate \<equiv> 5"

abbreviation (input) ClassIN :: u16 where "ClassIN \<equiv> 1"
abbreviation (input) ClassNONE :: u16 where "ClassNONE \<equiv> 254"
abbreviation (input) ClassANY :: u16 where "ClassANY \<equiv> 255"

subsection \<open>Questions\<close>

text \<open>\<open>q_raw\<close> is \<^verbatim>\<open>rawName\<close>: the octets of the name as they arrived, empty for a question that was
  not decoded.\<close>

record question =
  q_name :: wname
  q_type :: u16
  q_class :: u16
  q_raw :: bytes

definition NewQuestion :: "wname \<Rightarrow> u16 \<Rightarrow> question" where
  "NewQuestion n t = \<lparr>q_name = n, q_type = t, q_class = ClassIN, q_raw = []\<rparr>"

definition NewQuestionClass :: "wname \<Rightarrow> u16 \<Rightarrow> u16 \<Rightarrow> question" where
  "NewQuestionClass n t c = \<lparr>q_name = n, q_type = t, q_class = c, q_raw = []\<rparr>"

definition packQuestion :: "question \<Rightarrow> packer \<Rightarrow> packer" where
  "packQuestion q = pseq
     [if 0 < length (q_raw q) then putRaw (q_raw q) else putNameUncompressed (q_name q),
      putUint16 (q_type q), putUint16 (q_class q)]"

text \<open>The loop of \<^verbatim>\<open>unpackQuestion\<close> over the raw name: is there a compression pointer?\<close>

function rawPointer :: "bytes \<Rightarrow> nat \<Rightarrow> bool" where
  "rawPointer raw off =
     (if off < length raw then
        if raw ! off AND 0xc0 = 0xc0 then True
        else if raw ! off = 0 then False
        else rawPointer raw (off + 1 + unat (raw ! off))
      else False)"
  by auto
termination by (relation "measure (\<lambda>(raw, off). length raw - off)") auto

declare rawPointer.simps [simp del]

definition uMsg :: "bytes unp" where
  "uMsg u = (Inr (umsg u), u)"

definition unpackQuestion :: "question unp" where
  "unpackQuestion =
     ubind uMsg (\<lambda>msg.
     ubind uOff (\<lambda>start.
     ubind getName (\<lambda>n.
     ubind uOff (\<lambda>e.
       let raw = (if start < e \<and> e \<le> length msg then take (e - start) (drop start msg) else []) in
       if rawPointer raw 0 then ufail (ErrInvalidMessage ''compression pointer in question section'')
       else
         ubind getUint16 (\<lambda>t.
         ubind getUint16 (\<lambda>c.
         ureturn \<lparr>q_name = n, q_type = t, q_class = c, q_raw = raw\<rparr>))))))"

subsection \<open>Resource records\<close>

definition maxRecordTTLSeconds :: int where
  "maxRecordTTLSeconds = 0x7fffffff"

text \<open>\<open>rr_rd = None\<close> is the nil interface of the zero \<^verbatim>\<open>Record\<close>.\<close>

record rr =
  rr_name :: wname
  rr_class :: u16
  rr_ttl :: duration
  rr_rd :: "rdata option"

definition rrType :: "rr \<Rightarrow> u16" where
  "rrType r = (case rr_rd r of None \<Rightarrow> 0 | Some rd \<Rightarrow> Type rd)"

definition IsZero :: "rr \<Rightarrow> bool" where
  "IsZero r \<longleftrightarrow> rr_rd r = None"

definition NewRecord :: "wname \<Rightarrow> duration \<Rightarrow> rdata \<Rightarrow> rr" where
  "NewRecord n ttl rd = \<lparr>rr_name = n, rr_class = ClassIN, rr_ttl = ttl, rr_rd = Some rd\<rparr>"

definition NewRecordClass :: "wname \<Rightarrow> u16 \<Rightarrow> duration \<Rightarrow> rdata \<Rightarrow> rr" where
  "NewRecordClass n c ttl rd = \<lparr>rr_name = n, rr_class = c, rr_ttl = ttl, rr_rd = Some rd\<rparr>"

text \<open>The record is written with a length field of 0, which is patched once the payload is
  written.  \<^verbatim>\<open>Pack\<close> of the nil interface panics.\<close>

definition packRecord :: "rr \<Rightarrow> packer \<Rightarrow> wire_error + packer" where
  "packRecord r p =
     (if rr_ttl r < 0 then Inl (ErrInvalidTTL ''negative TTL'')
      else if tdiv (rr_ttl r) Second > maxRecordTTLSeconds then
        Inl (ErrInvalidTTL ''TTL exceeds RFC 2308 ceiling (2^31-1 seconds)'')
      else
        let p1 = pseq [putName (rr_name r), putUint16 (rrType r), putUint16 (rr_class r),
                       putUint32 (secs32 (rr_ttl r))] p;
            rdlenAt = length (pbuf p1);
            p2 = putUint16 0 p1;
            startRD = length (pbuf p2)
        in case rr_rd r of
             None \<Rightarrow> Inl (GoPanic ''nil rdata'')
           | Some rd \<Rightarrow>
               let p3 = packRdata rd p2;
                   rdlen = length (pbuf p3) - startRD
               in if rdlen > 0xffff then Inl (ErrInvalidMessage ''rdata too large'')
                  else Inr (patchUint16 rdlenAt (word_of_nat rdlen) p3))"

definition unpackRecord :: "rr unp" where
  "unpackRecord =
     ubind getName (\<lambda>n.
     ubind getUint16 (\<lambda>t16.
     ubind getUint16 (\<lambda>c16.
     ubind getUint32 (\<lambda>ttl0.
       let ttl = (if ttl0 \<ge> push_bit 31 1 then 0 else ttl0) in
       ubind getUint16 (\<lambda>rdlen.
       ubind (Unpack t16 (int (unat rdlen))) (\<lambda>rd.
       ureturn \<lparr>rr_name = n, rr_class = c16, rr_ttl = of_secs ttl, rr_rd = Some rd\<rparr>))))))"

subsection \<open>EDNS\<close>

datatype ednsOption = EDNSOption (opt_code: u16) (opt_data: bytes)

record edns =
  e_udpSize :: u16
  e_extRCODE :: u8
  e_version :: u8
  e_do :: bool
  e_opts :: "ednsOption list"

definition NewEDNSOption :: "u16 \<Rightarrow> bytes \<Rightarrow> wire_error + ednsOption" where
  "NewEDNSOption code data =
     (if length data > 0xffff then Inl (ErrInvalidMessage ''option data exceeds 65535 bytes'')
      else Inr (EDNSOption code data))"

text \<open>\<^verbatim>\<open>EDNSBuilder\<close>: the builder is the payload under construction, \<^verbatim>\<open>Build\<close> returns the result
  together with the builder reset to its defaults.\<close>

definition NewEDNSBuilder :: edns where
  "NewEDNSBuilder = \<lparr>e_udpSize = 1232, e_extRCODE = 0, e_version = 0, e_do = False, e_opts = []\<rparr>"

definition ednsOptionAdd :: "ednsOption \<Rightarrow> edns \<Rightarrow> edns" where
  "ednsOptionAdd opt b = b\<lparr>e_opts := e_opts b @ [opt]\<rparr>"

fun dupCode :: "u16 set \<Rightarrow> ednsOption list \<Rightarrow> bool" where
  "dupCode seen [] = False"
| "dupCode seen (opt # opts) =
     (if opt_code opt \<in> seen then True else dupCode (insert (opt_code opt) seen) opts)"

definition ednsBuild :: "edns \<Rightarrow> (wire_error + edns) \<times> edns" where
  "ednsBuild b =
     (if dupCode {} (e_opts b) then (Inl (ErrOther ''duplicate EDNS option code''), NewEDNSBuilder)
      else (Inr b, NewEDNSBuilder))"

definition optTypeWire :: u16 where
  "optTypeWire = 41"

definition optTTL :: "edns \<Rightarrow> u32" where
  "optTTL e =
     (let ttl = push_bit 24 (ucast (e_extRCODE e)) OR push_bit 16 (ucast (e_version e)) in
      if e_do e then ttl OR push_bit 15 1 else ttl)"

definition putOption :: "ednsOption \<Rightarrow> packer \<Rightarrow> packer" where
  "putOption opt = pseq [putUint16 (opt_code opt), putUint16 (word_of_nat (length (opt_data opt))),
     putRaw (opt_data opt)]"

definition packOPT :: "edns \<Rightarrow> packer \<Rightarrow> wire_error + packer" where
  "packOPT e p =
     (let p1 = pseq [putUint8 0, putUint16 optTypeWire, putUint16 (e_udpSize e), putUint32 (optTTL e)] p;
          rdlenAt = length (pbuf p1);
          p2 = putUint16 0 p1;
          start = length (pbuf p2);
          p3 = fold putOption (e_opts e) p2;
          rdlen = length (pbuf p3) - start
      in if rdlen > 0xffff then Inl (ErrInvalidMessage ''OPT rdata exceeds 65535 bytes'')
         else Inr (patchUint16 rdlenAt (word_of_nat rdlen) p3))"

text \<open>The options are collected together with the codes already seen.\<close>

definition opt_body :: "int \<Rightarrow> u16 set \<times> ednsOption list \<Rightarrow> (u16 set \<times> ednsOption list) unp" where
  "opt_body e = (\<lambda>(seen, opts).
     ubind getUint16 (\<lambda>code.
     ubind getUint16 (\<lambda>l.
     ubind uOff (\<lambda>off.
       if int off + int (unat l) > e then
         ufail (ErrInvalidMessage ''OPT option length would exceed rdata window end'')
       else if code \<in> seen then ufail (ErrInvalidMessage ''duplicate EDNS option code'')
       else
         ubind (getBytes (int (unat l))) (\<lambda>data.
         ureturn (insert code seen, opts @ [EDNSOption code data]))))))"

definition uRemainingR :: "int unp" where
  "uRemainingR u = (Inr (uRemaining u), u)"

definition unpackOPT :: "edns unp" where
  "unpackOPT =
     ubind getName (\<lambda>name.
       if NumLabels name \<noteq> 0 then ufail (ErrInvalidMessage ''OPT NAME must be root'')
       else
         ubind getUint16 (\<lambda>t.
           if t \<noteq> optTypeWire then ufail (ErrInvalidMessage ''expected OPT'')
           else
             ubind getUint16 (\<lambda>udpSize.
             ubind getUint32 (\<lambda>ttl.
             ubind getUint16 (\<lambda>rdlen.
             ubind uRemainingR (\<lambda>remaining.
               if remaining < int (unat rdlen) then ufail (ErrInvalidMessage ''OPT rdata truncated'')
               else
                 ubind uOff (\<lambda>off.
                   let e = int off + int (unat rdlen) in
                   ubind (forOff e (opt_body e) ({}, [])) (\<lambda>acc.
                   ubind uOff (\<lambda>off'.
                     if int off' \<noteq> e then ufail (ErrInvalidMessage ''OPT consumed fewer bytes than rdlen'')
                     else ureturn \<lparr>e_udpSize = udpSize, e_extRCODE = ucast (drop_bit 24 ttl),
                        e_version = ucast (drop_bit 16 ttl), e_do = (ttl AND push_bit 15 1 \<noteq> 0),
                        e_opts = snd acc\<rparr>)))))))))"

subsection \<open>Flags: every accessor reads what its setter wrote, and nothing else changes\<close>

lemma and_single_bit: "f AND push_bit k 1 \<noteq> (0 :: 'a :: len word) \<longleftrightarrow> bit f k"
  by (auto simp: push_bit_eq_mult and_exp_eq_0_iff_not_bit simp del: push_bit_of_1)

lemmas flag_bits =
  and_single_bit [where 'a = 16, of _ 15, folded flagQR_def Response_def]
  and_single_bit [where 'a = 16, of _ 10, folded flagAA_def Authoritative_def]
  and_single_bit [where 'a = 16, of _ 9, folded flagTC_def Truncated_def]
  and_single_bit [where 'a = 16, of _ 8, folded flagRD_def RecursionDesired_def]
  and_single_bit [where 'a = 16, of _ 7, folded flagRA_def RecursionAvailable_def]
  and_single_bit [where 'a = 16, of _ 5, folded flagAD_def AuthenticData_def]
  and_single_bit [where 'a = 16, of _ 4, folded flagCD_def CheckingDisabled_def]

lemma bit_setFlag: "bit (setFlag f (push_bit k 1) v) i \<longleftrightarrow> (if i = k \<and> k < 16 then v else bit f i)"
  by (auto simp: setFlag_def bit_simps dest: bit_imp_le_length)

lemma nibble_mask: "(0x0f :: u16) = mask 4" "(0x0f :: u8) = mask 4"
  by (simp_all add: mask_eq_exp_minus_1)

lemmas nibble_bits = bit_unsigned_iff bit_and_iff bit_or_iff bit_not_iff bit_drop_bit_eq
  bit_push_bit_iff bit_mask_iff possible_bit_word comp_apply

lemma bit_OpcodeOf: "bit (OpcodeOf f) i \<longleftrightarrow> i < 4 \<and> bit f (11 + i)"
  unfolding OpcodeOf_def nibble_mask nibble_bits by auto

lemma bit_RcodeOf: "bit (RcodeOf f) i \<longleftrightarrow> i < 4 \<and> bit f i"
  unfolding RcodeOf_def nibble_mask nibble_bits by auto

lemma bit_WithOpcode:
  "bit (WithOpcode f opc) i \<longleftrightarrow> (if 11 \<le> i \<and> i < 15 then bit opc (i - 11) else bit f i)"
  unfolding WithOpcode_def nibble_mask nibble_bits by (auto dest: bit_imp_le_length)

lemma bit_WithRCODE: "bit (WithRCODE f r) i \<longleftrightarrow> (if i < 4 then bit r i else bit f i)"
  unfolding WithRCODE_def nibble_mask nibble_bits by (auto dest: bit_imp_le_length)

lemmas with_defs = WithResponse_def WithAuthoritative_def WithTruncated_def WithRecursionDesired_def
  WithRecursionAvailable_def WithAuthenticData_def WithCheckingDisabled_def

lemma bit_With:
  "bit (WithResponse f v) i \<longleftrightarrow> (if i = 15 then v else bit f i)"
  "bit (WithAuthoritative f v) i \<longleftrightarrow> (if i = 10 then v else bit f i)"
  "bit (WithTruncated f v) i \<longleftrightarrow> (if i = 9 then v else bit f i)"
  "bit (WithRecursionDesired f v) i \<longleftrightarrow> (if i = 8 then v else bit f i)"
  "bit (WithRecursionAvailable f v) i \<longleftrightarrow> (if i = 7 then v else bit f i)"
  "bit (WithAuthenticData f v) i \<longleftrightarrow> (if i = 5 then v else bit f i)"
  "bit (WithCheckingDisabled f v) i \<longleftrightarrow> (if i = 4 then v else bit f i)"
  unfolding with_defs flag_masks bit_setFlag by auto

lemmas with_bits = bit_With bit_WithOpcode bit_WithRCODE

text \<open>One update and the nine accessors.\<close>

definition flag_fields :: "Flags \<Rightarrow> bool list \<times> u8 \<times> u8" where
  "flag_fields f = ([Response f, Authoritative f, Truncated f, RecursionDesired f, RecursionAvailable f,
     AuthenticData f, CheckingDisabled f], OpcodeOf f, RcodeOf f)"

lemma flag_fields_With:
  "flag_fields (WithResponse f v) = (let (bs, opc, rc) = flag_fields f in (bs[0 := v], opc, rc))"
  "flag_fields (WithAuthoritative f v) = (let (bs, opc, rc) = flag_fields f in (bs[1 := v], opc, rc))"
  "flag_fields (WithTruncated f v) = (let (bs, opc, rc) = flag_fields f in (bs[2 := v], opc, rc))"
  "flag_fields (WithRecursionDesired f v) = (let (bs, opc, rc) = flag_fields f in (bs[3 := v], opc, rc))"
  "flag_fields (WithRecursionAvailable f v) = (let (bs, opc, rc) = flag_fields f in (bs[4 := v], opc, rc))"
  "flag_fields (WithAuthenticData f v) = (let (bs, opc, rc) = flag_fields f in (bs[5 := v], opc, rc))"
  "flag_fields (WithCheckingDisabled f v) = (let (bs, opc, rc) = flag_fields f in (bs[6 := v], opc, rc))"
  "flag_fields (WithOpcode f opc') = (let (bs, opc, rc) = flag_fields f in (bs, opc' AND 0x0f, rc))"
  "flag_fields (WithRCODE f rc') = (let (bs, opc, rc) = flag_fields f in (bs, opc, rc' AND 0x0f))"
  unfolding flag_fields_def flag_bits with_bits nibble_mask
  by (auto simp: with_bits bit_and_iff bit_mask_iff bit_OpcodeOf bit_RcodeOf intro!: bit_word_eqI simp del: mask_numeral)

subsection \<open>Questions\<close>

text \<open>The octets \<open>raw\<close> spell the name \<open>n\<close>, in any case and without compression.\<close>

definition raw_ok :: "wname \<Rightarrow> bytes \<Rightarrow> bool" where
  "raw_ok n raw \<longleftrightarrow> DecodeWireUncompressed raw 0 = Inr (n, length raw)"

lemma rawPointer_names_at:
  "names_at msg off ls h n \<Longrightarrow> start \<le> off \<Longrightarrow>
   rawPointer (take (off + n - start) (drop start msg)) (off - start) \<longleftrightarrow> h \<noteq> 0"
proof (induction rule: names_at.induct)
  case (at_root off)
  then show ?case by (subst rawPointer.simps) (auto simp: nth_append)
next
  case (at_label l off ls h n)
  have "off - start < off + (1 + length l + n) - start" "off + (1 + length l + n) - start \<le> length msg - start"
    using at_label.prems names_at_bound [OF at_label.hyps(5)] by linarith+
  moreover have "\<not> 192 \<le> length l" using label_okD [OF at_label.hyps(1)] by simp
  ultimately show ?case using at_label
    by (subst rawPointer.simps) (auto simp: byte_and_c0_c0 Suc_diff_le ac_simps)
next
  case (at_pointer off ptr ls h n)
  then show ?case by (subst rawPointer.simps) auto
qed

lemma names_at_raw:
  "names_at msg off ls h n \<Longrightarrow> h = 0 \<Longrightarrow> take n (drop off msg) = wire_of ls"
proof (induction rule: names_at.induct)
  case (at_root off)
  then show ?case by (simp add: Cons_nth_drop_Suc [symmetric])
next
  case (at_label l off ls h n)
  have "take (1 + length l + n) (drop off msg) = msg ! off # take (length l + n) (drop (Suc off) msg)"
    using at_label.hyps(2) by (simp add: Cons_nth_drop_Suc [symmetric])
  also have "take (length l + n) (drop (Suc off) msg) =
      take (length l) (drop (Suc off) msg) @ take n (drop (length l) (drop (Suc off) msg))"
    by (rule take_add)
  finally show ?case using at_label by (simp add: add.commute)
qed simp

lemma raw_okE:
  assumes "raw_ok n raw"
  obtains ls where "list_all label_ok ls" "raw = wire_of ls" "length (wire_of ls) \<le> maxNameLen"
    "n = Name (map foldByte (wire_of ls))"
proof -
  from assms obtain ls k where *: "names_at raw 0 ls 0 k" "length (wire_of ls) \<le> maxNameLen"
    "n = Name (map foldByte (wire_of ls))" "length raw = k"
    unfolding raw_ok_def DecodeWireUncompressed_iff by auto
  show thesis
    by (rule that [of ls]) (use * names_at_raw [OF *(1)] names_at_labels_ok [OF *(1)] in auto)
qed

lemma raw_okI:
  assumes "list_all label_ok ls" "length (wire_of ls) \<le> maxNameLen"
  shows "raw_ok (Name (map foldByte (wire_of ls))) (wire_of ls)"
  unfolding raw_ok_def DecodeWireUncompressed_iff
  using assms names_at_wire_of [OF assms(1), of "[]" "[]"] by auto

lemma raw_ok_nm: "raw_ok n raw \<Longrightarrow> nm_ok n"
  unfolding raw_ok_def by (rule DecodeWireUncompressed_nm_ok)

lemma raw_ok_self: "nm_ok n \<Longrightarrow> raw_ok n (wire n)"
  unfolding nm_ok_def canonical_def using raw_okI by (metis wf_nameE wname.sel)

lemma ubind_uMsg [wire_simps]: "ubind uMsg f u = f (umsg u) u"
  by (simp add: ubind_def uMsg_def)

lemma forward_uMsg [safe_intros]: "forward_reader uMsg"
  by (auto intro!: forwardI simp: uMsg_def)

lemma getName_raw:
  assumes "raw_ok n raw"
  shows "ubind getName f (cur_at pre (raw @ s)) = f n (cur_at (pre @ raw) s)"
proof -
  from assms obtain ls where ls: "list_all label_ok ls" "raw = wire_of ls"
    "length (wire_of ls) \<le> maxNameLen" "n = Name (map foldByte (wire_of ls))" by (rule raw_okE)
  have "DecodeWire (pre @ raw @ s) (length pre) = Inr (n, length pre + length raw)"
    unfolding DecodeWire_iff using ls names_at_wire_of [OF ls(1), of pre s]
    by (intro exI [of _ ls] exI [of _ 0] exI [of _ "length raw"]) simp
  then show ?thesis by (simp add: ubind_def getName_def cur_at_adv)
qed

lemma unpackQuestion_at:
  assumes "raw_ok (q_name q) (q_raw q)"
  shows "unpackQuestion (cur_at pre (q_raw q @ be16 (q_type q) @ be16 (q_class q) @ s)) =
    (Inr q, cur_at (pre @ q_raw q @ be16 (q_type q) @ be16 (q_class q)) s)"
proof -
  from assms obtain ls where ls: "list_all label_ok ls" "q_raw q = wire_of ls" by (rule raw_okE)
  have "\<not> rawPointer (q_raw q) 0"
    using rawPointer_names_at [OF names_at_wire_of [OF ls(1), of "[]" "[]"], of 0] ls(2) by simp
  moreover have "0 < length (q_raw q)" using ls(2) by simp
  ultimately show ?thesis
    by (simp add: unpackQuestion_def wire_simps getName_raw [OF assms] Let_def del: length_greater_0_conv)
qed

lemma forward_unpackQuestion [safe_intros]: "forward_reader unpackQuestion"
  unfolding unpackQuestion_def Let_def by (intro safe_intros) simp

lemma unpackQuestion_ok:
  assumes "unpackQuestion u = (Inr q, u')" "uoff u \<le> length (umsg u)"
  shows "raw_ok (q_name q) (q_raw q)"
proof -
  obtain n nx where n: "DecodeWire (umsg u) (uoff u) = Inr (n, nx)"
    and q: "q_name q = n" "q_raw q = take (nx - uoff u) (drop (uoff u) (umsg u))" "\<not> rawPointer (q_raw q) 0"
    using assms
    by (auto simp: unpackQuestion_def wire_simps ubind_def [of getName] getName_def ubind_def [of uOff]
        uOff_def Let_def ubind_def [of getUint16] ufail_def ureturn_def dest!: DecodeWire_next
        split: sum.splits prod.splits if_splits)
  from n obtain ls h k where ls: "names_at (umsg u) (uoff u) ls h k" "length (wire_of ls) \<le> maxNameLen"
    "n = Name (map foldByte (wire_of ls))" "nx = uoff u + k"
    unfolding DecodeWire_iff by blast
  have "h = 0" using rawPointer_names_at [OF ls(1), of "uoff u"] q(2,3) ls(4) by simp
  then show ?thesis
    using q names_at_raw [OF ls(1)] ls raw_okI [OF names_at_labels_ok [OF ls(1)] ls(2)] by simp
qed

subsection \<open>Records\<close>

text \<open>A record that can be written: its payload is one that the decoder returns.\<close>

definition rr_wf :: "rr \<Rightarrow> bool" where
  "rr_wf r \<longleftrightarrow> nm_ok (rr_name r) \<and> (case rr_rd r of None \<Rightarrow> False | Some rd \<Rightarrow> validRdata rd)"

text \<open>No compressed name of the record has more labels than the decoder follows pointers.\<close>

definition rr_few :: "rr \<Rightarrow> bool" where
  "rr_few r \<longleftrightarrow> few_labels (rr_name r) \<and>
     (case rr_rd r of None \<Rightarrow> True | Some rd \<Rightarrow> list_all few_labels (cnames rd))"

text \<open>What the record is read back as: the TTL in whole seconds, an empty payload as unknown.\<close>

definition rr_norm :: "rr \<Rightarrow> rr" where
  "rr_norm r = r\<lparr>rr_ttl := of_secs (secs32 (rr_ttl r)), rr_rd := map_option normRdata (rr_rd r)\<rparr>"

lemma packRecord_cases:
  assumes "packRecord r p = Inr p'"
  obtains rd p1 l where "rr_rd r = Some rd" "0 \<le> rr_ttl r" "tdiv (rr_ttl r) Second \<le> maxRecordTTLSeconds"
    "p1 = pseq [putName (rr_name r), putUint16 (Type rd), putUint16 (rr_class r), putUint32 (secs32 (rr_ttl r))] p"
    "l = length (pbuf p') - (length (pbuf p1) + 2)" "l \<le> 65535"
    "p' = packRdata rd (putUint16 (word_of_nat l) p1)"
proof -
  let ?p1 = "\<lambda>rd. pseq [putName (rr_name r), putUint16 (Type rd), putUint16 (rr_class r),
        putUint32 (secs32 (rr_ttl r))] p"
  obtain rd where rd: "rr_rd r = Some rd" using assms by (auto simp: packRecord_def Let_def split: if_splits option.splits)
  define l where "l = length (pbuf (packRdata rd (putUint16 0 (?p1 rd)))) - (length (pbuf (?p1 rd)) + 2)"
  have t: "0 \<le> rr_ttl r" "tdiv (rr_ttl r) Second \<le> maxRecordTTLSeconds" and l: "l \<le> 65535"
    and p': "p' = patchUint16 (length (pbuf (?p1 rd))) (word_of_nat l) (packRdata rd (putUint16 0 (?p1 rd)))"
    using assms rd by (auto simp: packRecord_def rrType_def Let_def l_def putUint16_def [of 0] split: if_splits)
  have "length (pbuf p') = length (pbuf (packRdata rd (putUint16 0 (?p1 rd))))"
    using pack_rdata.length_grows [of "putUint16 0 (?p1 rd)" rd]
    unfolding p' by (simp add: patchUint16_def putUint16_def [of 0])
  with p' l show thesis
    by (intro that [OF rd t refl _ l]) (simp_all add: l_def pack_rdata.backfill)
qed

lemma secs32_small:
  assumes "0 \<le> d" "tdiv d Second \<le> maxRecordTTLSeconds"
  shows "\<not> secs32 d \<ge> push_bit 31 1" "of_secs (secs32 d) = d div Second * Second"
proof -
  have *: "tdiv d Second = d div Second" "0 \<le> d div Second" "d div Second < 2 ^ 31"
    using assms by (simp_all add: tdiv_nonneg maxRecordTTLSeconds_def pos_imp_zdiv_nonneg_iff)
  then have u: "uint (secs32 d) = d div Second"
    by (simp add: secs32_def uint_word_of_int take_bit_int_eq_self)
  show "\<not> secs32 d \<ge> push_bit 31 1" using * u by (simp add: word_le_def)
  show "of_secs (secs32 d) = d div Second * Second" using u by (simp add: of_secs_def)
qed

lemma unpackRecord_at:
  assumes "name_reads pre enc n" "Unpack t (int (length rde)) (cur_at (pre @ enc @ be16 t @ be16 c @ be32 ttl @ be16 (word_of_nat (length rde))) (rde @ s)) =
      (Inr rd, u)" "length rde \<le> 65535" "\<not> ttl \<ge> push_bit 31 1"
  shows "unpackRecord (cur_at pre (enc @ be16 t @ be16 c @ be32 ttl @ be16 (word_of_nat (length rde)) @ rde @ s)) =
    (Inr \<lparr>rr_name = n, rr_class = c, rr_ttl = of_secs ttl, rr_rd = Some rd\<rparr>, u)"
  using assms(1,3,4)
  by (simp add: unpackRecord_def wire_simps Let_def ubind_InrI [of "Unpack t (int (length rde))", OF assms(2)])

lemma packRecord_reads:
  assumes "packRecord r p = Inr p'" "rr_wf r" "rr_few r" "comp_ok p"
  obtains enc where "pbuf p' = pbuf p @ enc" "comp_ok p'"
    "\<And>s. unpackRecord (cur_at (pbuf p) (enc @ s)) = (Inr (rr_norm r), cur_at (pbuf p @ enc) s)"
proof -
  obtain rd p1 l where rd: "rr_rd r = Some rd" and ttl: "0 \<le> rr_ttl r" "tdiv (rr_ttl r) Second \<le> maxRecordTTLSeconds"
    and p1: "p1 = pseq [putName (rr_name r), putUint16 (Type rd), putUint16 (rr_class r), putUint32 (secs32 (rr_ttl r))] p"
    and l: "l = length (pbuf p') - (length (pbuf p1) + 2)" "l \<le> 65535"
    and p': "p' = packRdata rd (putUint16 (word_of_nat l) p1)"
    using assms(1) by (rule packRecord_cases)
  have v: "nm_ok (rr_name r)" "few_labels (rr_name r)" "validRdata rd" "list_all few_labels (cnames rd)"
    using assms(2,3) rd by (simp_all add: rr_wf_def rr_few_def)
  obtain ne where ne: "pbuf (putName (rr_name r) p) = pbuf p @ ne" "comp_ok (putName (rr_name r) p)"
    "name_reads (pbuf p) ne (rr_name r)"
    by (rule putName_reads [OF v(1,2) assms(4)]) blast
  define hd where "hd = be16 (Type rd) @ be16 (rr_class r) @ be32 (secs32 (rr_ttl r))"
  define p2 where "p2 = putUint16 (word_of_nat l) p1"
  have p1': "pbuf p1 = pbuf p @ ne @ hd" using ne(1) by (simp add: p1 wire_simps hd_def)
  then have p2: "pbuf p2 = pbuf p @ ne @ hd @ be16 (word_of_nat l)" by (simp add: p2_def wire_simps)
  have "comp_ok p2" using ne(2) by (simp add: p2_def p1 wire_simps)
  obtain re where re: "pbuf (packRdata rd p2) = pbuf p2 @ re" "comp_ok (packRdata rd p2)"
    "\<And>s. Unpack (Type rd) (int (length re)) (cur_at (pbuf p2) (re @ s)) = (Inr (normRdata rd), cur_at (pbuf p2 @ re) s)"
    by (rule Unpack_norm [OF v(3,4) \<open>comp_ok p2\<close>]) blast
  have b: "pbuf p' = pbuf p @ (ne @ hd @ be16 (word_of_nat l) @ re)" using re(1) p2 unfolding p' p2_def by simp
  have lr: "length re = l" by (subst l(1)) (simp add: b p1')
  show thesis
  proof (rule that)
    show "pbuf p' = pbuf p @ (ne @ hd @ be16 (word_of_nat l) @ re)" by (fact b)
    show "comp_ok p'" using re(2) unfolding p' p2_def .
    fix s
    have "unpackRecord (cur_at (pbuf p) (ne @ be16 (Type rd) @ be16 (rr_class r) @ be32 (secs32 (rr_ttl r)) @
        be16 (word_of_nat (length re)) @ re @ s)) = (Inr \<lparr>rr_name = rr_name r, rr_class = rr_class r,
          rr_ttl = of_secs (secs32 (rr_ttl r)), rr_rd = Some (normRdata rd)\<rparr>, cur_at (pbuf p2 @ re) s)"
      using re(3) [of s] p2 lr l(2) secs32_small(1) [OF ttl]
      by (intro unpackRecord_at [OF ne(3)]) (simp_all add: hd_def)
    then show "unpackRecord (cur_at (pbuf p) ((ne @ hd @ be16 (word_of_nat l) @ re) @ s)) =
        (Inr (rr_norm r), cur_at (pbuf p @ ne @ hd @ be16 (word_of_nat l) @ re) s)"
      using lr p2 rd by (simp add: rr_norm_def hd_def)
  qed
qed

lemma forward_unpackRecord [safe_intros]: "forward_reader unpackRecord"
  unfolding unpackRecord_def Let_def by (intro safe_intros)

lemma unpackRecord_inv:
  assumes "unpackRecord u = (Inr r, u')"
  obtains n u1 u2 where "getName u = (Inr n, u1)" "getUint16 u1 = (Inr (rrType r), u2)"
    "rr_wf r" "0 \<le> rr_ttl r" "rr_ttl r \<le> maxRecordTTLSeconds * Second" "Second dvd rr_ttl r"
proof -
  obtain n u1 t u2 c ttl0 rdlen rd u5 where *: "getName u = (Inr n, u1)" "getUint16 u1 = (Inr t, u2)"
    "Unpack t (int (unat (rdlen :: u16))) u5 = (Inr rd, u')"
    "r = \<lparr>rr_name = n, rr_class = c, rr_ttl = of_secs (if ttl0 \<ge> push_bit 31 1 then 0 else ttl0), rr_rd = Some rd\<rparr>"
    using assms unfolding unpackRecord_def Let_def ubind_def ureturn_def
    by (auto split: prod.splits sum.splits)
  have "nm_ok n" using yields_names(1) *(1) unfolding yields_def by blast
  moreover have "Type rd = t \<and> validRdata rd" using Unpack_ok(1) [OF *(3)] .
  moreover have "uint (if ttl0 \<ge> push_bit 31 1 then 0 else ttl0 :: u32) \<le> maxRecordTTLSeconds"
    by (auto simp: maxRecordTTLSeconds_def word_le_def)
  ultimately show thesis
    using * by (intro that [OF *(1)]) (auto simp: rrType_def rr_wf_def of_secs_def mult_nonneg_nonneg less_imp_le)
qed

subsection \<open>The OPT record\<close>

definition enc_opt :: "ednsOption \<Rightarrow> bytes" where
  "enc_opt opt = be16 (opt_code opt) @ be16 (word_of_nat (length (opt_data opt))) @ opt_data opt"

definition opt_add :: "u16 set \<times> ednsOption list \<Rightarrow> ednsOption \<Rightarrow> u16 set \<times> ednsOption list" where
  "opt_add acc opt = (insert (opt_code opt) (fst acc), snd acc @ [opt])"

definition opt_ok :: "u16 set \<times> ednsOption list \<Rightarrow> ednsOption \<Rightarrow> bool" where
  "opt_ok acc opt \<longleftrightarrow> opt_code opt \<notin> fst acc \<and> length (opt_data opt) < 65536"

lemma opt_wire:
  assumes "\<And>opt. opt \<in> set opts \<Longrightarrow> length (opt_data opt) < 65536"
  shows "fold putOption opts p = putRaw (concat (map enc_opt opts)) p"
  using assms
  by (induction opts arbitrary: p) (simp_all add: putOption_def enc_opt_def wire_simps, simp add: putRaw_def)

lemma dupCode_iff: "dupCode seen opts \<longleftrightarrow> \<not> (distinct (map opt_code opts) \<and> set (map opt_code opts) \<inter> seen = {})"
  by (induction seen opts rule: dupCode.induct) auto

lemma forward_opt_body: "forward_reader (opt_body e acc)"
  unfolding opt_body_def by (cases acc) (auto intro!: safe_intros)

interpretation options: item_codec opt_body enc_opt opt_add opt_ok
proof unfold_locales
  fix e acc opt s and pre :: bytes
  assume "opt_ok acc opt" "int (length pre) + int (length (enc_opt opt)) \<le> e"
  then show "opt_body e acc (cur_at pre (enc_opt opt @ s)) = (Inr (opt_add acc opt), cur_at (pre @ enc_opt opt) s)"
    by (cases acc; cases opt) (simp add: opt_body_def enc_opt_def opt_ok_def opt_add_def wire_simps)
next
  fix e acc acc' u u'
  assume u: "uoff u \<le> length (umsg u)" "opt_body e acc u = (Inr acc', u')"
  have "strict_reader (opt_body e acc)"
    unfolding opt_body_def by (cases acc) (auto intro!: strict_intros safe_intros)
  with u show "uoff u < uoff u'" unfolding strict_reader_def by blast
next
  fix acc opt assume "opt_ok acc opt"
  have "length (enc_opt opt) \<noteq> 0" by (simp add: enc_opt_def)
  then show "enc_opt opt \<noteq> []" by fastforce
qed (rule forward_opt_body)

lemma opts_items_ok:
  "distinct (map opt_code opts) \<Longrightarrow> \<forall>opt \<in> set opts. opt_code opt \<notin> fst acc \<and> length (opt_data opt) < 65536 \<Longrightarrow>
   items_ok opt_ok opt_add acc opts"
proof (induction opts arbitrary: acc)
  case (Cons opt opts)
  from Cons.prems have "items_ok opt_ok opt_add (opt_add acc opt) opts"
    by (intro Cons.IH) (auto simp: opt_add_def image_iff)
  with Cons.prems show ?case by (simp add: opt_ok_def [of acc opt])
qed simp

lemma foldl_opt_add: "snd (foldl opt_add acc opts) = snd acc @ opts"
  by (induction opts arbitrary: acc) (auto simp: opt_add_def)

lemma optTTL_fields:
  "ucast (drop_bit 24 (optTTL e)) = e_extRCODE e" "ucast (drop_bit 16 (optTTL e)) = e_version e"
  "optTTL e AND push_bit 15 1 \<noteq> 0 \<longleftrightarrow> e_do e"
proof -
  have b: "bit (optTTL e) i \<longleftrightarrow> 24 \<le> i \<and> bit (e_extRCODE e) (i - 24) \<or> 16 \<le> i \<and> bit (e_version e) (i - 16) \<or> i = 15 \<and> e_do e" for i
    unfolding optTTL_def Let_def by (cases "e_do e") (auto simp: bit_simps simp del: push_bit_of_1 dest: bit_imp_le_length)
  show "ucast (drop_bit 24 (optTTL e)) = e_extRCODE e" "ucast (drop_bit 16 (optTTL e)) = e_version e"
    by (rule bit_eqI; auto simp: bit_simps b dest: bit_imp_le_length)+
  have "optTTL e AND push_bit 15 1 \<noteq> 0 \<longleftrightarrow> bit (optTTL e) 15"
    by (rule and_single_bit)
  then show "optTTL e AND push_bit 15 1 \<noteq> 0 \<longleftrightarrow> e_do e" by (simp add: b)
qed

lemma ubind_uRemaining [wire_simps]: "ubind uRemainingR f u = f (uRemaining u) u"
  by (simp add: ubind_def uRemainingR_def)

lemma forward_uRemaining [safe_intros]: "forward_reader uRemainingR"
  by (auto intro!: forwardI simp: uRemainingR_def)

lemma appender_putOptions: "appender_op (fold putOption opts)"
  unfolding putOption_def by (intro append_intros)

interpretation put_options: appender "fold putOption opts" for opts
  by unfold_locales (rule appender_putOptions)

lemma length_putOptions:
  "length (pbuf (fold putOption opts p)) = length (pbuf p) + (\<Sum>opt \<leftarrow> opts. 4 + length (opt_data opt))"
  by (induction opts arbitrary: p) (simp_all add: putOption_def wire_simps)

lemma packOPT_reads:
  assumes "packOPT e p = Inr p'" "distinct (map opt_code (e_opts e))" "comp_ok p"
  obtains enc where "pbuf p' = pbuf p @ 0 # be16 optTypeWire @ enc" "comp_ok p'"
    "\<And>s. unpackOPT (cur_at (pbuf p) (0 # be16 optTypeWire @ enc @ s)) = (Inr e, cur_at (pbuf p @ 0 # be16 optTypeWire @ enc) s)"
proof -
  define l where "l = (\<Sum>opt \<leftarrow> e_opts e. 4 + length (opt_data opt))"
  define hd where "hd = be16 (e_udpSize e) @ be32 (optTTL e) @ be16 (word_of_nat l)"
  define es where "es = concat (map enc_opt (e_opts e))"
  have l: "l \<le> 65535"
    using assms(1) by (auto simp: packOPT_def Let_def length_putOptions l_def split: if_splits)
  have small: "length (opt_data opt) < 65536" if "opt \<in> set (e_opts e)" for opt
    using member_le_sum_list [of "4 + length (opt_data opt)" "map (\<lambda>opt. 4 + length (opt_data opt)) (e_opts e)"] that l
    by (auto simp: l_def)
  have es: "length es = l" by (simp add: es_def l_def length_concat enc_opt_def comp_def numeral_eq_Suc)
  have "p' = fold putOption (e_opts e) (putUint16 (word_of_nat l)
      (pseq [putUint8 0, putUint16 optTypeWire, putUint16 (e_udpSize e), putUint32 (optTTL e)] p))"
    using assms(1) by (auto simp: packOPT_def Let_def length_putOptions l_def put_options.backfill split: if_splits)
  also have "\<dots> = putRaw ((0 # be16 optTypeWire @ hd) @ es) p"
    using opt_wire [OF small] by (simp add: wire_simps hd_def es_def)
  finally have p': "p' = putRaw ((0 # be16 optTypeWire @ hd) @ es) p" .
  have items: "items_ok opt_ok opt_add ({}, []) (e_opts e)"
    using assms(2) small by (intro opts_items_ok) auto
  have root: "ubind getName f (cur_at pre (0 # s)) = f Root (cur_at (pre @ [0]) s)" for f :: "wname \<Rightarrow> edns unp" and pre s
    using getName_raw [OF raw_ok_self [OF nm_ok_Root], of f pre s] by (simp add: Root_def)
  show thesis
  proof (rule that)
    show "pbuf p' = pbuf p @ 0 # be16 optTypeWire @ (hd @ es)" by (simp add: p' wire_simps)
    show "comp_ok p'" using assms(3) by (simp add: p')
    fix s
    let ?pre = "pbuf p @ 0 # be16 optTypeWire @ hd"
    have "ubind (forOff (int (length ?pre) + int l) (opt_body (int (length ?pre) + int l)) ({}, [])) f (cur_at ?pre (es @ s)) =
        f (foldl opt_add ({}, []) (e_opts e)) (cur_at (?pre @ es) s)" for f :: "u16 set \<times> ednsOption list \<Rightarrow> edns unp"
      unfolding es_def using es by (intro ubind_InrI options.forOff_items [OF items]) (simp add: es_def)
    then show "unpackOPT (cur_at (pbuf p) (0 # be16 optTypeWire @ (hd @ es) @ s)) =
        (Inr e, cur_at (pbuf p @ 0 # be16 optTypeWire @ (hd @ es)) s)"
      using l es
      by (simp add: unpackOPT_def root wire_simps NumLabels_eq Let_def hd_def uRemaining_def foldl_opt_add
          optTTL_fields del: push_bit_of_1)
  qed
qed

lemma forward_unpackOPT [safe_intros]: "forward_reader unpackOPT"
  unfolding unpackOPT_def Let_def by (intro safe_intros options.forward_forOff) simp_all

lemma yields_opts: "yields (forOff e (opt_body e) ({}, []))
  (\<lambda>acc. fst acc = opt_code ` set (snd acc) \<and> distinct (map opt_code (snd acc)) \<and>
     list_all (\<lambda>opt. length (opt_data opt) < 65536) (snd acc))"
proof (rule yields_forOff)
  fix acc :: "u16 set \<times> ednsOption list"
  assume acc: "fst acc = opt_code ` set (snd acc) \<and> distinct (map opt_code (snd acc)) \<and>
     list_all (\<lambda>opt. length (opt_data opt) < 65536) (snd acc)"
  obtain seen opts where a: "acc = (seen, opts)" by (cases acc)
  have "length v < 65536" if "int (length v) = int (unat (l :: u16))" for v :: bytes and l
    using that unat_u16_less [of l] by linarith
  with acc show "yields (opt_body e acc) (\<lambda>acc. fst acc = opt_code ` set (snd acc) \<and> distinct (map opt_code (snd acc)) \<and>
     list_all (\<lambda>opt. length (opt_data opt) < 65536) (snd acc))"
    unfolding a opt_body_def prod.case by (intro yields_rules) simp
qed simp

lemma unpackOPT_ok:
  "yields unpackOPT (\<lambda>e. distinct (map opt_code (e_opts e)) \<and> list_all (\<lambda>opt. length (opt_data opt) < 65536) (e_opts e))"
  unfolding unpackOPT_def Let_def
  by (intro yields_rules yields_bind [OF yields_opts] yields_bind [where m = uRemainingR, OF yields_any]) simp

end
