(* ===== verification/Wire_Message.thy ===== *)
theory Wire_Message
  imports Wire_Record
begin

text \<open>
  DNS messages (\<^verbatim>\<open>wire/dnsmsg.go\<close>) and their construction (\<^verbatim>\<open>wire/builder.go\<close>).  \<open>PackMsg\<close> and
  \<open>UnpackMsg\<close> are \<^verbatim>\<open>wire.Pack\<close> and \<^verbatim>\<open>wire.Unpack\<close>.  The theory shows that unpacking inverts
  packing, that unpacking terminates on every input with a well-formed message or with an error that
  carries the section and an offset inside the input, and what the allocation bound of the decoder
  guarantees.
\<close>

text \<open>The fields \<^verbatim>\<open>edns\<close> and \<^verbatim>\<open>hasEDNS\<close> of \<^verbatim>\<open>Message\<close> are one option.\<close>

record message =
  m_id :: u16
  m_flags :: Flags
  m_questions :: "question list"
  m_answers :: "rr list"
  m_authorities :: "rr list"
  m_additionals :: "rr list"
  m_edns :: "edns option"

definition WithID :: "message \<Rightarrow> u16 \<Rightarrow> message" where
  "WithID m ident = m\<lparr>m_id := ident\<rparr>"

subsection \<open>Packing\<close>

fun packRecords :: "rr list \<Rightarrow> packer \<Rightarrow> wire_error + packer" where
  "packRecords [] p = Inr p"
| "packRecords (r # rs) p = ebind (packRecord r p) (packRecords rs)"

definition arCount :: "message \<Rightarrow> nat" where
  "arCount m = length (m_additionals m) + (if m_edns m \<noteq> None then 1 else 0)"

definition packHeader :: "message \<Rightarrow> packer \<Rightarrow> packer" where
  "packHeader m = pseq
     [putUint16 (m_id m), putUint16 (m_flags m), putUint16 (word_of_nat (length (m_questions m))),
      putUint16 (word_of_nat (length (m_answers m))), putUint16 (word_of_nat (length (m_authorities m))),
      putUint16 (word_of_nat (arCount m))]"

definition PackMsg :: "message \<Rightarrow> wire_error + bytes" where
  "PackMsg m =
     (if length (m_questions m) > 0xffff \<or> length (m_answers m) > 0xffff \<or>
         length (m_authorities m) > 0xffff \<or> length (m_additionals m) > 0xffff
      then Inl (ErrInvalidMessage ''section count overflow'')
      else
        ebind (packRecords (m_answers m) (fold packQuestion (m_questions m) (packHeader m (NewPacker [])))) (\<lambda>p1.
        ebind (packRecords (m_authorities m) p1) (\<lambda>p2.
        ebind (packRecords (m_additionals m) p2) (\<lambda>p3.
        ebind (case m_edns m of None \<Rightarrow> Inr p3 | Some e \<Rightarrow> packOPT e p3) (\<lambda>p4.
          if length (pbuf p4) > 0xffff then Inl (ErrInvalidMessage ''message exceeds wire limit (65535)'')
          else Inr (pbuf p4))))))"

subsection \<open>Unpacking\<close>

definition minQuestionSize :: int where "minQuestionSize = 5"
definition minRecordSize :: int where "minRecordSize = 11"

text \<open>The capacity the decoder reserves for a section.\<close>

definition clampCount :: "int \<Rightarrow> int \<Rightarrow> int \<Rightarrow> int" where
  "clampCount n remaining minSize =
     (if minSize \<le> 0 \<or> remaining \<le> 0 then 0
      else let upper = tdiv remaining minSize in if n > upper then upper else n)"

text \<open>\<^verbatim>\<open>NewMessageParseError(section, i, u.Off(), err)\<close> around a failing reader.\<close>

definition wrapErr :: "section_id \<Rightarrow> nat \<Rightarrow> 'a unp \<Rightarrow> 'a unp" where
  "wrapErr sec i m u =
     (case m u of
        (Inl e, u') \<Rightarrow> (Inl (MessageParseError sec (int i) (uoff u') e), u')
      | (Inr x, u') \<Rightarrow> (Inr x, u'))"

fun unpackSeq :: "section_id \<Rightarrow> 'a unp \<Rightarrow> nat \<Rightarrow> nat \<Rightarrow> 'a list \<Rightarrow> 'a list unp" where
  "unpackSeq sec m i 0 out = ureturn out"
| "unpackSeq sec m i (Suc n) out = ubind (wrapErr sec i m) (\<lambda>x. unpackSeq sec m (i + 1) n (out @ [x]))"

definition unpackRRs :: "nat \<Rightarrow> section_id \<Rightarrow> rr list unp" where
  "unpackRRs n sec = unpackSeq sec unpackRecord 0 n []"

text \<open>One iteration of \<^verbatim>\<open>unpackAdditionals\<close>: the type of the record is read ahead, then the offset is
  restored.\<close>

definition additional_step :: "nat \<Rightarrow> edns option \<times> rr list \<Rightarrow> (edns option \<times> rr list) unp" where
  "additional_step i acc u =
     ubind (wrapErr SectionAdditional i getName) (\<lambda>_.
     ubind (wrapErr SectionAdditional i getUint16) (\<lambda>t u2.
       let u3 = u2\<lparr>uoff := uoff u\<rparr> in
       if t = optTypeWire then
         (if fst acc \<noteq> None then
            (Inl (MessageParseError SectionOPT (int i) (uoff u) (ErrOther ''multiple OPT pseudo-RRs'')), u3)
          else ubind (wrapErr SectionOPT i unpackOPT) (\<lambda>e. ureturn (Some e, snd acc)) u3)
       else ubind (wrapErr SectionAdditional i unpackRecord) (\<lambda>r. ureturn (fst acc, snd acc @ [r])) u3)) u"

fun unpackAdditionals :: "nat \<Rightarrow> nat \<Rightarrow> edns option \<times> rr list \<Rightarrow> (edns option \<times> rr list) unp" where
  "unpackAdditionals i 0 acc = ureturn acc"
| "unpackAdditionals i (Suc n) acc = ubind (additional_step i acc) (unpackAdditionals (i + 1) n)"

text \<open>After the length check the six header reads cannot fail, and the sources ignore their errors.\<close>

definition UnpackMsg :: "bytes \<Rightarrow> wire_error + message" where
  "UnpackMsg buf =
     (if length buf < 12 then
        Inl (MessageParseError SectionHeader (- 1) (length buf) (ErrOther ''header too short''))
      else fst (
        ubind getUint16 (\<lambda>ident.
        ubind getUint16 (\<lambda>flags.
        ubind getUint16 (\<lambda>qdcount.
        ubind getUint16 (\<lambda>ancount.
        ubind getUint16 (\<lambda>nscount.
        ubind getUint16 (\<lambda>arcount.
        ubind (unpackSeq SectionQuestion unpackQuestion 0 (unat qdcount) []) (\<lambda>questions.
        ubind (unpackRRs (unat ancount) SectionAnswer) (\<lambda>answers.
        ubind (unpackRRs (unat nscount) SectionAuthority) (\<lambda>authorities.
        ubind (unpackAdditionals 0 (unat arcount) (None, [])) (\<lambda>additionals.
          ureturn \<lparr>m_id = ident, m_flags = flags, m_questions = questions, m_answers = answers,
            m_authorities = authorities, m_additionals = snd additionals, m_edns = fst additionals\<rparr>))))))))))
        (NewUnpacker buf)))"

subsection \<open>The builder\<close>

text \<open>\<^verbatim>\<open>MessageBuilder\<close>: the message under construction and the first error.\<close>

record builder =
  b_msg :: message
  b_err :: "wire_error option"

definition emptyMessage :: message where
  "emptyMessage = \<lparr>m_id = 0, m_flags = 0, m_questions = [], m_answers = [], m_authorities = [],
     m_additionals = [], m_edns = None\<rparr>"

definition NewMessageBuilder :: builder where
  "NewMessageBuilder = \<lparr>b_msg = emptyMessage, b_err = None\<rparr>"

definition setErr :: "wire_error \<Rightarrow> builder \<Rightarrow> builder" where
  "setErr e b = (if b_err b = None then b\<lparr>b_err := Some e\<rparr> else b)"

definition bID :: "u16 \<Rightarrow> builder \<Rightarrow> builder" where
  "bID v b = b\<lparr>b_msg := (b_msg b)\<lparr>m_id := v\<rparr>\<rparr>"

text \<open>\<^verbatim>\<open>Flags\<close>, \<^verbatim>\<open>Response\<close>, \<^verbatim>\<open>Opcode\<close>, ..., \<^verbatim>\<open>RCODE\<close> all update the flag word: \<open>f\<close> is the update.\<close>

definition bFlags :: "(Flags \<Rightarrow> Flags) \<Rightarrow> builder \<Rightarrow> builder" where
  "bFlags f b = b\<lparr>b_msg := (b_msg b)\<lparr>m_flags := f (m_flags (b_msg b))\<rparr>\<rparr>"

definition bQuestion :: "question \<Rightarrow> builder \<Rightarrow> builder" where
  "bQuestion q b = b\<lparr>b_msg := (b_msg b)\<lparr>m_questions := m_questions (b_msg b) @ [q]\<rparr>\<rparr>"

definition bAnswer :: "rr \<Rightarrow> builder \<Rightarrow> builder" where
  "bAnswer r b =
     (if IsZero r then setErr (ErrOther ''MessageBuilder.Answer received zero Record'') b
      else b\<lparr>b_msg := (b_msg b)\<lparr>m_answers := m_answers (b_msg b) @ [r]\<rparr>\<rparr>)"

definition bAuthority :: "rr \<Rightarrow> builder \<Rightarrow> builder" where
  "bAuthority r b =
     (if IsZero r then setErr (ErrOther ''MessageBuilder.Authority received zero Record'') b
      else b\<lparr>b_msg := (b_msg b)\<lparr>m_authorities := m_authorities (b_msg b) @ [r]\<rparr>\<rparr>)"

definition bAdditional :: "rr \<Rightarrow> builder \<Rightarrow> builder" where
  "bAdditional r b =
     (if IsZero r then setErr (ErrOther ''MessageBuilder.Additional received zero Record'') b
      else b\<lparr>b_msg := (b_msg b)\<lparr>m_additionals := m_additionals (b_msg b) @ [r]\<rparr>\<rparr>)"

definition bEDNS :: "edns \<Rightarrow> builder \<Rightarrow> builder" where
  "bEDNS e b = b\<lparr>b_msg := (b_msg b)\<lparr>m_edns := Some e\<rparr>\<rparr>"

definition Build :: "builder \<Rightarrow> (wire_error + message) \<times> builder" where
  "Build b =
     (case b_err b of
        Some e \<Rightarrow> (Inl e, NewMessageBuilder)
      | None \<Rightarrow> (Inr (b_msg b), NewMessageBuilder))"

subsection \<open>Unpacking inverts packing\<close>

definition reads_at :: "bytes \<Rightarrow> bytes \<Rightarrow> 'a unp \<Rightarrow> 'a \<Rightarrow> bool" where
  "reads_at pre enc m x \<longleftrightarrow> (\<forall>s. m (cur_at pre (enc @ s)) = (Inr x, cur_at (pre @ enc) s))"

lemma reads_at_return: "reads_at pre [] (ureturn x) x"
  by (simp add: reads_at_def ureturn_def)

lemma reads_at_bind:
  "reads_at pre a m x \<Longrightarrow> reads_at (pre @ a) b (f x) y \<Longrightarrow> reads_at pre (a @ b) (ubind m f) y"
  by (simp add: reads_at_def ubind_def)

lemma reads_at_wrap: "reads_at pre a m x \<Longrightarrow> reads_at pre a (wrapErr sec i m) x"
  by (simp add: reads_at_def wrapErr_def)

lemma reads_at_u16: "reads_at pre (be16 v) getUint16 v"
  by (simp add: reads_at_def wire_simps)

text \<open>Questions and records in the form in which they come back.\<close>

definition q_ok :: "question \<Rightarrow> bool" where
  "q_ok q \<longleftrightarrow> nm_ok (q_name q) \<and> (q_raw q = [] \<or> raw_ok (q_name q) (q_raw q))"

definition q_norm :: "question \<Rightarrow> question" where
  "q_norm q = (if q_raw q = [] then q\<lparr>q_raw := wire (q_name q)\<rparr> else q)"

definition q_enc :: "question \<Rightarrow> bytes" where
  "q_enc q = q_raw (q_norm q) @ be16 (q_type q) @ be16 (q_class q)"

lemma packQuestion_raw: "q_ok q \<Longrightarrow> packQuestion q = putRaw (q_enc q)"
  by (auto simp: packQuestion_def q_enc_def q_norm_def q_ok_def wire_simps)

lemma unpackQuestion_norm: "q_ok q \<Longrightarrow> reads_at pre (q_enc q) unpackQuestion (q_norm q)"
  using unpackQuestion_at [of "q_norm q"] raw_ok_self
  by (auto simp: reads_at_def q_enc_def q_norm_def q_ok_def split: if_splits)

lemma fold_packQuestion: "list_all q_ok qs \<Longrightarrow> fold packQuestion qs p = putRaw (concat (map q_enc qs)) p"
  by (induction qs arbitrary: p) (simp_all add: packQuestion_raw wire_simps, simp add: putRaw_def)

lemma unpackSeq_questions:
  "list_all q_ok qs \<Longrightarrow> n = length qs \<Longrightarrow>
   reads_at pre (concat (map q_enc qs)) (unpackSeq sec unpackQuestion i n out) (out @ map q_norm qs)"
proof (induction qs arbitrary: pre n i out)
  case (Cons q qs)
  have "reads_at (pre @ q_enc q) (concat (map q_enc qs))
      (unpackSeq sec unpackQuestion (i + 1) (length qs) (out @ [q_norm q])) ((out @ [q_norm q]) @ map q_norm qs)"
    using Cons.prems by (intro Cons.IH) auto
  with Cons.prems show ?case
    by (auto intro!: reads_at_bind reads_at_wrap unpackQuestion_norm)
qed (simp add: reads_at_return)

lemma packRecord_reads_at:
  assumes "packRecord r p = Inr p'" "rr_wf r" "rr_few r" "comp_ok p"
  obtains enc where "pbuf p' = pbuf p @ enc" "comp_ok p'" "reads_at (pbuf p) enc unpackRecord (rr_norm r)"
  using packRecord_reads [OF assms] unfolding reads_at_def by metis

definition rr_ok :: "rr \<Rightarrow> bool" where
  "rr_ok r \<longleftrightarrow> rr_wf r \<and> rr_few r"

text \<open>The records of a section, seen by any reader that reads a single one of them.\<close>

lemma packRecords_reads:
  assumes "packRecords rs p = Inr p'" "list_all rr_ok rs" "comp_ok p"
    and step: "\<And>r pre enc i acc. r \<in> set rs \<Longrightarrow> reads_at pre enc unpackRecord (rr_norm r) \<Longrightarrow>
      reads_at pre enc (step i acc) (add acc (rr_norm r))"
    and zero: "\<And>i acc. loop i 0 acc = ureturn acc"
    and suc: "\<And>i n acc. loop i (Suc n) acc = ubind (step i acc) (loop (i + 1) n)"
  shows "\<exists>enc. pbuf p' = pbuf p @ enc \<and> comp_ok p' \<and> length rs \<le> length enc \<and>
    (\<forall>i acc. reads_at (pbuf p) enc (loop i (length rs) acc) (foldl add acc (map rr_norm rs)))"
  using assms(1-3) step
proof (induction rs arbitrary: p)
  case Nil
  then show ?case by (intro exI [of _ "[]"]) (simp add: zero reads_at_return)
next
  case (Cons r rs)
  obtain p1 where p1: "packRecord r p = Inr p1" "packRecords rs p1 = Inr p'" using Cons.prems(1) by auto
  obtain a where a: "pbuf p1 = pbuf p @ a" "comp_ok p1" "reads_at (pbuf p) a unpackRecord (rr_norm r)"
    using Cons.prems(2,3) by (auto simp: rr_ok_def elim: packRecord_reads_at [OF p1(1)])
  have "a \<noteq> []"
  proof
    assume "a = []"
    with a(3) have "unpackRecord (cur_at (pbuf p) []) = (Inr (rr_norm r), cur_at (pbuf p) [])"
      unfolding reads_at_def by (metis append_Nil2)
    then show False
      by (auto simp: unpackRecord_def ubind_def getName_def DecodeWire_def)
  qed
  obtain b where b: "pbuf p' = pbuf p1 @ b" "comp_ok p'" "length rs \<le> length b"
    "\<And>i acc. reads_at (pbuf p1) b (loop i (length rs) acc) (foldl add acc (map rr_norm rs))"
    using Cons.IH [OF p1(2) _ a(2) Cons.prems(4)] Cons.prems(2) by auto
  have "reads_at (pbuf p) (a @ b) (loop i (length (r # rs)) acc) (foldl add acc (map rr_norm (r # rs)))" for i acc
    using b(4) [of "i + 1" "add acc (rr_norm r)"] Cons.prems(4) [OF _ a(3), of i acc]
    by (auto simp: suc a(1) intro!: reads_at_bind [of "pbuf p" a])
  moreover have "length (r # rs) \<le> length (a @ b)" using b(3) \<open>a \<noteq> []\<close> by (cases a) auto
  ultimately show ?case using a(1) b(1,2) by (intro exI [of _ "a @ b"]) auto
qed

lemma foldl_pair_snoc: "foldl (\<lambda>acc x. (fst acc, snd acc @ [x])) acc xs = (fst acc, snd acc @ xs)"
  by (induction xs arbitrary: acc) auto

lemma ubind_return_fun: "ubind (ureturn x) f = f x"
  by (simp add: fun_eq_iff wire_simps)

lemma reads_at_map: "reads_at pre a m x \<Longrightarrow> reads_at pre a (ubind m (\<lambda>x. ureturn (f x))) (f x)"
  by (simp add: reads_at_def ubind_def ureturn_def)

lemma packRecords_section:
  assumes "packRecords rs p = Inr p'" "list_all rr_ok rs" "comp_ok p"
  obtains enc where "pbuf p' = pbuf p @ enc" "comp_ok p'" "length rs \<le> length enc"
    "reads_at (pbuf p) enc (unpackRRs (length rs) sec) (map rr_norm rs)"
proof -
  have "\<exists>enc. pbuf p' = pbuf p @ enc \<and> comp_ok p' \<and> length rs \<le> length enc \<and>
    (\<forall>i acc. reads_at (pbuf p) enc (unpackSeq sec unpackRecord i (length rs) acc)
       (foldl (\<lambda>acc x. acc @ [x]) acc (map rr_norm rs)))"
    by (intro packRecords_reads [OF assms, where step = "\<lambda>i acc. ubind (wrapErr sec i unpackRecord) (\<lambda>x. ureturn (acc @ [x]))"]
        reads_at_map reads_at_wrap)
      (simp_all add: ubind_assoc ubind_return_fun)
  then obtain enc where "pbuf p' = pbuf p @ enc" "comp_ok p'" "length rs \<le> length enc"
    "\<forall>i acc. reads_at (pbuf p) enc (unpackSeq sec unpackRecord i (length rs) acc)
       (foldl (\<lambda>acc x. acc @ [x]) acc (map rr_norm rs))" by blast
  then show thesis using that [of enc]
    by (metis append_Nil foldl_snoc unpackRRs_def)
qed

text \<open>Reading ahead does not disturb the record that is read next.\<close>

lemma additional_step_peek:
  assumes "getName u = (Inr n, u1)" "getUint16 u1 = (Inr t, u2)" "umsg u2 = umsg u"
  shows "additional_step i acc u =
    (if t = optTypeWire then
       if fst acc \<noteq> None then
         (Inl (MessageParseError SectionOPT (int i) (uoff u) (ErrOther ''multiple OPT pseudo-RRs'')), u)
       else ubind (wrapErr SectionOPT i unpackOPT) (\<lambda>e. ureturn (Some e, snd acc)) u
     else ubind (wrapErr SectionAdditional i unpackRecord) (\<lambda>r. ureturn (fst acc, snd acc @ [r])) u)"
proof -
  have "u2\<lparr>uoff := uoff u\<rparr> = u" using assms(3) by simp
  then show ?thesis using assms(1,2) by (simp add: additional_step_def wrapErr_def ubind_def [of "\<lambda>u. wrapErr _ _ _ u"] Let_def ubind_def [of "wrapErr SectionAdditional i getName"]
    ubind_def [of "wrapErr SectionAdditional i getUint16"])
qed

lemma peek_msg:
  assumes "getName u = (Inr n, u1)" "getUint16 u1 = (Inr t, u2)" "uoff u \<le> length (umsg u)"
  shows "umsg u2 = umsg u"
  using forwardD [OF forward_names(1) assms(3,1)] forwardD(2) [OF forward_ints(2) _ assms(2)] by simp

lemma additional_record:
  assumes "reads_at pre enc unpackRecord r" "rrType r \<noteq> optTypeWire"
  shows "reads_at pre enc (additional_step i acc) (fst acc, snd acc @ [r])"
  unfolding reads_at_def
proof
  fix s
  let ?u = "cur_at pre (enc @ s)"
  have r: "unpackRecord ?u = (Inr r, cur_at (pre @ enc) s)" using assms(1) by (simp add: reads_at_def)
  then obtain n u1 u2 where "getName ?u = (Inr n, u1)" "getUint16 u1 = (Inr (rrType r), u2)"
    by (rule unpackRecord_inv)
  then show "additional_step i acc ?u = (Inr (fst acc, snd acc @ [r]), cur_at (pre @ enc) s)"
    using assms(2) r peek_msg by (subst additional_step_peek) (auto simp: ubind_def wrapErr_def ureturn_def)
qed

lemma additional_opt:
  assumes "\<And>s. unpackOPT (cur_at pre (0 # be16 optTypeWire @ enc @ s)) = (Inr e, cur_at (pre @ 0 # be16 optTypeWire @ enc) s)"
    "fst acc = None"
  shows "reads_at pre (0 # be16 optTypeWire @ enc) (additional_step i acc) (Some e, snd acc)"
  unfolding reads_at_def
proof
  fix s
  let ?u = "cur_at pre ((0 # be16 optTypeWire @ enc) @ s)"
  have "getName ?u = (Inr Root, cur_at (pre @ [0]) (be16 optTypeWire @ enc @ s))"
    using getName_raw [OF raw_ok_self [OF nm_ok_Root], of ureturn pre "be16 optTypeWire @ enc @ s"]
    by (auto simp: Root_def ubind_def ureturn_def split: prod.splits sum.splits)
  then show "additional_step i acc ?u = (Inr (Some e, snd acc), cur_at (pre @ 0 # be16 optTypeWire @ enc) s)"
    using assms by (subst additional_step_peek) (auto simp: wire_simps ubind_def wrapErr_def ureturn_def)
qed

lemma unpackAdditionals_append:
  "unpackAdditionals i (n + k) acc = ubind (unpackAdditionals i n acc) (unpackAdditionals (i + n) k)"
proof (induction n arbitrary: i acc)
  case (Suc n)
  then have "unpackAdditionals (i + 1) (n + k) =
      (\<lambda>acc. ubind (unpackAdditionals (i + 1) n acc) (unpackAdditionals (i + 1 + n) k))" by blast
  then show ?case by (simp add: ubind_assoc)
qed (simp add: ubind_return_fun)

definition msg_ok :: "message \<Rightarrow> bool" where
  "msg_ok m \<longleftrightarrow> list_all q_ok (m_questions m) \<and> list_all rr_ok (m_answers m) \<and>
     list_all rr_ok (m_authorities m) \<and> list_all (\<lambda>r. rr_ok r \<and> rrType r \<noteq> optTypeWire) (m_additionals m) \<and>
     (case m_edns m of None \<Rightarrow> True | Some e \<Rightarrow> distinct (map opt_code (e_opts e)))"

definition msg_norm :: "message \<Rightarrow> message" where
  "msg_norm m = m\<lparr>m_questions := map q_norm (m_questions m), m_answers := map rr_norm (m_answers m),
     m_authorities := map rr_norm (m_authorities m), m_additionals := map rr_norm (m_additionals m)\<rparr>"

lemma packRecords_additionals:
  assumes "packRecords rs p = Inr p3" "(case ed of None \<Rightarrow> Inr p3 | Some e \<Rightarrow> packOPT e p3) = Inr p'"
    "list_all (\<lambda>r. rr_ok r \<and> rrType r \<noteq> optTypeWire) rs"
    "case ed of None \<Rightarrow> True | Some e \<Rightarrow> distinct (map opt_code (e_opts e))" "comp_ok p"
  obtains enc where "pbuf p' = pbuf p @ enc"  "length rs + (if ed \<noteq> None then 1 else 0) \<le> length enc"
    "reads_at (pbuf p) enc (unpackAdditionals 0 (length rs + (if ed \<noteq> None then 1 else 0)) (None, [])) (ed, map rr_norm rs)"
proof -
  have rs: "list_all rr_ok rs" using assms(3) by (auto simp: list_all_iff)
  have "\<exists>enc. pbuf p3 = pbuf p @ enc \<and> comp_ok p3 \<and> length rs \<le> length enc \<and>
    (\<forall>i acc. reads_at (pbuf p) enc (unpackAdditionals i (length rs) acc)
       (foldl (\<lambda>acc x. (fst acc, snd acc @ [x])) acc (map rr_norm rs)))"
    using assms(3)
    by (intro packRecords_reads [OF assms(1) rs assms(5), where step = additional_step] additional_record)
      (auto simp: list_all_iff rr_norm_def rrType_def split: option.splits)
  then obtain a where a0: "pbuf p3 = pbuf p @ a" "comp_ok p3" "length rs \<le> length a"
    "\<forall>i acc. reads_at (pbuf p) a (unpackAdditionals i (length rs) acc)
       (foldl (\<lambda>acc x. (fst acc, snd acc @ [x])) acc (map rr_norm rs))" by blast
  from a0(4) [rule_format, of 0 "(None, [])"]
  have a: "pbuf p3 = pbuf p @ a" "comp_ok p3" "length rs \<le> length a"
    "reads_at (pbuf p) a (unpackAdditionals 0 (length rs) (None, [])) (None, map rr_norm rs)"
    using a0(1-3) by (simp_all add: foldl_pair_snoc)
  show thesis
  proof (cases ed)
    case None
    then show thesis using assms(2) a by (intro that [of a]) auto
  next
    case (Some e)
    with assms(2,4) have e: "packOPT e p3 = Inr p'" "distinct (map opt_code (e_opts e))" by simp_all
    obtain b where b: "pbuf p' = pbuf p3 @ 0 # be16 optTypeWire @ b"
      "\<And>s. unpackOPT (cur_at (pbuf p3) (0 # be16 optTypeWire @ b @ s)) = (Inr e, cur_at (pbuf p3 @ 0 # be16 optTypeWire @ b) s)"
      by (rule packOPT_reads [OF e a(2)]) blast
    have 1: "unpackAdditionals i (Suc 0) acc = additional_step i acc" for i acc
      by (auto simp: fun_eq_iff ubind_def ureturn_def split: prod.splits sum.splits)
    have "reads_at (pbuf p @ a) (0 # be16 optTypeWire @ b) (additional_step (length rs) (None, map rr_norm rs))
        (Some e, map rr_norm rs)"
      using additional_opt [OF b(2), of "(None, map rr_norm rs)" "length rs"] a(1) by simp
    from reads_at_bind [OF a(4), of "0 # be16 optTypeWire @ b" "unpackAdditionals (length rs) 1"] this
    have "reads_at (pbuf p) (a @ 0 # be16 optTypeWire @ b) (unpackAdditionals 0 (length rs + 1) (None, [])) (ed, map rr_norm rs)"
      unfolding unpackAdditionals_append add_0 One_nat_def 1 Some by blast
    then show thesis using b(1) a(1,3) Some by (intro that [of "a @ 0 # be16 optTypeWire @ b"]) auto
  qed
qed

text \<open>The sections behind a header that has been read.\<close>

definition sections :: "u16 \<Rightarrow> u16 \<Rightarrow> u16 \<Rightarrow> u16 \<Rightarrow> u16 \<Rightarrow> u16 \<Rightarrow> message unp" where
  "sections ident flags qd an ns ar =
     ubind (unpackSeq SectionQuestion unpackQuestion 0 (unat qd) []) (\<lambda>questions.
     ubind (unpackRRs (unat an) SectionAnswer) (\<lambda>answers.
     ubind (unpackRRs (unat ns) SectionAuthority) (\<lambda>authorities.
     ubind (unpackAdditionals 0 (unat ar) (None, [])) (\<lambda>additionals.
       ureturn \<lparr>m_id = ident, m_flags = flags, m_questions = questions, m_answers = answers,
         m_authorities = authorities, m_additionals = snd additionals, m_edns = fst additionals\<rparr>))))"

definition header_bytes :: "u16 \<Rightarrow> u16 \<Rightarrow> u16 \<Rightarrow> u16 \<Rightarrow> u16 \<Rightarrow> u16 \<Rightarrow> bytes" where
  "header_bytes ident flags qd an ns ar = be16 ident @ be16 flags @ be16 qd @ be16 an @ be16 ns @ be16 ar"

lemma length_header [simp]: "length (header_bytes a b c d e f) = 12"
  by (simp add: header_bytes_def)

lemma UnpackMsg_header:
  "UnpackMsg (header_bytes ident flags qd an ns ar @ rest) =
     fst (sections ident flags qd an ns ar (cur_at (header_bytes ident flags qd an ns ar) rest))"
proof -
  let ?h = "be16 ident @ be16 flags @ be16 qd @ be16 an @ be16 ns @ be16 ar"
  have "NewUnpacker (?h @ rest) = cur_at [] (?h @ rest)" by (simp add: NewUnpacker_def cur_at_def)
  then show ?thesis
    unfolding UnpackMsg_def header_bytes_def sections_def by (simp add: wire_simps)
qed

lemma header_exists:
  assumes "\<not> length b < 12"
  obtains i f q a n r rest where "b = header_bytes i f q a n r @ rest"
proof -
  have s: "take 2 xs @ drop 2 xs = xs" for xs :: bytes by simp
  have r: "be16 (rd16 (take 2 (drop k b))) = take 2 (drop k b)" if "k \<le> 10" for k
    using assms that by (intro be16_rd16) simp
  have "b = take 2 (drop 0 b) @ take 2 (drop 2 b) @ take 2 (drop 4 b) @ take 2 (drop 6 b) @ take 2 (drop 8 b) @
      take 2 (drop 10 b) @ drop 12 b"
    using s [of b] s [of "drop 2 b"] s [of "drop 4 b"] s [of "drop 6 b"] s [of "drop 8 b"] s [of "drop 10 b"] by simp
  with r [of 0] r [of 2] r [of 4] r [of 6] r [of 8] r [of 10] show thesis
    by (intro that [of "rd16 (take 2 (drop 0 b))" "rd16 (take 2 (drop 2 b))" "rd16 (take 2 (drop 4 b))"
        "rd16 (take 2 (drop 6 b))" "rd16 (take 2 (drop 8 b))" "rd16 (take 2 (drop 10 b))" "drop 12 b"])
      (simp add: header_bytes_def)
qed

lemma PackMsg_cases:
  assumes "PackMsg m = Inr b"
  obtains p1 p2 p3 p4 where
    "packRecords (m_answers m) (fold packQuestion (m_questions m) (packHeader m (NewPacker []))) = Inr p1"
    "packRecords (m_authorities m) p1 = Inr p2" "packRecords (m_additionals m) p2 = Inr p3"
    "(case m_edns m of None \<Rightarrow> Inr p3 | Some e \<Rightarrow> packOPT e p3) = Inr p4" "b = pbuf p4" "length b \<le> 65535"
    "length (m_questions m) \<le> 65535" "length (m_answers m) \<le> 65535" "length (m_authorities m) \<le> 65535"
  using assms unfolding PackMsg_def by (auto split: if_splits)

lemma UnpackMsg_PackMsg:
  assumes "PackMsg m = Inr b" "msg_ok m"
  shows "UnpackMsg b = Inr (msg_norm m)"
proof -
  obtain p1 p2 p3 p4 where
    p: "packRecords (m_answers m) (fold packQuestion (m_questions m) (packHeader m (NewPacker []))) = Inr p1"
    "packRecords (m_authorities m) p1 = Inr p2" "packRecords (m_additionals m) p2 = Inr p3"
    "(case m_edns m of None \<Rightarrow> Inr p3 | Some e \<Rightarrow> packOPT e p3) = Inr p4"
    and b: "b = pbuf p4" "length b \<le> 65535"
    and len: "length (m_questions m) \<le> 65535" "length (m_answers m) \<le> 65535" "length (m_authorities m) \<le> 65535"
    using assms(1) by (rule PackMsg_cases)
  have ok: "list_all q_ok (m_questions m)" "list_all rr_ok (m_answers m)" "list_all rr_ok (m_authorities m)"
    "list_all (\<lambda>r. rr_ok r \<and> rrType r \<noteq> optTypeWire) (m_additionals m)"
    "case m_edns m of None \<Rightarrow> True | Some e \<Rightarrow> distinct (map opt_code (e_opts e))"
    using assms(2) by (simp_all add: msg_ok_def)
  let ?h = "header_bytes (m_id m) (m_flags m) (word_of_nat (length (m_questions m)))
    (word_of_nat (length (m_answers m))) (word_of_nat (length (m_authorities m))) (word_of_nat (arCount m))"
  define q where "q = concat (map q_enc (m_questions m))"
  define p0 where "p0 = fold packQuestion (m_questions m) (packHeader m (NewPacker []))"
  have p0: "pbuf p0 = ?h @ q" "comp_ok p0"
    by (simp_all add: p0_def fold_packQuestion [OF ok(1)] packHeader_def wire_simps q_def header_bytes_def)
  obtain a where a: "pbuf p1 = pbuf p0 @ a" "comp_ok p1"
    "reads_at (pbuf p0) a (unpackRRs (length (m_answers m)) SectionAnswer) (map rr_norm (m_answers m))"
    by (rule packRecords_section [OF p(1) [folded p0_def] ok(2) p0(2)])
  obtain n where n: "pbuf p2 = pbuf p1 @ n" "comp_ok p2"
    "reads_at (pbuf p1) n (unpackRRs (length (m_authorities m)) SectionAuthority) (map rr_norm (m_authorities m))"
    by (rule packRecords_section [OF p(2) ok(3) a(2)])
  obtain d where d: "pbuf p4 = pbuf p2 @ d" "arCount m \<le> length d"
    "reads_at (pbuf p2) d (unpackAdditionals 0 (arCount m) (None, [])) (m_edns m, map rr_norm (m_additionals m))"
    by (rule packRecords_additionals [OF p(3,4) ok(4,5) n(2)]) (auto simp: arCount_def)
  have qr: "reads_at ?h q (unpackSeq SectionQuestion unpackQuestion 0 (length (m_questions m)) []) (map q_norm (m_questions m))"
    using unpackSeq_questions [OF ok(1) refl, of ?h SectionQuestion 0 "[]"] by (simp add: q_def)
  have b': "b = ?h @ q @ a @ n @ d @ []" by (simp add: b(1) d(1) n(1) a(1) p0(1))
  have ar: "arCount m \<le> 65535" using d(2) b(2) by (simp add: b')
  show ?thesis
    unfolding b' UnpackMsg_header sections_def
    using qr a(3) n(3) d(3) [unfolded reads_at_def, rule_format, of "[]"] len ar a(1) n(1) p0(1)
    by (simp add: reads_at_def ubind_def ureturn_def msg_norm_def)
qed

subsection \<open>Unpacking is total, and its errors point into the message\<close>

definition parse_error :: "nat \<Rightarrow> wire_error \<Rightarrow> bool" where
  "parse_error n e \<longleftrightarrow> (\<exists>sec i off c. e = MessageParseError sec i off c \<and> off \<le> n \<and> c \<noteq> Diverges)"

text \<open>A forward reader all of whose failures are parse errors located in the message.\<close>

definition tagged :: "'a unp \<Rightarrow> bool" where
  "tagged m \<longleftrightarrow> forward_reader m \<and>
     (\<forall>u e u'. uoff u \<le> length (umsg u) \<longrightarrow> m u = (Inl e, u') \<longrightarrow> parse_error (length (umsg u)) e)"

lemma taggedD: "tagged m \<Longrightarrow> uoff u \<le> length (umsg u) \<Longrightarrow> m u = (Inl e, u') \<Longrightarrow> parse_error (length (umsg u)) e"
  unfolding tagged_def by blast

lemma tagged_wrap: "forward_reader m \<Longrightarrow> tagged (wrapErr sec i m)"
  unfolding tagged_def
proof (intro conjI allI impI)
  assume m: "forward_reader m"
  show "forward_reader (wrapErr sec i m)"
  proof (rule forwardI)
    fix u :: unpacker assume u: "uoff u \<le> length (umsg u)"
    obtain r u' where r: "m u = (r, u')" by (cases "m u")
    from forwardD [OF m u r]
    show "fst (wrapErr sec i m u) \<noteq> Inl Diverges \<and> umsg (snd (wrapErr sec i m u)) = umsg u \<and>
        uoff u \<le> uoff (snd (wrapErr sec i m u)) \<and> uoff (snd (wrapErr sec i m u)) \<le> length (umsg u)"
      by (cases r) (simp_all add: wrapErr_def r)
  qed
  fix u e u' assume u: "uoff u \<le> length (umsg u)" "wrapErr sec i m u = (Inl e, u')"
  then obtain c where c: "m u = (Inl c, u')" "e = MessageParseError sec (int i) (uoff u') c"
    by (auto simp: wrapErr_def split: prod.splits sum.splits)
  from forwardD [OF m u(1) c(1)] c(2) show "parse_error (length (umsg u)) e" by (auto simp: parse_error_def)
qed

lemma tagged_return: "tagged (ureturn x)"
  by (auto simp: tagged_def ureturn_def intro: safe_intros [unfolded ureturn_def] forwardI)

lemma tagged_bind:
  assumes m: "tagged m" and f: "\<And>x. tagged (f x)"
  shows "tagged (ubind m f)"
  unfolding tagged_def
proof (intro conjI allI impI)
  show "forward_reader (ubind m f)" using assms by (auto simp: tagged_def intro: safe_intros)
  fix u e u' assume u: "uoff u \<le> length (umsg u)" "ubind m f u = (Inl e, u')"
  obtain r u1 where r: "m u = (r, u1)" by (cases "m u")
  have m': "forward_reader m" using m by (simp add: tagged_def)
  show "parse_error (length (umsg u)) e"
  proof (cases r)
    case (Inl c)
    then show ?thesis using u r m by (auto simp: tagged_def ubind_def)
  next
    case (Inr x)
    then have "f x u1 = (Inl e, u')" using u(2) r by (simp add: ubind_def)
    from taggedD [OF f _ this] forwardD [OF m' u(1) r] show ?thesis by simp
  qed
qed

lemma tagged_unpackSeq: "forward_reader m \<Longrightarrow> tagged (unpackSeq sec m i n out)"
  by (induction n arbitrary: i out) (auto intro: tagged_return tagged_bind tagged_wrap)

lemma additional_step_cases:
  obtains (name) "additional_step i acc u = ubind (wrapErr SectionAdditional i getName) (\<lambda>_. ubind (wrapErr SectionAdditional i getUint16) (\<lambda>_. ureturn acc)) u"
  | (opt) "additional_step i acc u = ubind (wrapErr SectionOPT i unpackOPT) (\<lambda>e. ureturn (Some e, snd acc)) u" "fst acc = None"
  | (dup) "additional_step i acc u = (Inl (MessageParseError SectionOPT (int i) (uoff u) (ErrOther ''multiple OPT pseudo-RRs'')), u)"
  | (rec) "additional_step i acc u = ubind (wrapErr SectionAdditional i unpackRecord) (\<lambda>r. ureturn (fst acc, snd acc @ [r])) u"
  | (outside) "\<not> uoff u \<le> length (umsg u)"
proof (cases "uoff u \<le> length (umsg u)")
  case True
  obtain r1 u1 where r1: "getName u = (r1, u1)" by (cases "getName u")
  obtain r2 u2 where r2: "getUint16 u1 = (r2, u2)" by (cases "getUint16 u1")
  consider (e1) e where "r1 = Inl e" | (e2) n e where "r1 = Inr n" "r2 = Inl e" | (ok) n t where "r1 = Inr n" "r2 = Inr t"
    by (cases r1; cases r2) auto
  then show thesis
  proof cases
    case ok
    then have "umsg u2 = umsg u" using r1 r2 True peek_msg by metis
    from additional_step_peek [of u n u1 t u2 i acc, OF _ _ this] r1 r2 ok show thesis
      by (cases "t = optTypeWire"; cases "fst acc = None") (auto intro: that)
  qed (use r1 r2 in \<open>auto simp: additional_step_def ubind_def wrapErr_def intro!: name\<close>)
qed (rule outside)

lemma tagged_pointwise:
  assumes "\<And>u. uoff u \<le> length (umsg u) \<Longrightarrow> (\<exists>m'. tagged m' \<and> m u = m' u) \<or>
    (\<exists>e. m u = (Inl e, u) \<and> parse_error (length (umsg u)) e)"
  shows "tagged m"
proof -
  have "fst (m u) \<noteq> Inl Diverges \<and> umsg (snd (m u)) = umsg u \<and> uoff u \<le> uoff (snd (m u)) \<and>
      uoff (snd (m u)) \<le> length (umsg u)" if u: "uoff u \<le> length (umsg u)" for u
    using assms [OF u] u by (auto simp: tagged_def forward_reader_def parse_error_def)
  then have "forward_reader m" by (rule forwardI)
  moreover have "parse_error (length (umsg u)) e" if "uoff u \<le> length (umsg u)" "m u = (Inl e, u')" for u e u'
    using assms [OF that(1)] taggedD [OF _ that(1)] that(2) by fastforce
  ultimately show ?thesis unfolding tagged_def by blast
qed

lemma tagged_additional_step: "tagged (additional_step i acc)"
proof (rule tagged_pointwise)
  note intros = tagged_bind tagged_wrap tagged_return forward_names(1) forward_ints(2) forward_unpackOPT forward_unpackRecord
  fix u :: unpacker assume u: "uoff u \<le> length (umsg u)"
  show "(\<exists>m'. tagged m' \<and> additional_step i acc u = m' u) \<or>
      (\<exists>e. additional_step i acc u = (Inl e, u) \<and> parse_error (length (umsg u)) e)"
  proof (cases i acc u rule: additional_step_cases)
    case name
    moreover have "tagged (ubind (wrapErr SectionAdditional i getName)
        (\<lambda>_. ubind (wrapErr SectionAdditional i getUint16) (\<lambda>_. ureturn acc)))" by (intro intros)
    ultimately show ?thesis by blast
  next
    case opt
    moreover have "tagged (ubind (wrapErr SectionOPT i unpackOPT) (\<lambda>e. ureturn (Some e, snd acc)))" by (intro intros)
    ultimately show ?thesis by blast
  next
    case dup
    then show ?thesis using u by (auto simp: parse_error_def)
  next
    case rec
    moreover have "tagged (ubind (wrapErr SectionAdditional i unpackRecord) (\<lambda>r. ureturn (fst acc, snd acc @ [r])))"
      by (intro intros)
    ultimately show ?thesis by blast
  qed (use u in simp)
qed

lemma tagged_unpackAdditionals: "tagged (unpackAdditionals i n acc)"
  by (induction n arbitrary: i acc) (auto intro: tagged_return tagged_bind tagged_additional_step)

lemma tagged_sections: "tagged (sections ident flags qd an ns ar)"
  unfolding sections_def unpackRRs_def
  by (intro tagged_bind tagged_unpackSeq tagged_unpackAdditionals tagged_return safe_intros)

lemma UnpackMsg_error: "UnpackMsg b = Inl e \<Longrightarrow> parse_error (length b) e"
proof (cases "length b < 12")
  case True
  then show "UnpackMsg b = Inl e \<Longrightarrow> parse_error (length b) e" by (auto simp: UnpackMsg_def parse_error_def)
next
  case False
  assume e: "UnpackMsg b = Inl e"
  obtain i f q a n r rest where b: "b = header_bytes i f q a n r @ rest" using False by (rule header_exists)
  with e obtain u' where "sections i f q a n r (cur_at (header_bytes i f q a n r) rest) = (Inl e, u')"
    unfolding b UnpackMsg_header by (cases "sections i f q a n r (cur_at (header_bytes i f q a n r) rest)") auto
  from taggedD [OF tagged_sections _ this] show "parse_error (length b) e" by (simp add: b)
qed

subsection \<open>What unpacking returns\<close>

definition rr_decoded :: "rr \<Rightarrow> bool" where
  "rr_decoded r \<longleftrightarrow> rr_wf r \<and> 0 \<le> rr_ttl r \<and> rr_ttl r \<le> maxRecordTTLSeconds * Second \<and>
     Second dvd rr_ttl r \<and> rr_norm r = r"

definition msg_wf :: "message \<Rightarrow> bool" where
  "msg_wf m \<longleftrightarrow> list_all (\<lambda>q. raw_ok (q_name q) (q_raw q)) (m_questions m) \<and>
     list_all rr_decoded (m_answers m) \<and> list_all rr_decoded (m_authorities m) \<and>
     list_all (\<lambda>r. rr_decoded r \<and> rrType r \<noteq> optTypeWire) (m_additionals m) \<and>
     (case m_edns m of None \<Rightarrow> True | Some e \<Rightarrow> distinct (map opt_code (e_opts e)))"

lemma unpackRecord_decoded:
  assumes "unpackRecord u = (Inr r, u')" "uoff u \<le> length (umsg u)"
  shows "rr_decoded r"
proof -
  obtain n u1 t u2 c u3 ttl0 u4 rdlen u5 rd where *: "getName u = (Inr n, u1)" "getUint16 u1 = (Inr t, u2)"
    "getUint16 u2 = (Inr c, u3)" "getUint32 u3 = (Inr ttl0, u4)" "getUint16 u4 = (Inr rdlen, u5)"
    "Unpack t (int (unat (rdlen :: u16))) u5 = (Inr rd, u')"
    "r = \<lparr>rr_name = n, rr_class = c, rr_ttl = of_secs (if ttl0 \<ge> push_bit 31 1 then 0 else ttl0), rr_rd = Some rd\<rparr>"
    using assms(1) unfolding unpackRecord_def Let_def ubind_def ureturn_def
    by (auto split: prod.splits sum.splits)
  have "uoff u5 \<le> length (umsg u5)"
    using forwardD(4) [OF forward_names(1) assms(2) *(1)] forwardD(4) [OF forward_ints(2) _ *(2)]
      forwardD(4) [OF forward_ints(2) _ *(3)] forwardD(4) [OF forward_ints(3) _ *(4)]
      forwardD(4) [OF forward_ints(2) _ *(5)] by simp
  then have "normRdata rd = rd" using Unpack_normal [OF *(6)] by simp
  then have "rr_norm r = r" by (simp add: rr_norm_def *(7))
  with unpackRecord_inv [OF assms(1)] show ?thesis unfolding rr_decoded_def by metis
qed

text \<open>Result predicates of readers, for cursors inside the message.\<close>

definition gives :: "'a unp \<Rightarrow> ('a \<Rightarrow> bool) \<Rightarrow> bool" where
  "gives m P \<longleftrightarrow> forward_reader m \<and> (\<forall>u x u'. uoff u \<le> length (umsg u) \<longrightarrow> m u = (Inr x, u') \<longrightarrow> P x)"

lemma givesD: "gives m P \<Longrightarrow> uoff u \<le> length (umsg u) \<Longrightarrow> m u = (Inr x, u') \<Longrightarrow> P x"
  unfolding gives_def by blast

lemma gives_bind:
  assumes "gives m Q" "\<And>x. forward_reader (f x)" "\<And>x. Q x \<Longrightarrow> gives (f x) P"
  shows "gives (ubind m f) P"
  unfolding gives_def
proof (intro conjI allI impI)
  have m: "forward_reader m" using assms(1) by (simp add: gives_def)
  then show "forward_reader (ubind m f)" using assms(2) by (intro safe_intros)
  fix u y u' assume u: "uoff u \<le> length (umsg u)" "ubind m f u = (Inr y, u')"
  then obtain x u1 where x: "m u = (Inr x, u1)" "f x u1 = (Inr y, u')"
    by (auto simp: ubind_def split: prod.splits sum.splits)
  from givesD [OF assms(3) [OF givesD [OF assms(1) u(1) x(1)]] _ x(2)] forwardD(4) [OF m u(1) x(1)]
  show "P y" by simp
qed

lemma gives_return: "P x \<Longrightarrow> gives (ureturn x) P"
  using safe_intros by (auto simp: gives_def ureturn_def [abs_def] forward_reader_def)

lemma gives_wrap:
  assumes "gives m P"
  shows "gives (wrapErr sec i m) P"
  unfolding gives_def
proof (intro conjI allI impI)
  show "forward_reader (wrapErr sec i m)" using assms tagged_wrap by (auto simp: gives_def tagged_def)
  fix u x u' assume "uoff u \<le> length (umsg u)" "wrapErr sec i m u = (Inr x, u')"
  then show "P x" using givesD [OF assms] by (auto simp: wrapErr_def split: prod.splits sum.splits)
qed

lemma forward_unpackSeq: "forward_reader m \<Longrightarrow> forward_reader (unpackSeq sec m i n out)"
  using tagged_unpackSeq unfolding tagged_def by blast

lemma gives_unpackSeq:
  assumes m: "gives m P"
  shows "list_all P out \<Longrightarrow> gives (unpackSeq sec m i n out) (list_all P)"
proof (induction n arbitrary: i out)
  case (Suc n)
  have f: "forward_reader m" using m by (simp add: gives_def)
  show ?case
    unfolding unpackSeq.simps
    by (rule gives_bind [OF gives_wrap [OF m]]) (use Suc f forward_unpackSeq in auto)
qed (simp add: gives_return)

lemma gives_question: "gives unpackQuestion (\<lambda>q. raw_ok (q_name q) (q_raw q))"
  using unpackQuestion_ok forward_unpackQuestion unfolding gives_def by blast

lemma gives_record: "gives unpackRecord rr_decoded"
  using unpackRecord_decoded forward_unpackRecord unfolding gives_def by blast

definition add_inv :: "edns option \<times> rr list \<Rightarrow> bool" where
  "add_inv acc \<longleftrightarrow> list_all (\<lambda>r. rr_decoded r \<and> rrType r \<noteq> optTypeWire) (snd acc) \<and>
     (case fst acc of None \<Rightarrow> True | Some e \<Rightarrow> distinct (map opt_code (e_opts e)))"

lemma additional_step_inv:
  assumes "add_inv acc" "uoff u \<le> length (umsg u)" "additional_step i acc u = (Inr acc', u')"
  shows "add_inv acc'"
proof -
  obtain n u1 t u2 where p: "getName u = (Inr n, u1)" "getUint16 u1 = (Inr t, u2)"
    using assms(3) by (auto simp: additional_step_def ubind_def wrapErr_def split: prod.splits sum.splits)
  note eq = additional_step_peek [OF p peek_msg [OF p assms(2)], of i acc]
  show ?thesis
  proof (cases "t = optTypeWire")
    case True
    then obtain e where "unpackOPT u = (Inr e, u')" "acc' = (Some e, snd acc)"
      using assms(3) eq by (auto simp: ubind_def wrapErr_def ureturn_def split: if_splits prod.splits sum.splits)
    with unpackOPT_ok assms(1) show ?thesis by (auto simp: yields_def add_inv_def)
  next
    case False
    then obtain r where r: "unpackRecord u = (Inr r, u')" "acc' = (fst acc, snd acc @ [r])"
      using assms(3) eq by (auto simp: ubind_def wrapErr_def ureturn_def split: prod.splits sum.splits)
    obtain n' v1 v2 where "getName u = (Inr n', v1)" "getUint16 v1 = (Inr (rrType r), v2)"
      using r(1) by (rule unpackRecord_inv)
    with p False have "rrType r \<noteq> optTypeWire" by simp
    then show ?thesis using assms(1) r unpackRecord_decoded [OF r(1) assms(2)] by (auto simp: add_inv_def)
  qed
qed

lemma forward_unpackAdditionals: "forward_reader (unpackAdditionals i n acc)"
  using tagged_unpackAdditionals unfolding tagged_def by blast

lemma gives_unpackAdditionals: "add_inv acc \<Longrightarrow> gives (unpackAdditionals i n acc) add_inv"
proof (induction n arbitrary: i acc)
  case (Suc n)
  have "gives (additional_step i acc) add_inv"
    using tagged_additional_step additional_step_inv Suc.prems unfolding gives_def tagged_def by blast
  then show ?case
    unfolding unpackAdditionals.simps by (rule gives_bind) (use Suc forward_unpackAdditionals in auto)
qed (simp add: gives_return)

lemma gives_sections: "gives (sections ident flags qd an ns ar) msg_wf"
proof -
  note fwd = forward_unpackSeq [OF forward_unpackRecord] forward_unpackAdditionals safe_intros
  show ?thesis
    unfolding sections_def unpackRRs_def
    by (intro gives_bind [OF gives_unpackSeq [OF gives_question]] gives_bind [OF gives_unpackSeq [OF gives_record]]
        gives_bind [OF gives_unpackAdditionals] gives_return fwd)
      (auto simp: msg_wf_def add_inv_def)
qed

lemma UnpackMsg_wf: "UnpackMsg b = Inr m \<Longrightarrow> msg_wf m"
proof (cases "length b < 12")
  case False
  assume m: "UnpackMsg b = Inr m"
  obtain i f q a n r rest where b: "b = header_bytes i f q a n r @ rest" using False by (rule header_exists)
  with m obtain u' where "sections i f q a n r (cur_at (header_bytes i f q a n r) rest) = (Inr m, u')"
    unfolding b UnpackMsg_header by (cases "sections i f q a n r (cur_at (header_bytes i f q a n r) rest)") auto
  from givesD [OF gives_sections _ this] show "msg_wf m" by simp
qed (simp add: UnpackMsg_def)

text \<open>A decoded message is its own normal form, so it survives any number of further round trips.\<close>

definition msg_few :: "message \<Rightarrow> bool" where
  "msg_few m \<longleftrightarrow> list_all rr_few (m_answers m @ m_authorities m @ m_additionals m)"

lemma msg_wf_norm:
  assumes "msg_wf m"
  shows "msg_norm m = m"
proof -
  have q: "raw_ok (q_name q) (q_raw q) \<Longrightarrow> q_norm q = q" for q
    by (auto simp: q_norm_def elim: raw_okE)
  have "map q_norm (m_questions m) = m_questions m" "map rr_norm (m_answers m) = m_answers m"
    "map rr_norm (m_authorities m) = m_authorities m" "map rr_norm (m_additionals m) = m_additionals m"
    using assms q by (auto simp: msg_wf_def map_fix_iff list_all_iff rr_decoded_def)
  then show ?thesis by (simp add: msg_norm_def)
qed

lemma msg_wf_ok: "msg_wf m \<Longrightarrow> msg_few m \<Longrightarrow> msg_ok m"
  using raw_ok_nm
  by (auto simp: msg_wf_def msg_ok_def msg_few_def list_all_iff q_ok_def rr_ok_def rr_decoded_def)

lemma clampCount_bound:
  assumes "0 \<le> n" "0 < minSize"
  shows "0 \<le> clampCount n remaining minSize" "clampCount n remaining minSize * minSize \<le> max 0 remaining"
    "clampCount n remaining minSize \<le> n"
proof -
  have "remaining div minSize * minSize \<le> remaining" if "0 < remaining"
    using div_mult_mod_eq [of remaining minSize] pos_mod_sign [OF assms(2), of remaining] by linarith
  moreover have "n * minSize \<le> remaining" if "n \<le> remaining div minSize" "0 < remaining"
    using mult_right_mono [OF that(1), of minSize] calculation [OF that(2)] assms(2) by linarith
  ultimately show "0 \<le> clampCount n remaining minSize" "clampCount n remaining minSize * minSize \<le> max 0 remaining"
    "clampCount n remaining minSize \<le> n"
    using assms by (auto simp: clampCount_def Let_def tdiv_nonneg pos_imp_zdiv_nonneg_iff)
qed

subsection \<open>The question section is echoed octet by octet\<close>

lemma unpackQuestion_echo:
  assumes "unpackQuestion u = (Inr q, u')" "uoff u \<le> length (umsg u)"
  shows "packQuestion q p = putRaw (take (uoff u' - uoff u) (drop (uoff u) (umsg u))) p"
proof -
  obtain n nx where n: "DecodeWire (umsg u) (uoff u) = Inr (n, nx)"
    and q: "q_raw q = take (nx - uoff u) (drop (uoff u) (umsg u))"
    and t: "nx + 2 \<le> length (umsg u)" "q_type q = rd16 (drop nx (umsg u))"
    and c: "nx + 4 \<le> length (umsg u)" "q_class q = rd16 (drop (nx + 2) (umsg u))" "uoff u' = nx + 4"
    using assms
    by (auto simp: unpackQuestion_def wire_simps ubind_def [of getName] getName_def ubind_def [of uOff]
        uOff_def Let_def ubind_def [of getUint16] getUint16_def ufail_def ureturn_def dest!: DecodeWire_next
        split: sum.splits prod.splits if_splits)
  have nx: "uoff u < nx" using DecodeWire_next [OF n] by simp
  have r16: "rd16 xs = rd16 (take 2 xs)" if "2 \<le> length xs" for xs :: bytes
    using that by (cases xs rule: rd16.cases) auto
  have b16: "be16 (rd16 xs) = take 2 xs" if "2 \<le> length xs" for xs :: bytes
    using be16_rd16 [of "take 2 xs"] r16 [OF that] that by simp
  have 1: "be16 (q_type q) = take 2 (drop nx (umsg u))" "be16 (q_class q) = take 2 (drop (nx + 2) (umsg u))"
    unfolding t(2) c(2) using c(1) by (intro b16; simp)+
  have 2: "drop nx (umsg u) = drop (nx - uoff u) (drop (uoff u) (umsg u))"
    "drop (nx + 2) (umsg u) = drop (nx - uoff u + 2) (drop (uoff u) (umsg u))" using nx by simp_all
  have "uoff u' - uoff u = (nx - uoff u + 2) + 2" using nx c(3) by simp
  then have "take (uoff u' - uoff u) (drop (uoff u) (umsg u)) = q_raw q @ be16 (q_type q) @ be16 (q_class q)"
    unfolding 1 2 q by (simp only: take_add append_assoc)
  moreover have "q_raw q \<noteq> []" using q nx c(1) by auto
  ultimately show ?thesis by (simp add: packQuestion_def wire_simps)
qed

lemma packRecord_ttl_error:
  "(\<exists>t. packRecord r p = Inl (ErrInvalidTTL t)) \<longleftrightarrow> rr_ttl r < 0 \<or> 2 ^ 31 * Second \<le> rr_ttl r"
proof -
  have "0 \<le> rr_ttl r \<Longrightarrow> tdiv (rr_ttl r) Second > maxRecordTTLSeconds \<longleftrightarrow> 2 ^ 31 * Second \<le> rr_ttl r"
    using zdiv_mono1 [of "2 ^ 31 * Second" "rr_ttl r" Second]
    by (auto simp: tdiv_nonneg maxRecordTTLSeconds_def Second_def)
  then show ?thesis by (auto simp: packRecord_def Let_def split: option.splits)
qed

subsection \<open>A built message can be packed without a panic\<close>

text \<open>The states a builder reaches from a fresh one.\<close>

inductive building :: "builder \<Rightarrow> bool" where
  fresh: "building NewMessageBuilder"
| setID: "building b \<Longrightarrow> building (bID v b)"
| setFlags: "building b \<Longrightarrow> building (bFlags f b)"
| addQuestion: "building b \<Longrightarrow> building (bQuestion q b)"
| addAnswer: "building b \<Longrightarrow> building (bAnswer r b)"
| addAuthority: "building b \<Longrightarrow> building (bAuthority r b)"
| addAdditional: "building b \<Longrightarrow> building (bAdditional r b)"
| setEDNS: "building b \<Longrightarrow> building (bEDNS e b)"
| build: "building b \<Longrightarrow> building (snd (Build b))"

inductive_cases building_cases: "building b"

definition no_zero :: "message \<Rightarrow> bool" where
  "no_zero m \<longleftrightarrow> list_all (\<lambda>r. \<not> IsZero r) (m_answers m @ m_authorities m @ m_additionals m)"

lemma building_no_zero: "building b \<Longrightarrow> no_zero (b_msg b)"
  by (induction rule: building.induct)
    (auto simp: no_zero_def NewMessageBuilder_def emptyMessage_def bID_def bFlags_def bQuestion_def bAnswer_def
      bAuthority_def bAdditional_def bEDNS_def setErr_def Build_def split: option.splits)

definition panics :: "wire_error + 'a \<Rightarrow> bool" where
  "panics r \<longleftrightarrow> (\<exists>s. r = Inl (GoPanic s))"

lemma panics_ebind: "panics (ebind r f) \<longleftrightarrow> panics r \<or> (\<exists>x. r = Inr x \<and> panics (f x))"
  by (cases r) (auto simp: panics_def)

lemma packRecord_no_panic: "\<not> IsZero r \<Longrightarrow> \<not> panics (packRecord r p)"
  by (auto simp: packRecord_def panics_def IsZero_def Let_def split: option.splits)

lemma packRecords_no_panic: "list_all (\<lambda>r. \<not> IsZero r) rs \<Longrightarrow> \<not> panics (packRecords rs p)"
  by (induction rs arbitrary: p) (auto simp: panics_ebind packRecord_no_panic, simp add: panics_def)

lemma PackMsg_no_panic:
  assumes "no_zero m"
  shows "\<not> panics (PackMsg m)"
proof -
  have "\<not> panics (case m_edns m of None \<Rightarrow> Inr p | Some e \<Rightarrow> packOPT e p)" for p
    by (auto simp: packOPT_def panics_def Let_def split: option.splits)
  then show ?thesis
    using assms packRecords_no_panic
    by (auto simp: PackMsg_def panics_ebind no_zero_def) (auto simp: panics_def)
qed

lemma Build_packs: "building b \<Longrightarrow> Build b = (Inr m, b') \<Longrightarrow> no_zero m \<and> b' = NewMessageBuilder"
  using building_no_zero by (auto simp: Build_def split: option.splits)

end
