(* ===== verification/Edns_Options.thy ===== *)
theory Edns_Options
  imports Wire_Message
begin

text \<open>
  The EDNS options with a typed shape (\<^verbatim>\<open>wire/edns.go\<close>, \<^verbatim>\<open>wire/edns_options.go\<close>,
  \<^verbatim>\<open>wire/edns_chain_keytag.go\<close>, \<^verbatim>\<open>wire/edns_reporting.go\<close>) and the padding of messages for
  encrypted transports (\<^verbatim>\<open>wire/edns_padding.go\<close>).  Each decoder that returns a boolean in Go
  returns an option here.  The lemmas are the round trips of the constructors and decoders, the privacy
  boundary of the client subnet, and the length of a padded message.
\<close>

unbundle bit_operations_syntax

subsection \<open>Option codes\<close>

abbreviation (input) EDNSOptionLLQ :: u16 where "EDNSOptionLLQ \<equiv> 1"
abbreviation (input) EDNSOptionUL :: u16 where "EDNSOptionUL \<equiv> 2"
abbreviation (input) EDNSOptionNSID :: u16 where "EDNSOptionNSID \<equiv> 3"
abbreviation (input) EDNSOptionDAU :: u16 where "EDNSOptionDAU \<equiv> 5"
abbreviation (input) EDNSOptionDHU :: u16 where "EDNSOptionDHU \<equiv> 6"
abbreviation (input) EDNSOptionN3U :: u16 where "EDNSOptionN3U \<equiv> 7"
abbreviation (input) EDNSOptionClientSubnet :: u16 where "EDNSOptionClientSubnet \<equiv> 8"
abbreviation (input) EDNSOptionExpire :: u16 where "EDNSOptionExpire \<equiv> 9"
abbreviation (input) EDNSOptionCookie :: u16 where "EDNSOptionCookie \<equiv> 10"
abbreviation (input) EDNSOptionTCPKeepalive :: u16 where "EDNSOptionTCPKeepalive \<equiv> 11"
abbreviation (input) EDNSOptionPadding :: u16 where "EDNSOptionPadding \<equiv> 12"
abbreviation (input) EDNSOptionChain :: u16 where "EDNSOptionChain \<equiv> 13"
abbreviation (input) EDNSOptionKeyTag :: u16 where "EDNSOptionKeyTag \<equiv> 14"
abbreviation (input) EDNSOptionExtendedDNS :: u16 where "EDNSOptionExtendedDNS \<equiv> 15"
abbreviation (input) EDNSOptionReportChannel :: u16 where "EDNSOptionReportChannel \<equiv> 18"
abbreviation (input) EDNSOptionZoneVersion :: u16 where "EDNSOptionZoneVersion \<equiv> 19"

subsection \<open>Options of fixed shape\<close>

definition NewAlgorithmUnderstood :: "u16 \<Rightarrow> u8 list \<Rightarrow> wire_error + ednsOption" where
  "NewAlgorithmUnderstood code algs =
     (if code = EDNSOptionDAU \<or> code = EDNSOptionDHU \<or> code = EDNSOptionN3U then Inr (EDNSOption code algs)
      else Inl (ErrInvalidMessage ''code is not DAU/DHU/N3U''))"

definition NewUpdateLease :: "u32 \<Rightarrow> ednsOption" where
  "NewUpdateLease seconds = EDNSOption EDNSOptionUL (be32 seconds)"

definition NewLLQ :: "u16 \<Rightarrow> u16 \<Rightarrow> u64 \<Rightarrow> u32 \<Rightarrow> ednsOption" where
  "NewLLQ opc errCode llqID lease =
     EDNSOption EDNSOptionLLQ (be16 1 @ be16 opc @ be16 errCode @ be64 llqID @ be32 lease)"

definition NewNSID :: "bytes \<Rightarrow> ednsOption" where
  "NewNSID identifier = EDNSOption EDNSOptionNSID identifier"

definition NSIDIdentifier :: "ednsOption \<Rightarrow> bytes option" where
  "NSIDIdentifier opt = (if opt_code opt \<noteq> EDNSOptionNSID then None else Some (opt_data opt))"

definition NewEDNSExpire :: "u32 \<Rightarrow> ednsOption" where
  "NewEDNSExpire seconds = EDNSOption EDNSOptionExpire (be32 seconds)"

definition NewEDNSExpireQuery :: ednsOption where
  "NewEDNSExpireQuery = EDNSOption EDNSOptionExpire []"

definition EDNSExpireSeconds :: "ednsOption \<Rightarrow> u32 option" where
  "EDNSExpireSeconds opt =
     (if opt_code opt \<noteq> EDNSOptionExpire \<or> length (opt_data opt) \<noteq> 4 then None
      else Some (rd32 (opt_data opt)))"

definition NewTCPKeepalive :: "duration \<Rightarrow> ednsOption" where
  "NewTCPKeepalive timeout =
     (if timeout = 0 then EDNSOption EDNSOptionTCPKeepalive []
      else EDNSOption EDNSOptionTCPKeepalive (be16 (word_of_int (tdiv timeout (100 * Millisecond)))))"

definition TCPKeepaliveTimeout :: "ednsOption \<Rightarrow> duration option" where
  "TCPKeepaliveTimeout opt =
     (if opt_code opt \<noteq> EDNSOptionTCPKeepalive \<or> length (opt_data opt) \<noteq> 2 then None
      else Some (uint (rd16 (opt_data opt)) * 100 * Millisecond))"

definition NewExtendedError :: "u16 \<Rightarrow> bytes \<Rightarrow> ednsOption" where
  "NewExtendedError code extraText = EDNSOption EDNSOptionExtendedDNS (be16 code @ extraText)"

definition ExtendedError :: "ednsOption \<Rightarrow> (u16 \<times> bytes) option" where
  "ExtendedError opt =
     (if opt_code opt \<noteq> EDNSOptionExtendedDNS \<or> length (opt_data opt) < 2 then None
      else Some (rd16 (opt_data opt), drop 2 (opt_data opt)))"

definition NewZoneVersionQuery :: ednsOption where
  "NewZoneVersionQuery = EDNSOption EDNSOptionZoneVersion []"

definition NewZoneVersionSOASerial :: "u8 \<Rightarrow> u32 \<Rightarrow> ednsOption" where
  "NewZoneVersionSOASerial labelCount serial = EDNSOption EDNSOptionZoneVersion ([labelCount, 0] @ be32 serial)"

definition ZoneVersionSOASerial :: "ednsOption \<Rightarrow> (u8 \<times> u32) option" where
  "ZoneVersionSOASerial opt =
     (let d = opt_data opt in
      if opt_code opt \<noteq> EDNSOptionZoneVersion \<or> length d \<noteq> 6 then None
      else if d ! 1 \<noteq> 0 then None
      else Some (d ! 0, rd32 (drop 2 d)))"

subsection \<open>Cookies\<close>

text \<open>The array \<^verbatim>\<open>[8]byte\<close> is a list; the callers keep it at eight octets.\<close>

definition NewClientCookie :: "bytes \<Rightarrow> ednsOption" where
  "NewClientCookie c = EDNSOption EDNSOptionCookie c"

definition NewClientServerCookie :: "bytes \<Rightarrow> bytes \<Rightarrow> wire_error + ednsOption" where
  "NewClientServerCookie c s =
     (if length s < 8 \<or> length s > 32 then Inl ErrInvalidCookie
      else Inr (EDNSOption EDNSOptionCookie (c @ s)))"

definition Cookies :: "ednsOption \<Rightarrow> (bytes \<times> bytes) option" where
  "Cookies opt =
     (let d = opt_data opt in
      if opt_code opt \<noteq> EDNSOptionCookie then None
      else if length d \<noteq> 8 \<and> (length d < 16 \<or> length d > 40) then None
      else Some (take 8 d, drop 8 d))"

subsection \<open>Client subnet\<close>

definition NewClientSubnet :: "ipprefix \<Rightarrow> u8 \<Rightarrow> wire_error + ednsOption" where
  "NewClientSubnet prefix scope =
     (if \<not> prefixIsValid prefix then Inl (ErrInvalidMessage ''ClientSubnet prefix invalid'')
      else
        let a = prefix_addr prefix;
            family = (if Is6 a then 2 else 1) :: u16;
            addr = (if Is6 a then As16 a else the (As4 a));
            source = word_of_int (prefix_bits prefix) :: u8;
            addrLen = (unat source + 7) div 8
        in if addrLen > length addr then Inl (ErrInvalidMessage ''ClientSubnet source exceeds address width'')
           else
             let body = take addrLen addr;
                 trailing = addrLen * 8 - unat source
             in Inr (EDNSOption EDNSOptionClientSubnet (be16 family @ [source, scope] @
                  (if addrLen > 0 \<and> trailing > 0
                   then body[addrLen - 1 := body ! (addrLen - 1) AND push_bit trailing 0xff] else body))))"

definition ClientSubnet :: "ednsOption \<Rightarrow> (ipprefix \<times> u8) option" where
  "ClientSubnet opt =
     (let d = opt_data opt in
      if opt_code opt \<noteq> EDNSOptionClientSubnet \<or> length d < 4 then None
      else
        let family = rd16 d; source = d ! 2; scope = d ! 3; addr = drop 4 d in
        if family \<noteq> 1 \<and> family \<noteq> 2 then None
        else
          let width = (if family = 1 then 32 else 128) :: nat; addrLen = (unat source + 7) div 8 in
          if unat source > width then None
          else if length addr < addrLen then None
          else
            let trailing = addrLen * 8 - unat source in
            if addrLen > 0 \<and> trailing > 0 \<and> addr ! (addrLen - 1) AND NOT (push_bit trailing 0xff) \<noteq> 0 then None
            else if family = 1 then
              Some (PrefixFrom (AddrFrom4 (padTo 4 (take addrLen addr))) (uint source), scope)
            else Some (PrefixFrom (AddrFrom16 (padTo 16 (take addrLen addr))) (uint source), scope))"

subsection \<open>Names and key tags\<close>

definition NewChain :: "wname \<Rightarrow> ednsOption" where
  "NewChain n = EDNSOption EDNSOptionChain (pbuf (putNameUncompressed n (NewPacker [])))"

definition ChainClosestTrustPoint :: "ednsOption \<Rightarrow> wname option" where
  "ChainClosestTrustPoint opt =
     (if opt_code opt \<noteq> EDNSOptionChain then None
      else case fst (getName (NewUnpacker (opt_data opt))) of Inl _ \<Rightarrow> None | Inr n \<Rightarrow> Some n)"

definition NewReportChannel :: "wname \<Rightarrow> ednsOption" where
  "NewReportChannel n = EDNSOption EDNSOptionReportChannel (pbuf (putNameUncompressed n (NewPacker [])))"

definition ReportChannelAgent :: "ednsOption \<Rightarrow> wname option" where
  "ReportChannelAgent opt =
     (if opt_code opt \<noteq> EDNSOptionReportChannel then None
      else case fst (getName (NewUnpacker (opt_data opt))) of Inl _ \<Rightarrow> None | Inr n \<Rightarrow> Some n)"

definition NewKeyTag :: "u16 list \<Rightarrow> ednsOption" where
  "NewKeyTag tags = EDNSOption EDNSOptionKeyTag (concat (map be16 tags))"

fun keyTags_loop :: "bytes \<Rightarrow> u16 list" where
  "keyTags_loop (a # b # r) = rd16 [a, b] # keyTags_loop r"
| "keyTags_loop _ = []"

definition KeyTags :: "ednsOption \<Rightarrow> u16 list option" where
  "KeyTags opt =
     (if opt_code opt \<noteq> EDNSOptionKeyTag then None
      else if length (opt_data opt) mod 2 \<noteq> 0 then None
      else Some (keyTags_loop (opt_data opt)))"

text \<open>\<^verbatim>\<open>strconv.FormatUint(v, 10)\<close>\<close>

fun decDigits :: "nat \<Rightarrow> bytes" where
  "decDigits n = (if n < 10 then [ch0 + word_of_nat n] else decDigits (n div 10) @ [ch0 + word_of_nat (n mod 10)])"

declare decDigits.simps [simp del]

fun joinLabels :: "bytes list \<Rightarrow> bytes" where
  "joinLabels [] = [chDot]"
| "joinLabels [p] = p"
| "joinLabels (p # ps) = p @ [chDot] @ joinLabels ps"

text \<open>The label \<^verbatim>\<open>_er\<close>\<close>

definition erLabel :: bytes where
  "erLabel = [0x5f, 0x65, 0x72]"

definition BuildErrorReportName :: "wname \<Rightarrow> u16 \<Rightarrow> u16 \<Rightarrow> wname \<Rightarrow> wire_error + wname" where
  "BuildErrorReportName qname qtype infoCode agent =
     (if \<not> IsValid qname \<or> IsRoot qname then Inl (ErrInvalidMessage ''error-report qname must be non-root'')
      else if \<not> IsValid agent then Inl (ErrInvalidMessage ''error-report agent invalid'')
      else Parse (joinLabels ([erLabel, decDigits (unat qtype)] @ Labels qname @
             [decDigits (unat infoCode), erLabel] @ Labels agent)))"

subsection \<open>Padding\<close>

definition paddingBlock :: nat where
  "paddingBlock = 128"

text \<open>The closure \<^verbatim>\<open>build\<close> of \<^verbatim>\<open>PadEncrypted\<close>: the message is rebuilt record by record.\<close>

definition padBuild :: "message \<Rightarrow> nat \<Rightarrow> wire_error + message \<times> bytes" where
  "padBuild m padBytes =
     (let e0 = (case m_edns m of None \<Rightarrow> NewEDNSBuilder | Some e \<Rightarrow> e) in
      ebind (NewEDNSOption EDNSOptionPadding (replicate padBytes 0)) (\<lambda>pad.
        let b0 = bFlags (\<lambda>_. m_flags m) (bID (m_id m) NewMessageBuilder);
            b1 = fold bAdditional (m_additionals m) (fold bAuthority (m_authorities m)
                   (fold bAnswer (m_answers m) (fold bQuestion (m_questions m) b0)))
        in ebind (fst (ednsBuild (ednsOptionAdd pad (fold ednsOptionAdd (e_opts e0) (e0\<lparr>e_opts := []\<rparr>))))) (\<lambda>ed.
           ebind (fst (Build (bEDNS ed b1))) (\<lambda>msg.
           ebind (PackMsg msg) (\<lambda>buf. Inr (msg, buf))))))"

definition PadEncrypted :: "message \<Rightarrow> message" where
  "PadEncrypted m =
     (if (case m_edns m of None \<Rightarrow> False | Some e \<Rightarrow> \<exists>opt \<in> set (e_opts e). opt_code opt = EDNSOptionPadding) then m
      else
        case padBuild m 0 of
          Inl _ \<Rightarrow> m
        | Inr (_, buf0) \<Rightarrow>
            let rem = length buf0 mod paddingBlock in
            (case padBuild m (if rem = 0 then 0 else paddingBlock - rem) of
               Inl _ \<Rightarrow> m
             | Inr (msg, _) \<Rightarrow> msg))"

subsection \<open>Constructors and decoders\<close>

lemmas option_defs = NewNSID_def NSIDIdentifier_def NewEDNSExpire_def NewEDNSExpireQuery_def EDNSExpireSeconds_def
  NewTCPKeepalive_def TCPKeepaliveTimeout_def NewExtendedError_def ExtendedError_def NewZoneVersionQuery_def
  NewZoneVersionSOASerial_def ZoneVersionSOASerial_def NewClientCookie_def NewClientServerCookie_def Cookies_def

lemma NSID_roundtrip: "NSIDIdentifier (NewNSID b) = Some b"
  by (simp add: option_defs)

lemma EDNSExpire_roundtrip: "EDNSExpireSeconds (NewEDNSExpire s) = Some s" "EDNSExpireSeconds NewEDNSExpireQuery = None"
  by (simp_all add: option_defs)

lemma ExtendedError_roundtrip: "ExtendedError (NewExtendedError code extra) = Some (code, extra)"
  by (simp add: option_defs)

lemma ZoneVersion_roundtrip:
  "ZoneVersionSOASerial (NewZoneVersionSOASerial lc serial) = Some (lc, serial)"
  "ZoneVersionSOASerial NewZoneVersionQuery = None"
  by (simp_all add: option_defs)

lemma Cookies_client: "length c = 8 \<Longrightarrow> Cookies (NewClientCookie c) = Some (c, [])"
  by (simp add: option_defs)

lemma Cookies_client_server:
  "length c = 8 \<Longrightarrow> NewClientServerCookie c s = Inr opt \<Longrightarrow> Cookies opt = Some (c, s)"
  by (auto simp: option_defs split: if_splits)

lemma Cookies_length: "Cookies opt = Some (c, s) \<Longrightarrow> length c = 8 \<and> (s = [] \<or> 8 \<le> length s \<and> length s \<le> 32)"
  by (auto simp: option_defs Let_def split: if_splits)

lemma TCPKeepalive_units:
  assumes "0 < d"
  shows "TCPKeepaliveTimeout (NewTCPKeepalive d) =
    Some (d div (100 * Millisecond) mod 65536 * (100 * Millisecond))"
proof -
  have "uint (word_of_int (d div (100 * Millisecond)) :: u16) = d div (100 * Millisecond) mod 65536"
    by (simp add: uint_word_of_int)
  with assms show ?thesis
    by (simp add: option_defs tdiv_nonneg Millisecond_def)
qed

lemma keyTags_loop_concat: "keyTags_loop (concat (map be16 tags)) = tags"
  by (induction tags) (simp_all add: be16_def rd16_be16_Nil [unfolded be16_def] del: rd16.simps)

lemma length_concat_be16: "length (concat (map be16 tags)) = 2 * length tags"
  by (induction tags) simp_all

lemma KeyTags_roundtrip: "KeyTags (NewKeyTag tags) = Some tags"
  by (simp add: KeyTags_def NewKeyTag_def keyTags_loop_concat length_concat_be16)

subsection \<open>Padding\<close>

definition padded :: "message \<Rightarrow> nat \<Rightarrow> message" where
  "padded m k =
     (let e0 = (case m_edns m of None \<Rightarrow> NewEDNSBuilder | Some e \<Rightarrow> e) in
      m\<lparr>m_edns := Some (e0\<lparr>e_opts := e_opts e0 @ [EDNSOption EDNSOptionPadding (replicate k 0)]\<rparr>)\<rparr>)"

lemma fold_ednsOptionAdd: "fold ednsOptionAdd opts e = e\<lparr>e_opts := e_opts e @ opts\<rparr>"
  by (induction opts arbitrary: e) (simp_all add: ednsOptionAdd_def)

lemma fold_bQuestion: "fold bQuestion qs b = b\<lparr>b_msg := (b_msg b)\<lparr>m_questions := m_questions (b_msg b) @ qs\<rparr>\<rparr>"
  by (induction qs arbitrary: b) (simp_all add: bQuestion_def)

lemma setErr_err [simp]: "b_err (setErr e b) \<noteq> None"
  by (simp add: setErr_def)

text \<open>The three operations that append a record to a section refuse the zero record and otherwise extend
  one field of the message under construction.\<close>

locale section_adder =
  fixes add :: "rr \<Rightarrow> builder \<Rightarrow> builder" and ext :: "rr list \<Rightarrow> builder \<Rightarrow> builder" and e :: wire_error
  assumes add: "add r b = (if IsZero r then setErr e b else ext [r] b)"
    and ext_Nil: "ext [] b = b"
    and ext_ext: "ext rs (ext rs' b) = ext (rs' @ rs) b"
    and ext_err: "b_err (ext rs b) = b_err b"
begin

lemma fold_err: "b_err b \<noteq> None \<Longrightarrow> b_err (fold add rs b) \<noteq> None"
  by (induction rs arbitrary: b) (simp_all add: add ext_err del: not_None_eq)

lemma fold_add: "b_err (fold add rs b) = None \<Longrightarrow> fold add rs b = ext rs b \<and> b_err b = None"
proof (induction rs arbitrary: b)
  case (Cons r rs)
  have "\<not> IsZero r"
  proof
    assume "IsZero r"
    then have "b_err (fold add rs (add r b)) \<noteq> None"
      by (intro fold_err) (simp add: add del: not_None_eq)
    with Cons.prems show False by simp
  qed
  then have "add r b = ext [r] b" by (simp add: add)
  with Cons.prems Cons.IH [of "ext [r] b"] show ?case by (simp add: ext_ext ext_err)
qed (simp add: ext_Nil)

end

interpretation answers: section_adder bAnswer
  "\<lambda>rs b. b\<lparr>b_msg := (b_msg b)\<lparr>m_answers := m_answers (b_msg b) @ rs\<rparr>\<rparr>"
  "ErrOther ''MessageBuilder.Answer received zero Record''"
  by unfold_locales (simp_all add: bAnswer_def)

interpretation authorities: section_adder bAuthority
  "\<lambda>rs b. b\<lparr>b_msg := (b_msg b)\<lparr>m_authorities := m_authorities (b_msg b) @ rs\<rparr>\<rparr>"
  "ErrOther ''MessageBuilder.Authority received zero Record''"
  by unfold_locales (simp_all add: bAuthority_def)

interpretation additionals: section_adder bAdditional
  "\<lambda>rs b. b\<lparr>b_msg := (b_msg b)\<lparr>m_additionals := m_additionals (b_msg b) @ rs\<rparr>\<rparr>"
  "ErrOther ''MessageBuilder.Additional received zero Record''"
  by unfold_locales (simp_all add: bAdditional_def)

text \<open>The builder of \<^verbatim>\<open>PadEncrypted\<close> before the EDNS payload is attached.\<close>

definition rebuilt :: "message \<Rightarrow> builder" where
  "rebuilt m = fold bAdditional (m_additionals m) (fold bAuthority (m_authorities m)
     (fold bAnswer (m_answers m) (fold bQuestion (m_questions m)
       (bFlags (\<lambda>_. m_flags m) (bID (m_id m) NewMessageBuilder)))))"

lemma rebuilt_msg:
  assumes "b_err (rebuilt m) = None"
  shows "b_msg (rebuilt m) = m\<lparr>m_edns := None\<rparr>"
proof -
  define b0 where "b0 = fold bQuestion (m_questions m) (bFlags (\<lambda>_. m_flags m) (bID (m_id m) NewMessageBuilder))"
  define b1 where "b1 = fold bAnswer (m_answers m) b0"
  define b2 where "b2 = fold bAuthority (m_authorities m) b1"
  have r: "rebuilt m = fold bAdditional (m_additionals m) b2"
    by (simp add: rebuilt_def b0_def b1_def b2_def)
  have "b_msg (rebuilt m) = (b_msg b2)\<lparr>m_additionals := m_additionals (b_msg b2) @ m_additionals m\<rparr>"
    and e2: "b_err b2 = None"
    using additionals.fold_add [of "m_additionals m" b2] assms by (simp_all add: r)
  moreover have "b_msg b2 = (b_msg b1)\<lparr>m_authorities := m_authorities (b_msg b1) @ m_authorities m\<rparr>"
    and e1: "b_err b1 = None"
    using authorities.fold_add [of "m_authorities m" b1] e2 by (simp_all add: b2_def)
  moreover have "b_msg b1 = (b_msg b0)\<lparr>m_answers := m_answers (b_msg b0) @ m_answers m\<rparr>"
    using answers.fold_add [of "m_answers m" b0] e1 by (simp add: b1_def)
  moreover have "b_msg b0 = \<lparr>m_id = m_id m, m_flags = m_flags m, m_questions = m_questions m, m_answers = [],
      m_authorities = [], m_additionals = [], m_edns = None\<rparr>"
    by (simp add: b0_def fold_bQuestion bFlags_def bID_def NewMessageBuilder_def emptyMessage_def)
  ultimately show ?thesis by simp
qed

lemma padBuild_iff:
  assumes "k \<le> 65535"
  shows "padBuild m k = Inr (msg, buf) \<longleftrightarrow>
    b_err (rebuilt m) = None \<and> distinct (map opt_code (e_opts (the (m_edns (padded m k))))) \<and>
    msg = padded m k \<and> PackMsg msg = Inr buf"
proof -
  define e0 where "e0 = (case m_edns m of None \<Rightarrow> NewEDNSBuilder | Some e \<Rightarrow> e)"
  define pad where "pad = EDNSOption EDNSOptionPadding (replicate k 0)"
  have e: "ednsOptionAdd pad (fold ednsOptionAdd (e_opts e0) (e0\<lparr>e_opts := []\<rparr>)) = the (m_edns (padded m k))"
    by (simp add: fold_ednsOptionAdd ednsOptionAdd_def padded_def Let_def e0_def pad_def)
  have "padBuild m k = ebind (fst (ednsBuild (the (m_edns (padded m k))))) (\<lambda>ed.
      ebind (fst (Build (bEDNS ed (rebuilt m)))) (\<lambda>msg. ebind (PackMsg msg) (\<lambda>buf. Inr (msg, buf))))"
    using assms by (simp add: padBuild_def NewEDNSOption_def Let_def e0_def [symmetric] pad_def [symmetric]
        e rebuilt_def [symmetric])
  moreover have "b_err (rebuilt m) = None \<Longrightarrow>
      (b_msg (rebuilt m))\<lparr>m_edns := Some (the (m_edns (padded m k)))\<rparr> = padded m k"
    using rebuilt_msg [of m] by (simp add: padded_def Let_def)
  ultimately show ?thesis
    by (auto simp: ednsBuild_def dupCode_iff Build_def bEDNS_def ebind_def split: option.splits sum.splits)
qed

text \<open>The OPT record stands last, so the length of a message is affine in the length of its options.\<close>

definition optsLen :: "edns \<Rightarrow> nat" where
  "optsLen e = (\<Sum>opt \<leftarrow> e_opts e. 4 + length (opt_data opt))"

lemma length_packOPT:
  "packOPT e p = Inr p' \<Longrightarrow> length (pbuf p') = length (pbuf p) + 11 + optsLen e \<and> optsLen e \<le> 65535"
  by (auto simp: packOPT_def Let_def length_putOptions optsLen_def wire_simps patchUint16_def split: if_splits)

lemma packOPT_small: "optsLen e \<le> 65535 \<Longrightarrow> \<exists>p'. packOPT e p = Inr p'"
  by (auto simp: packOPT_def Let_def length_putOptions optsLen_def wire_simps)

lemma PackMsg_edns:
  assumes "PackMsg (m\<lparr>m_edns := Some e\<rparr>) = Inr buf"
  obtains p3 where "length buf = length (pbuf p3) + 11 + optsLen e" "length buf \<le> 65535"
    "\<And>e'. PackMsg (m\<lparr>m_edns := Some e'\<rparr>) = ebind (packOPT e' p3) (\<lambda>p4.
       if length (pbuf p4) > 0xffff then Inl (ErrInvalidMessage ''message exceeds wire limit (65535)'')
       else Inr (pbuf p4))"
proof -
  have hd: "packHeader (m\<lparr>m_edns := Some e\<rparr>) = packHeader (m\<lparr>m_edns := Some e'\<rparr>)" for e'
    by (simp add: packHeader_def arCount_def)
  from assms obtain p1 p2 p3 p4 where
    p: "packRecords (m_answers m) (fold packQuestion (m_questions m) (packHeader (m\<lparr>m_edns := Some e\<rparr>) (NewPacker []))) = Inr p1"
      "packRecords (m_authorities m) p1 = Inr p2" "packRecords (m_additionals m) p2 = Inr p3"
    and p4: "packOPT e p3 = Inr p4" "length (pbuf p4) \<le> 65535" "buf = pbuf p4"
    and few: "length (m_questions m) \<le> 65535" "length (m_answers m) \<le> 65535"
      "length (m_authorities m) \<le> 65535" "length (m_additionals m) \<le> 65535"
    by (auto simp: PackMsg_def ebind_def split: if_splits sum.splits)
  show ?thesis
  proof (rule that [of p3])
    show "length buf = length (pbuf p3) + 11 + optsLen e" using length_packOPT [OF p4(1)] p4 by simp
    show "length buf \<le> 65535" using p4 by simp
    show "PackMsg (m\<lparr>m_edns := Some e'\<rparr>) = ebind (packOPT e' p3) (\<lambda>p4.
       if length (pbuf p4) > 0xffff then Inl (ErrInvalidMessage ''message exceeds wire limit (65535)'')
       else Inr (pbuf p4))" for e'
      using few p by (simp add: PackMsg_def hd [of e', symmetric])
  qed
qed

lemma PackMsg_edns_length:
  assumes "PackMsg (m\<lparr>m_edns := Some e\<rparr>) = Inr buf" "optsLen e' = optsLen e + k"
  shows "length buf + k \<le> 65535 \<Longrightarrow> \<exists>buf'. PackMsg (m\<lparr>m_edns := Some e'\<rparr>) = Inr buf' \<and> length buf' = length buf + k"
    and "65535 < length buf + k \<Longrightarrow> \<exists>err. PackMsg (m\<lparr>m_edns := Some e'\<rparr>) = Inl err"
proof -
  from PackMsg_edns [OF assms(1)] obtain p3 where
    l: "length buf = length (pbuf p3) + 11 + optsLen e" "length buf \<le> 65535" and
    eq: "PackMsg (m\<lparr>m_edns := Some e'\<rparr>) = ebind (packOPT e' p3) (\<lambda>p4.
       if length (pbuf p4) > 0xffff then Inl (ErrInvalidMessage ''message exceeds wire limit (65535)'')
       else Inr (pbuf p4))" by blast
  show "\<exists>buf'. PackMsg (m\<lparr>m_edns := Some e'\<rparr>) = Inr buf' \<and> length buf' = length buf + k"
    if "length buf + k \<le> 65535"
  proof -
    from that l assms(2) have "optsLen e' \<le> 65535" by simp
    then obtain p' where p': "packOPT e' p3 = Inr p'" using packOPT_small by blast
    with that l assms(2) length_packOPT [OF p'] show ?thesis by (simp add: eq)
  qed
  show "\<exists>err. PackMsg (m\<lparr>m_edns := Some e'\<rparr>) = Inl err" if "65535 < length buf + k"
  proof (cases "packOPT e' p3")
    case (Inr p')
    with that l assms(2) length_packOPT [OF Inr] show ?thesis by (simp add: eq)
  qed (simp add: eq)
qed

lemma optsLen_padded: "optsLen (the (m_edns (padded m k))) = optsLen (the (m_edns (padded m 0))) + k"
  by (simp add: padded_def optsLen_def Let_def)

lemma padBuild_extend:
  assumes "padBuild m 0 = Inr (m0, buf0)" "k \<le> 65535"
  shows "length buf0 + k \<le> 65535 \<Longrightarrow> \<exists>buf. padBuild m k = Inr (padded m k, buf) \<and>
      PackMsg (padded m k) = Inr buf \<and> length buf = length buf0 + k"
    and "65535 < length buf0 + k \<Longrightarrow> \<exists>err. padBuild m k = Inl err"
proof -
  from assms(1) have r: "b_err (rebuilt m) = None"
    and d: "distinct (map opt_code (e_opts (the (m_edns (padded m 0)))))" and p: "PackMsg (padded m 0) = Inr buf0"
    by (auto simp: padBuild_iff)
  have d': "distinct (map opt_code (e_opts (the (m_edns (padded m k)))))"
    using d by (simp add: padded_def Let_def)
  define ed where "ed j = the (m_edns (padded m j))" for j
  have m: "m\<lparr>m_edns := Some (ed j)\<rparr> = padded m j" for j by (simp add: padded_def Let_def ed_def)
  have "optsLen (ed k) = optsLen (ed 0) + k" unfolding ed_def by (rule optsLen_padded)
  note ext = PackMsg_edns_length [OF p [folded m [of 0]] this, unfolded m]
  show "\<exists>buf. padBuild m k = Inr (padded m k, buf) \<and> PackMsg (padded m k) = Inr buf \<and> length buf = length buf0 + k"
    if "length buf0 + k \<le> 65535"
    using ext(1) [OF that] r d' assms(2) by (auto simp: padBuild_iff)
  show "\<exists>err. padBuild m k = Inl err" if "65535 < length buf0 + k"
  proof (cases "padBuild m k")
    case (Inr r)
    then obtain msg buf where "padBuild m k = Inr (msg, buf)" by (cases r) auto
    with ext(2) [OF that] show ?thesis by (auto simp: padBuild_iff [OF assms(2)])
  qed simp
qed

definition hasPadding :: "message \<Rightarrow> bool" where
  "hasPadding m = (case m_edns m of None \<Rightarrow> False | Some e \<Rightarrow> EDNSOptionPadding \<in> opt_code ` set (e_opts e))"

lemma PadEncrypted_hasPadding: "hasPadding m \<Longrightarrow> PadEncrypted m = m"
  by (auto simp: PadEncrypted_def hasPadding_def split: option.splits)

definition padLen :: "nat \<Rightarrow> nat" where
  "padLen n = (if n mod 128 = 0 then 0 else 128 - n mod 128)"

lemma padLen_dvd: "128 dvd n + padLen n" "padLen n < 128"
proof -
  have "n + (128 - n mod 128) = 128 * (n div 128 + 1)"
  proof -
    define q r where "q = n div 128" and "r = n mod 128"
    have "n = 128 * q + r" "r < 128" by (simp_all add: q_def r_def)
    then show ?thesis unfolding q_def [symmetric] r_def [symmetric] by simp
  qed
  then show "128 dvd n + padLen n" by (simp add: padLen_def mod_eq_0_iff_dvd)
qed (simp add: padLen_def)

lemma PadEncrypted_padded:
  assumes "\<not> hasPadding m" "padBuild m 0 = Inr (m0, buf0)"
  shows "PadEncrypted m = (if length buf0 \<le> 65408 then padded m (padLen (length buf0)) else m)"
proof -
  let ?k = "padLen (length buf0)"
  have k: "?k \<le> 65535" using padLen_dvd(2) [of "length buf0"] by simp
  have eq: "PadEncrypted m = (case padBuild m ?k of Inl _ \<Rightarrow> m | Inr (msg, _) \<Rightarrow> msg)"
    using assms by (auto simp: PadEncrypted_def hasPadding_def padLen_def paddingBlock_def split: option.splits)
  from padLen_dvd(1) obtain q where q: "length buf0 + ?k = 128 * q" by (rule dvdE)
  have le: "length buf0 + ?k \<le> 65535 \<longleftrightarrow> length buf0 \<le> 65408"
  proof
    assume "length buf0 + ?k \<le> 65535"
    then have "q \<le> 511" using q by linarith
    then show "length buf0 \<le> 65408" using q by linarith
  next
    assume "length buf0 \<le> 65408"
    then show "length buf0 + ?k \<le> 65535" using padLen_dvd(2) [of "length buf0"] by linarith
  qed
  show ?thesis
  proof (cases "length buf0 \<le> 65408")
    case True
    with padBuild_extend(1) [OF assms(2) k] le obtain buf where "padBuild m ?k = Inr (padded m ?k, buf)" by blast
    with True show ?thesis by (simp add: eq)
  next
    case False
    with padBuild_extend(2) [OF assms(2) k] le obtain err where "padBuild m ?k = Inl err" by force
    with False show ?thesis by (simp add: eq)
  qed
qed

subsection \<open>The privacy boundary of the client subnet\<close>

text \<open>\<^verbatim>\<open>netip.Prefix.Masked\<close>: the bits behind the prefix are cleared.\<close>

fun maskBytes :: "nat \<Rightarrow> bytes \<Rightarrow> bytes" where
  "maskBytes n [] = []"
| "maskBytes n (b # bs) =
     (if 8 \<le> n then b # maskBytes (n - 8) bs else (b AND push_bit (8 - n) 0xff) # replicate (length bs) 0)"

fun maskAddr :: "nat \<Rightarrow> ipaddr \<Rightarrow> ipaddr" where
  "maskAddr n ZeroAddr = ZeroAddr"
| "maskAddr n (Addr4 b) = Addr4 (maskBytes n b)"
| "maskAddr n (Addr6 b z) = Addr6 (maskBytes n b) z"

definition Masked :: "ipprefix \<Rightarrow> ipprefix" where
  "Masked p = Prefix (maskAddr (nat (prefix_bits p)) (prefix_addr p)) (prefix_bits p)"

definition prefix_ok :: "ipprefix \<Rightarrow> bool" where
  "prefix_ok p \<longleftrightarrow> 0 \<le> prefix_bits p \<and> prefix_bits p \<le> BitLen (prefix_addr p) \<and>
     (addr4_ok (prefix_addr p) \<or> addr6_ok (prefix_addr p))"

lemma length_maskBytes [simp]: "length (maskBytes n bs) = length bs"
  by (induction n bs rule: maskBytes.induct) auto

lemma bit_mask_ff: "bit (push_bit k (0xff :: byte)) i \<longleftrightarrow> k \<le> i \<and> i < 8"
proof -
  have m: "(0xff :: byte) = - 1" by simp
  show ?thesis unfolding m bit_push_bit_iff bit_minus_1_iff by auto
qed

lemma maskBytes_bit:
  "i < 8 * length bs \<Longrightarrow>
     bit (maskBytes n bs ! (i div 8)) (7 - i mod 8) \<longleftrightarrow> i < n \<and> bit (bs ! (i div 8)) (7 - i mod 8)"
proof (induction n bs arbitrary: i rule: maskBytes.induct)
  case (2 n b bs)
  show ?case
  proof (cases "i < 8")
    case True
    then show ?thesis by (auto simp: bit_and_iff bit_mask_ff)
  next
    case False
    define j where "j = i - 8"
    with False have j: "i = j + 8" by simp
    then have d: "i div 8 = Suc (j div 8)" "i mod 8 = j mod 8" by simp_all
    show ?thesis
    proof (cases "8 \<le> n")
      case True
      with 2(1) [of j] 2(2) j show ?thesis unfolding d by auto
    next
      case False
      with 2(2) j show ?thesis unfolding d by simp
    qed
  qed
qed simp

text \<open>The number of octets a prefix of \<open>s\<close> bits takes.\<close>

definition octets :: "nat \<Rightarrow> nat" where
  "octets s = (s + 7) div 8"

lemma octets_simps [simp]: "octets 0 = 0" "octets (t + 8) = Suc (octets t)" "0 < s \<Longrightarrow> s \<le> 8 \<Longrightarrow> octets s = 1"
  by (simp_all add: octets_def)

lemma octets_pos: "0 < octets s \<longleftrightarrow> 0 < s"
  by (auto simp: octets_def)

lemma bits_cases:
  fixes s :: nat
  obtains "s = 0" | "0 < s" "s < 8" | t where "s = t + 8"
proof (cases "8 \<le> s")
  case True
  then have "s = (s - 8) + 8" by simp
  then show ?thesis by (rule that(3))
next
  case False
  then show ?thesis using that(1,2) by (cases "s = 0") auto
qed

definition maskBody :: "nat \<Rightarrow> bytes \<Rightarrow> bytes" where
  "maskBody s addr =
     (let L = octets s; body = take L addr; trailing = L * 8 - s in
      if L > 0 \<and> trailing > 0 then body[L - 1 := body ! (L - 1) AND push_bit trailing 0xff] else body)"

lemma maskBody_Cons: "maskBody (t + 8) (b # bs) = b # maskBody t bs"
  by (cases "octets t") (simp_all add: maskBody_def Let_def)

lemma byte_shift_out: "(b :: byte) AND push_bit 8 0xff = 0" "(b :: byte) AND NOT (push_bit 0 0xff) = 0"
  by (rule bit_word_eqI; simp only: bit_and_iff bit_not_iff bit_mask_ff; simp)+

lemma maskBytes_simps:
  "maskBytes 0 (b # bs) = 0 # replicate (length bs) 0"
  "s < 8 \<Longrightarrow> maskBytes s (b # bs) = (b AND push_bit (8 - s) 0xff) # replicate (length bs) 0"
  "maskBytes (t + 8) (b # bs) = b # maskBytes t bs"
  using byte_shift_out(1) [of b] by simp_all

lemma maskBody_eq: "s \<le> 8 * length addr \<Longrightarrow> maskBody s addr = take (octets s) (maskBytes s addr)"
proof (induction addr arbitrary: s)
  case (Cons b bs)
  show ?case
  proof (cases s rule: bits_cases)
    case (3 t)
    with Cons.prems Cons.IH [of t] show ?thesis by (simp only: maskBytes_simps maskBody_Cons octets_simps take_Suc_Cons) simp
  qed (simp_all add: maskBody_def Let_def maskBytes_simps del: maskBytes.simps)
qed (simp add: maskBody_def)

lemma maskBytes_tail: "drop (octets s) (maskBytes s addr) = replicate (length addr - octets s) 0"
proof (induction addr arbitrary: s)
  case (Cons b bs)
  show ?case
  proof (cases s rule: bits_cases)
    case (3 t)
    with Cons.IH [of t] show ?thesis by (simp only: maskBytes_simps octets_simps drop_Suc_Cons) simp
  qed (simp_all add: maskBytes_simps del: maskBytes.simps)
qed simp

lemma padTo_maskBytes: "padTo (length addr) (take (octets s) (maskBytes s addr)) = maskBytes s addr"
proof -
  have "maskBytes s addr = take (octets s) (maskBytes s addr) @ replicate (length addr - octets s) 0"
    using append_take_drop_id [of "octets s" "maskBytes s addr"] unfolding maskBytes_tail by simp
  moreover have "take (min (length addr) (octets s)) (maskBytes s addr) = take (octets s) (maskBytes s addr)"
    by (simp add: min_def)
  moreover have "length addr - min (length addr) (octets s) = length addr - octets s" by simp
  ultimately show ?thesis by (simp only: padTo_def take_take length_take length_maskBytes)
qed

lemma mask_clear: "(a AND push_bit k 0xff) AND NOT (push_bit k (0xff :: byte)) = 0"
  by (rule bit_word_eqI) (simp add: bit_and_iff bit_not_iff)

lemma maskBytes_last:
  "0 < s \<Longrightarrow> s \<le> 8 * length addr \<Longrightarrow>
     maskBytes s addr ! (octets s - 1) AND NOT (push_bit (octets s * 8 - s) 0xff) = 0"
proof (induction addr arbitrary: s)
  case (Cons b bs)
  show ?case
  proof (cases s rule: bits_cases)
    case 2
    then show ?thesis by (simp add: maskBytes_simps mask_clear del: maskBytes.simps)
  next
    case (3 t)
    show ?thesis
    proof (cases "t = 0")
      case True
      with 3 byte_shift_out(2) [of b] show ?thesis by simp
    next
      case False
      then obtain L where "octets t = Suc L" using octets_pos [of t] by (cases "octets t") auto
      with 3 False Cons.prems Cons.IH [of t] show ?thesis by (simp add: maskBytes_simps del: maskBytes.simps)
    qed
  qed (use Cons.prems in simp)
qed simp

text \<open>The encoder sends the masked address, so the option depends on the first \<open>bits\<close> bits only.\<close>

lemma prefix_okE:
  assumes "prefix_ok p"
  obtains b n where "p = Prefix (Addr4 b) (int n)" "length b = 4" "n \<le> 32"
  | b n where "p = Prefix (Addr6 b []) (int n)" "length b = 16" "n \<le> 128"
proof -
  obtain a k where p: "p = Prefix a k" by (cases p)
  with assms obtain n where "k = int n" by (auto simp: prefix_ok_def elim: nonneg_int_cases)
  with assms p that show ?thesis
    by (auto simp: prefix_ok_def addr4_ok_def addr6_ok_def)
qed

lemma byte_of_bits: "n \<le> 128 \<Longrightarrow> (word_of_int (int n) :: byte) = word_of_nat n"
  by simp

definition subnetOption :: "u16 \<Rightarrow> nat \<Rightarrow> u8 \<Rightarrow> bytes \<Rightarrow> ednsOption" where
  "subnetOption family n scope addr =
     EDNSOption EDNSOptionClientSubnet (be16 family @ [word_of_nat n, scope] @ take (octets n) (maskBytes n addr))"

lemma octets_bound: "n \<le> 8 * l \<Longrightarrow> octets n \<le> l"
  by (simp add: octets_def)

lemma NewClientSubnet_eq:
  "length b = 4 \<Longrightarrow> n \<le> 32 \<Longrightarrow> NewClientSubnet (Prefix (Addr4 b) (int n)) scope = Inr (subnetOption 1 n scope b)"
  "length b = 16 \<Longrightarrow> n \<le> 128 \<Longrightarrow> NewClientSubnet (Prefix (Addr6 b z) (int n)) scope = Inr (subnetOption 2 n scope b)"
  using octets_bound [of n 4] octets_bound [of n 16] maskBody_eq [of n b]
  by (auto simp: NewClientSubnet_def prefixIsValid_def subnetOption_def maskBody_def octets_def [symmetric] Let_def
      split: if_splits)

lemma ClientSubnet_subnetOption:
  "length b = 4 \<Longrightarrow> n \<le> 32 \<Longrightarrow>
     ClientSubnet (subnetOption 1 n scope b) = Some (Prefix (Addr4 (maskBytes n b)) (int n), scope)"
  "length b = 16 \<Longrightarrow> n \<le> 128 \<Longrightarrow>
     ClientSubnet (subnetOption 2 n scope b) = Some (Prefix (Addr6 (maskBytes n b) []) (int n), scope)"
  using octets_bound [of n 4] octets_bound [of n 16] maskBytes_last [of n b] padTo_maskBytes [of b n] octets_pos [of n]
  by (cases "n = 0"; simp add: ClientSubnet_def subnetOption_def octets_def [symmetric] Let_def be16_def
      PrefixFrom_def AddrFrom4_def AddrFrom16_def)+

lemma maskBytes_idem [simp]: "maskBytes n (maskBytes n b) = maskBytes n b"
  by (induction n b rule: maskBytes.induct) (simp_all add: and.assoc)

lemma ClientSubnet_masked:
  "prefix_ok p \<Longrightarrow> \<exists>opt. NewClientSubnet p scope = Inr opt \<and> NewClientSubnet (Masked p) scope = Inr opt \<and>
     ClientSubnet opt = Some (Masked p, scope)"
  by (erule prefix_okE)
    (simp_all add: Masked_def NewClientSubnet_eq ClientSubnet_subnetOption, simp_all add: subnetOption_def)

subsection \<open>Options that carry a name\<close>

lemma getName_wire:
  assumes "nm_ok n"
  shows "fst (getName (NewUnpacker (wire n))) = Inr n"
proof -
  from assms obtain ls where ls: "n = Name (wire_of ls)" "Labels n = ls" "list_all label_ok ls"
    "length (wire_of ls) \<le> maxNameLen" by (auto simp: nm_ok_def elim: wf_nameE)
  have "names_at ([] @ wire_of ls) (length []) (Labels n) 0 (length (wire_of ls))"
    using names_at_wire_of [OF ls(3), of "[]" "[]"] ls(2) by simp
  from getName_at [OF _ _ this, of "[]"] assms ls show ?thesis
    by (simp add: nm_ok_def NewUnpacker_def cur_at_def)
qed

lemma pbuf_putNameUncompressed: "nm_ok n \<Longrightarrow> pbuf (putNameUncompressed n (NewPacker [])) = wire n"
  by (simp add: nm_ok_def putNameUncompressed_def AppendWire_def wire_simps NewPacker_def)

lemma Chain_roundtrip: "nm_ok n \<Longrightarrow> ChainClosestTrustPoint (NewChain n) = Some n"
  by (simp add: ChainClosestTrustPoint_def NewChain_def pbuf_putNameUncompressed getName_wire)

lemma ReportChannel_roundtrip: "nm_ok n \<Longrightarrow> ReportChannelAgent (NewReportChannel n) = Some n"
  by (simp add: ReportChannelAgent_def NewReportChannel_def pbuf_putNameUncompressed getName_wire)

subsection \<open>The name of an error report\<close>

text \<open>Octets that stand for themselves in presentation format.\<close>

definition plainByte :: "byte \<Rightarrow> bool" where
  "plainByte c \<longleftrightarrow> c \<noteq> chDot \<and> c \<noteq> chBackslash \<and> c \<noteq> 0 \<and> foldByte c = c"

lemma parse_loop_plain:
  "list_all plainByte l \<Longrightarrow> length (label @ l) \<le> maxLabelLen \<Longrightarrow>
     parse_loop (l @ s) w label = parse_loop s w (label @ l)"
  by (induction l arbitrary: label) (simp_all add: plainByte_def parse_appendLabel_def)

lemma parse_loop_joinLabels:
  "ls \<noteq> [] \<Longrightarrow> list_all label_ok ls \<Longrightarrow> list_all (list_all plainByte) ls \<Longrightarrow> length (w @ wire_of ls) \<le> maxNameLen \<Longrightarrow>
     parse_loop (joinLabels ls) w [] = Inr (w @ concat (map enc_label (butlast ls)), last ls)"
proof (induction ls arbitrary: w rule: joinLabels.induct)
  case (2 p)
  then show ?case using parse_loop_plain [of p "[]" "[]" w] by (simp add: label_ok_def)
next
  case (3 p q ps)
  have "parse_loop (joinLabels (p # q # ps)) w [] = parse_loop (chDot # joinLabels (q # ps)) w p"
    using parse_loop_plain [of p "[]"] 3 by (simp add: label_ok_def)
  also have "\<dots> = parse_loop (joinLabels (q # ps)) (w @ enc_label p) []"
    using 3 by (simp add: parse_flush_ok enc_label_def)
  also have "\<dots> = Inr ((w @ enc_label p) @ concat (map enc_label (butlast (q # ps))), last (q # ps))"
    using 3 by (intro "3.IH") (auto simp: enc_label_def)
  finally show ?case by simp
qed simp

lemma joinLabels_first: "ls \<noteq> [] \<Longrightarrow> \<exists>s. joinLabels ls = hd ls @ s"
  by (cases ls rule: joinLabels.cases) auto

lemma Parse_joinLabels:
  assumes "ls \<noteq> []" "list_all label_ok ls" "list_all (list_all plainByte) ls" "length (wire_of ls) \<le> maxNameLen"
  shows "Parse (joinLabels ls) = Inr (Name (wire_of ls))"
proof -
  define a l where "a = butlast ls" and "l = last ls"
  have ls: "ls = a @ [l]" using assms(1) by (simp add: a_def l_def)
  have l: "label_ok l" using assms(2) ls by simp
  have w: "wire_of ls = concat (map enc_label a) @ enc_label l @ [0]" by (simp add: ls wire_of_def)
  obtain c l' where hd: "hd ls = c # l'" "plainByte c"
    using assms(1-3) by (cases ls; cases "hd ls") (auto simp: label_ok_def)
  with joinLabels_first [OF assms(1)] have "joinLabels ls \<noteq> []" "joinLabels ls \<noteq> [chDot]"
    by (auto simp: plainByte_def)
  moreover have "parse_loop (joinLabels ls) [] [] = Inr (concat (map enc_label a), l)"
    using parse_loop_joinLabels [OF assms(1-3), of "[]"] assms(4) by (simp add: a_def l_def)
  moreover have "parse_flush (concat (map enc_label a)) l = Inr (concat (map enc_label a) @ enc_label l)"
    using l assms(4) by (intro parse_flush_ok) (simp_all add: w)
  ultimately show ?thesis using l assms(4) by (simp add: Parse_def w label_ok_def)
qed

lemma decDigits_digits: "list_all isDigit (decDigits n)"
  by (induction n rule: decDigits.induct) (subst decDigits.simps, simp add: digit_byte)

lemma decDigits_length: "n < 10 ^ k \<Longrightarrow> 0 < k \<Longrightarrow> 0 < length (decDigits n) \<and> length (decDigits n) \<le> k"
proof (induction k arbitrary: n)
  case (Suc k)
  show ?case
  proof (cases "n < 10")
    case False
    with Suc.prems have "0 < k" by (cases k) auto
    moreover from Suc.prems have "n div 10 < 10 ^ k" by (simp add: less_mult_imp_div_less mult.commute)
    ultimately show ?thesis using Suc.IH False by (subst (1 2) decDigits.simps) auto
  qed (subst (1 2) decDigits.simps, simp)
qed simp

lemma isDigit_plain: "isDigit c \<Longrightarrow> plainByte c"
  by (auto simp: isDigit_def plainByte_def foldByte_def word_le_nat_alt)

lemma decDigits_label: "label_ok (decDigits (unat (v :: u16)))" "list_all plainByte (decDigits (unat v))"
proof -
  have "unat v < 100000" using unat_u16_less [of v] by linarith
  then have "unat v < 10 ^ 5" by simp
  from decDigits_length [OF this] show "label_ok (decDigits (unat v))" by (auto simp: label_ok_def maxLabelLen_def)
  show "list_all plainByte (decDigits (unat v))"
    using decDigits_digits [of "unat v"] isDigit_plain by (auto simp: list_all_iff)
qed

lemma erLabel_label: "label_ok erLabel" "list_all plainByte erLabel"
  by code_simp+

definition reportLabels :: "wname \<Rightarrow> u16 \<Rightarrow> u16 \<Rightarrow> wname \<Rightarrow> bytes list" where
  "reportLabels qname qtype infoCode agent =
     [erLabel, decDigits (unat qtype)] @ Labels qname @ [decDigits (unat infoCode), erLabel] @ Labels agent"

lemma BuildErrorReportName_eq:
  assumes "nm_ok qname" "\<not> IsRoot qname" "nm_ok agent"
    "list_all (list_all plainByte) (Labels qname)" "list_all (list_all plainByte) (Labels agent)"
    "length (wire_of (reportLabels qname qtype infoCode agent)) \<le> maxNameLen"
  shows "BuildErrorReportName qname qtype infoCode agent =
    Inr (Name (wire_of (reportLabels qname qtype infoCode agent)))"
proof -
  have "list_all label_ok (Labels qname)" "list_all label_ok (Labels agent)"
    using assms(1,3) by (auto simp: nm_ok_def elim: wf_nameE)
  then have "list_all label_ok (reportLabels qname qtype infoCode agent)"
    "list_all (list_all plainByte) (reportLabels qname qtype infoCode agent)"
    using assms(4,5) by (simp_all add: reportLabels_def decDigits_label erLabel_label)
  from Parse_joinLabels [OF _ this assms(6)] assms(1-3) show ?thesis
    by (simp add: BuildErrorReportName_def nm_ok_def reportLabels_def)
qed

text \<open>Labels are joined without escaping: a dot inside a label of the query name becomes a label boundary, and
  two different query names give the same report.\<close>

lemma BuildErrorReportName_collision:
  "BuildErrorReportName (Name [3, 0x61, chDot, 0x62, 0]) 1 0 (Name [1, 0x63, 0]) =
   BuildErrorReportName (Name [1, 0x61, 1, 0x62, 0]) 1 0 (Name [1, 0x63, 0])"
  by code_simp

end
