(* ===== verification/Wire_RRset.thy ===== *)
theory Wire_RRset
  imports Edns_Options "HOL-Library.Multiset" "HOL-Library.List_Lexorder" "HOL-Library.Product_Lexorder"
begin

text \<open>
  Resource record sets (\<^verbatim>\<open>wire/rrset.go\<close>) and the comparison of records and messages
  (\<^verbatim>\<open>wire/compare.go\<close>).  Grouping is shown to be the stable partition of its input by owner, class and type,
  and the comparison of sections to be equality of multisets whenever no two records differ in their TTL alone.
\<close>

subsection \<open>Record sets\<close>

record rrset =
  s_name :: wname
  s_typ :: u16
  s_class :: u16
  s_ttl :: duration
  s_records :: "rr list"

text \<open>The loop of \<^verbatim>\<open>NewRRset\<close> over the records behind the first.\<close>

fun newRRset_loop :: "rr \<Rightarrow> rr list \<Rightarrow> duration \<Rightarrow> wire_error + duration" where
  "newRRset_loop first [] minTTL = Inr minTTL"
| "newRRset_loop first (r # rs) minTTL =
     (if \<not> NameEqual (rr_name first) (rr_name r) then Inl (ErrInvalidMessage ''RRset record name mismatch'')
      else if rr_class first \<noteq> rr_class r then Inl (ErrInvalidMessage ''RRset record class mismatch'')
      else if rrType first \<noteq> rrType r then Inl (ErrInvalidMessage ''RRset record type mismatch'')
      else newRRset_loop first rs (if rr_ttl r < minTTL then rr_ttl r else minTTL))"

definition NewRRset :: "rr list \<Rightarrow> wire_error + rrset" where
  "NewRRset records =
     (case records of
        [] \<Rightarrow> Inl (ErrInvalidMessage ''RRset requires at least one record'')
      | first # rs \<Rightarrow>
          ebind (newRRset_loop first rs (rr_ttl first)) (\<lambda>minTTL.
          Inr \<lparr>s_name = rr_name first, s_typ = rrType first, s_class = rr_class first, s_ttl = minTTL,
               s_records = records\<rparr>))"

fun rdatas_loop :: "wname \<Rightarrow> u16 \<Rightarrow> duration \<Rightarrow> u16 \<Rightarrow> rdata list \<Rightarrow> wire_error + rr list" where
  "rdatas_loop n c ttl typ [] = Inr []"
| "rdatas_loop n c ttl typ (rd # rds) =
     (if Type rd \<noteq> typ then Inl (ErrInvalidMessage ''RRset rdata type mismatch'')
      else ebind (rdatas_loop n c ttl typ rds) (\<lambda>rs. Inr (NewRecordClass n c ttl rd # rs)))"

definition NewRRsetFromRDatas :: "wname \<Rightarrow> u16 \<Rightarrow> duration \<Rightarrow> rdata list \<Rightarrow> wire_error + rrset" where
  "NewRRsetFromRDatas n c ttl rds =
     (case rds of
        [] \<Rightarrow> Inl (ErrInvalidMessage ''RRset requires at least one rdata'')
      | rd # _ \<Rightarrow>
          ebind (rdatas_loop n c ttl (Type rd) rds) (\<lambda>records.
          Inr \<lparr>s_name = n, s_typ = Type rd, s_class = c, s_ttl = ttl, s_records = records\<rparr>))"

text \<open>The map of \<^verbatim>\<open>GroupRecords\<close> from keys to positions, and the groups.\<close>

type_synonym rrkey = "bytes \<times> u16 \<times> u16"

definition groupKey :: "rr \<Rightarrow> rrkey" where
  "groupKey r = (NameString (rr_name r), rr_class r, rrType r)"

definition group_step :: "rr \<Rightarrow> (rrkey \<Rightarrow> nat option) \<times> rr list list \<Rightarrow> (rrkey \<Rightarrow> nat option) \<times> rr list list" where
  "group_step r = (\<lambda>(indexByKey, groups).
     case indexByKey (groupKey r) of
       None \<Rightarrow> (indexByKey(groupKey r \<mapsto> length groups), groups @ [[r]])
     | Some idx \<Rightarrow> (indexByKey, groups[idx := groups ! idx @ [r]]))"

fun newRRsets :: "rr list list \<Rightarrow> wire_error + rrset list" where
  "newRRsets [] = Inr []"
| "newRRsets (g # gs) = ebind (NewRRset g) (\<lambda>s. ebind (newRRsets gs) (\<lambda>ss. Inr (s # ss)))"

definition GroupRecords :: "rr list \<Rightarrow> wire_error + rrset list" where
  "GroupRecords records = newRRsets (snd (fold group_step records (Map.empty, [])))"

subsection \<open>Comparison\<close>

text \<open>\<^verbatim>\<open>rdata.Pack\<close>; on the nil interface it panics.\<close>

definition rdPack :: "rdata option \<Rightarrow> wire_error + bytes" where
  "rdPack rd = (case rd of None \<Rightarrow> Inl (GoPanic ''nil rdata'') | Some r \<Rightarrow> Inr (packBytes packRdata r))"

definition compareRecords :: "rr \<Rightarrow> rr \<Rightarrow> wire_error + int" where
  "compareRecords a b =
     (let c = cmp_bytes (AppendWire (rr_name a) []) (AppendWire (rr_name b) []) in
      if c \<noteq> 0 then Inr c
      else if rrType a \<noteq> rrType b then Inr (if rrType a < rrType b then - 1 else 1)
      else if rr_class a \<noteq> rr_class b then Inr (if rr_class a < rr_class b then - 1 else 1)
      else ebind (rdPack (rr_rd a)) (\<lambda>pa. ebind (rdPack (rr_rd b)) (\<lambda>pb. Inr (cmp_bytes pa pb))))"

text \<open>
  \<^verbatim>\<open>slices.SortFunc\<close> by insertion, as the standard library sorts up to twelve elements: an element moves left
  past the elements it is smaller than.  Longer slices come out in the same order up to elements that compare
  equal.
\<close>

fun insertLeft :: "('a \<Rightarrow> 'a \<Rightarrow> wire_error + int) \<Rightarrow> 'a \<Rightarrow> 'a list \<Rightarrow> wire_error + 'a list" where
  "insertLeft cmp x [] = Inr [x]"
| "insertLeft cmp x (y # ys) =
     ebind (cmp x y) (\<lambda>c. if c < 0 then ebind (insertLeft cmp x ys) (\<lambda>zs. Inr (y # zs)) else Inr (x # y # ys))"

fun sortLoop :: "('a \<Rightarrow> 'a \<Rightarrow> wire_error + int) \<Rightarrow> 'a list \<Rightarrow> 'a list \<Rightarrow> wire_error + 'a list" where
  "sortLoop cmp done [] = Inr (rev done)"
| "sortLoop cmp done (x # xs) = ebind (insertLeft cmp x done) (\<lambda>d. sortLoop cmp d xs)"

definition SortFunc :: "('a \<Rightarrow> 'a \<Rightarrow> wire_error + int) \<Rightarrow> 'a list \<Rightarrow> wire_error + 'a list" where
  "SortFunc cmp xs = sortLoop cmp [] xs"

definition SortRecords :: "rr list \<Rightarrow> wire_error + rr list" where
  "SortRecords = SortFunc compareRecords"

fun questionsEqual :: "question list \<Rightarrow> question list \<Rightarrow> bool" where
  "questionsEqual [] [] = True"
| "questionsEqual (a # as) (b # bs) =
     (if \<not> NameEqual (q_name a) (q_name b) \<or> q_type a \<noteq> q_type b \<or> q_class a \<noteq> q_class b then False
      else questionsEqual as bs)"
| "questionsEqual _ _ = False"

definition QuestionsMatch :: "message \<Rightarrow> message \<Rightarrow> bool" where
  "QuestionsMatch a b = questionsEqual (m_questions a) (m_questions b)"

definition recordEqual :: "rr \<Rightarrow> rr \<Rightarrow> wire_error + bool" where
  "recordEqual a b =
     (if \<not> NameEqual (rr_name a) (rr_name b) \<or> rrType a \<noteq> rrType b \<or> rr_class a \<noteq> rr_class b then Inr False
      else if rr_ttl a \<noteq> rr_ttl b then Inr False
      else ebind (rdPack (rr_rd a)) (\<lambda>pa. ebind (rdPack (rr_rd b)) (\<lambda>pb. Inr (pa = pb))))"

fun recordsEqual_loop :: "rr list \<Rightarrow> rr list \<Rightarrow> wire_error + bool" where
  "recordsEqual_loop (a # as) (b # bs) =
     ebind (recordEqual a b) (\<lambda>e. if \<not> e then Inr False else recordsEqual_loop as bs)"
| "recordsEqual_loop _ _ = Inr True"

definition recordsSectionEqual :: "rr list \<Rightarrow> rr list \<Rightarrow> wire_error + bool" where
  "recordsSectionEqual a b =
     (if length a \<noteq> length b then Inr False
      else ebind (SortRecords a) (\<lambda>aa. ebind (SortRecords b) (\<lambda>bb. recordsEqual_loop aa bb)))"

definition compareOptions :: "ednsOption \<Rightarrow> ednsOption \<Rightarrow> wire_error + int" where
  "compareOptions x y =
     (if opt_code x \<noteq> opt_code y then Inr (if opt_code x < opt_code y then - 1 else 1)
      else Inr (cmp_bytes (opt_data x) (opt_data y)))"

fun optionsEqual_loop :: "ednsOption list \<Rightarrow> ednsOption list \<Rightarrow> bool" where
  "optionsEqual_loop (a # as) (b # bs) =
     (if opt_code a \<noteq> opt_code b \<or> opt_data a \<noteq> opt_data b then False else optionsEqual_loop as bs)"
| "optionsEqual_loop _ _ = True"

definition ednsEqual :: "message \<Rightarrow> message \<Rightarrow> wire_error + bool" where
  "ednsEqual a b =
     (case (m_edns a, m_edns b) of
        (None, None) \<Rightarrow> Inr True
      | (Some ea, Some eb) \<Rightarrow>
          if e_udpSize ea \<noteq> e_udpSize eb \<or> e_extRCODE ea \<noteq> e_extRCODE eb \<or> e_version ea \<noteq> e_version eb \<or>
             e_do ea \<noteq> e_do eb then Inr False
          else if length (e_opts ea) \<noteq> length (e_opts eb) then Inr False
          else ebind (SortFunc compareOptions (e_opts ea)) (\<lambda>sa.
               ebind (SortFunc compareOptions (e_opts eb)) (\<lambda>sb. Inr (optionsEqual_loop sa sb)))
      | _ \<Rightarrow> Inr False)"

text \<open>Conjunction that stops at the first false or panicking operand.\<close>

definition andThen :: "wire_error + bool \<Rightarrow> wire_error + bool \<Rightarrow> wire_error + bool" where
  "andThen a b = ebind a (\<lambda>x. if x then b else Inr False)"

definition MessageEqual :: "message \<Rightarrow> message \<Rightarrow> wire_error + bool" where
  "MessageEqual a b =
     (if m_id a \<noteq> m_id b \<or> m_flags a \<noteq> m_flags b then Inr False
      else if \<not> questionsEqual (m_questions a) (m_questions b) then Inr False
      else
        andThen (recordsSectionEqual (m_answers a) (m_answers b))
        (andThen (recordsSectionEqual (m_authorities a) (m_authorities b))
        (andThen (recordsSectionEqual (m_additionals a) (m_additionals b))
          (ednsEqual a b))))"

subsection \<open>Grouping\<close>

lemma newRRset_loop_iff:
  "newRRset_loop first rs m = Inr t \<longleftrightarrow>
     (\<forall>r \<in> set rs. NameEqual (rr_name first) (rr_name r) \<and> rr_class first = rr_class r \<and> rrType first = rrType r) \<and>
     t = Min (insert m (rr_ttl ` set rs))"
proof (induction rs arbitrary: m)
  case (Cons r rs)
  have "Min (insert (if rr_ttl r < m then rr_ttl r else m) (rr_ttl ` set rs)) = Min (insert m (rr_ttl ` set (r # rs)))"
    by (cases "rs = []") (auto simp: min_def)
  with Cons.IH show ?case by auto
qed auto

definition sameSet :: "rr \<Rightarrow> rr \<Rightarrow> bool" where
  "sameSet a b \<longleftrightarrow> wire (rr_name a) = wire (rr_name b) \<and> rr_class a = rr_class b \<and> rrType a = rrType b"

lemma NewRRset_iff:
  "NewRRset rs = Inr s \<longleftrightarrow>
     rs \<noteq> [] \<and> (\<forall>r \<in> set rs. sameSet (hd rs) r) \<and>
     s = \<lparr>s_name = rr_name (hd rs), s_typ = rrType (hd rs), s_class = rr_class (hd rs),
          s_ttl = Min (rr_ttl ` set rs), s_records = rs\<rparr>"
proof (cases rs)
  case (Cons r rs')
  show ?thesis
    using newRRset_loop_iff [of r rs' "rr_ttl r" "Min (insert (rr_ttl r) (rr_ttl ` set rs'))"]
    by (cases "newRRset_loop r rs' (rr_ttl r)")
      (auto simp: Cons NewRRset_def newRRset_loop_iff sameSet_def NameEqual_def)
qed (simp add: NewRRset_def)

text \<open>The presentation form of names is injective, so the string key separates different owners.\<close>

lemma dec3_inj: "dec3 c @ s = dec3 c' @ s' \<Longrightarrow> c = c' \<and> s = s'"
  using parse_escape_dec3 [of c s] parse_escape_dec3 [of c' s'] by (metis Inr_inject prod.inject)

lemma dec3_hd_digit: "\<exists>d r. dec3 c = d # r \<and> isDigit d"
proof -
  have "unat c div 100 < 10" using unat_byte_less [of c] by linarith
  with digit_byte show ?thesis by (auto simp: dec3_def)
qed

lemma escapeByte_inj:
  assumes "escapeByte c @ s = escapeByte c' @ s'"
  shows "c = c' \<and> s = s'"
proof -
  have bs: "\<not> (chBackslash < (0x21 :: byte))" "\<not> (chBackslash > (0x7e :: byte))" by simp_all
  have nd: "\<not> isDigit chDot" "\<not> isDigit chBackslash" by (simp_all add: isDigit_def)
  obtain d r where d: "dec3 c = d # r" "isDigit d" using dec3_hd_digit by blast
  obtain d' r' where d': "dec3 c' = d' # r'" "isDigit d'" using dec3_hd_digit by blast
  show ?thesis
    using assms d d' nd dec3_inj [of c s c' s'] by (auto simp: escapeByte_def split: if_splits)
qed

lemma escape_label_inj:
  "concat (map escapeByte l) @ chDot # s = concat (map escapeByte l') @ chDot # s' \<Longrightarrow> l = l' \<and> s = s'"
proof (induction l arbitrary: l')
  case Nil
  show ?case
  proof (cases l')
    case (Cons c r)
    with Nil show ?thesis by (auto simp: escapeByte_def split: if_splits)
  qed (use Nil in simp)
next
  case (Cons c l)
  show ?case
  proof (cases l')
    case Nil
    with Cons.prems show ?thesis by (auto simp: escapeByte_def split: if_splits)
  next
    case (Cons c' r)
    with escapeByte_inj [of c _ c'] Cons.prems Cons.IH [of r] show ?thesis by auto
  qed
qed

lemma string_loop_inj:
  "list_all label_ok ls \<Longrightarrow> list_all label_ok ls' \<Longrightarrow>
     string_loop (wire_of ls) = string_loop (wire_of ls') \<Longrightarrow> ls = ls'"
proof (induction ls arbitrary: ls')
  case Nil
  then show ?case by (cases ls') (auto simp: string_loop_wire_of)
next
  case (Cons l ls)
  then show ?case
  proof (cases ls')
    case (Cons l' r)
    with Cons.prems escape_label_inj [of l "string_loop (wire_of ls)" l' "string_loop (wire_of r)"] Cons.IH [of r]
    show ?thesis by (auto simp: label_ok_def)
  qed (auto simp: string_loop_wire_of)
qed

lemma string_loop_not_dot:
  assumes "list_all label_ok ls" "ls \<noteq> []"
  shows "string_loop (wire_of ls) \<noteq> [chDot]" "string_loop (wire_of ls) \<noteq> []"
proof -
  obtain c l r where "ls = (c # l) # r"
    using assms by (cases ls; cases "hd ls") (auto simp: label_ok_def)
  then show "string_loop (wire_of ls) \<noteq> [chDot]" "string_loop (wire_of ls) \<noteq> []"
    unfolding string_loop_wire_of [OF assms(1)] using escapeByte_neq_Nil [of c]
    by (auto simp: append_eq_Cons_conv)
qed

lemma NameString_inj:
  assumes "wf_name n" "wf_name n'" "NameString n = NameString n'"
  shows "n = n'"
proof -
  from assms(1) obtain ls where n: "n = Name (wire_of ls)" "list_all label_ok ls" by (rule wf_nameE)
  from assms(2) obtain ls' where n': "n' = Name (wire_of ls')" "list_all label_ok ls'" by (rule wf_nameE)
  have root: "IsRoot (Name (wire_of ls)) \<longleftrightarrow> ls = []" if "list_all label_ok ls" for ls
    using that by (cases ls) (auto simp: IsRoot_def)
  have str: "NameString (Name (wire_of ls)) = (if ls = [] then [chDot] else string_loop (wire_of ls))"
    if "list_all label_ok ls" for ls
    using root [OF that] by (simp add: NameString_def IsValid_def)
  show ?thesis
    using assms(3) string_loop_inj [OF n(2) n'(2)] string_loop_not_dot [OF n(2)] string_loop_not_dot [OF n'(2)]
    unfolding n(1) n'(1) str [OF n(2)] str [OF n'(2)] by (metis (full_types))
qed

text \<open>\<^const>\<open>GroupRecords\<close> partitions its input; the groups appear in the order of their first records.\<close>

definition firsts :: "'a list \<Rightarrow> 'a list" where
  "firsts xs = rev (remdups (rev xs))"

lemma firsts_snoc: "firsts (xs @ [x]) = (if x \<in> set xs then firsts xs else firsts xs @ [x])"
  by (simp add: firsts_def)

lemma set_firsts [simp]: "set (firsts xs) = set xs" and distinct_firsts [simp]: "distinct (firsts xs)"
  by (simp_all add: firsts_def)

definition group_inv :: "rr list \<Rightarrow> (rrkey \<Rightarrow> nat option) \<times> rr list list \<Rightarrow> bool" where
  "group_inv rs st \<longleftrightarrow>
     (let ks = firsts (map groupKey rs) in
      snd st = map (\<lambda>k. filter (\<lambda>r. groupKey r = k) rs) ks \<and>
      (\<forall>k i. fst st k = Some i \<longleftrightarrow> i < length ks \<and> ks ! i = k))"

lemma group_step_inv:
  assumes "group_inv rs st"
  shows "group_inv (rs @ [r]) (group_step r st)"
proof -
  define ks where "ks = firsts (map groupKey rs)"
  obtain idx groups where st: "st = (idx, groups)" by (cases st)
  have groups: "groups = map (\<lambda>k. filter (\<lambda>r. groupKey r = k) rs) ks"
    and idx: "\<And>k i. idx k = Some i \<longleftrightarrow> i < length ks \<and> ks ! i = k"
    using assms by (auto simp: group_inv_def st ks_def [symmetric] Let_def split_paired_all)
  have ks: "distinct ks" "set ks = groupKey ` set rs" by (simp_all add: ks_def)
  show ?thesis
  proof (cases "idx (groupKey r)")
    case None
    then have "\<And>i. \<not> (i < length ks \<and> ks ! i = groupKey r)" using idx [of "groupKey r"] by simp
    then have new: "groupKey r \<notin> set ks" by (auto simp: in_set_conv_nth)
    then have old: "\<And>i. i < length ks \<Longrightarrow> ks ! i \<noteq> groupKey r" using nth_mem by metis
    from new have "firsts (map groupKey (rs @ [r])) = ks @ [groupKey r]" using ks by (simp add: firsts_snoc ks_def [symmetric])
    moreover have "filter (\<lambda>x. groupKey x = groupKey r) rs = []" using new ks(2) by (metis (mono_tags, lifting) filter_False imageI)
    ultimately show ?thesis
      using None old new idx by (auto simp: group_inv_def group_step_def st groups nth_append less_Suc_eq)
  next
    case (Some i)
    then have i: "i < length ks" "ks ! i = groupKey r" using idx by auto
    then have "groupKey r \<in> set ks" using nth_mem by metis
    then have f: "firsts (map groupKey (rs @ [r])) = ks" using ks by (simp add: firsts_snoc ks_def [symmetric])
    have "groups[i := groups ! i @ [r]] = map (\<lambda>k. filter (\<lambda>x. groupKey x = k) (rs @ [r])) ks"
    proof (rule nth_equalityI)
      fix j assume "j < length (groups[i := groups ! i @ [r]])"
      then have j: "j < length ks" by (simp add: groups)
      have "j \<noteq> i \<Longrightarrow> ks ! j \<noteq> groupKey r" using i j ks(1) nth_eq_iff_index_eq by metis
      with i j show "groups[i := groups ! i @ [r]] ! j = map (\<lambda>k. filter (\<lambda>x. groupKey x = k) (rs @ [r])) ks ! j"
        by (cases "j = i") (auto simp: groups nth_list_update)
    qed (simp add: groups)
    moreover have "group_step r st = (idx, groups[i := groups ! i @ [r]])" by (simp add: group_step_def st Some)
    ultimately show ?thesis unfolding group_inv_def Let_def f using idx by simp
  qed
qed

lemma fold_group_inv: "group_inv rs (fold group_step rs (Map.empty, []))"
proof (induction rs rule: rev_induct)
  case Nil
  show ?case by (simp add: group_inv_def firsts_def)
qed (simp add: group_step_inv)

definition groupsOf :: "rr list \<Rightarrow> rr list list" where
  "groupsOf rs = map (\<lambda>k. filter (\<lambda>r. groupKey r = k) rs) (firsts (map groupKey rs))"

lemma newRRsets_ok:
  assumes "\<And>g. g \<in> set gs \<Longrightarrow> \<exists>s. NewRRset g = Inr s"
  shows "\<exists>ss. newRRsets gs = Inr ss \<and> list_all2 (\<lambda>g s. NewRRset g = Inr s) gs ss"
  using assms
proof (induction gs)
  case (Cons g gs)
  then obtain s ss where "NewRRset g = Inr s" "newRRsets gs = Inr ss" "list_all2 (\<lambda>g s. NewRRset g = Inr s) gs ss"
    by fastforce
  then show ?case by simp
qed simp

lemma groupKey_sameSet:
  assumes "wf_name (rr_name a)" "wf_name (rr_name b)"
  shows "groupKey a = groupKey b \<longleftrightarrow> sameSet a b"
  using NameString_inj [OF assms] wname.expand [of "rr_name a" "rr_name b"] by (auto simp: groupKey_def sameSet_def)

lemma GroupRecords_ok:
  assumes "\<forall>r \<in> set rs. wf_name (rr_name r)"
  obtains ss where "GroupRecords rs = Inr ss" "map s_records ss = groupsOf rs"
    "\<forall>s \<in> set ss. NewRRset (s_records s) = Inr s"
proof -
  have g: "GroupRecords rs = newRRsets (groupsOf rs)"
    using fold_group_inv [of rs] by (simp add: GroupRecords_def group_inv_def groupsOf_def Let_def)
  have "\<exists>s. NewRRset g = Inr s" if "g \<in> set (groupsOf rs)" for g
  proof -
    from that obtain k where k: "k \<in> groupKey ` set rs" "g = filter (\<lambda>r. groupKey r = k) rs"
      by (auto simp: groupsOf_def)
    then have "g \<noteq> []" by (auto simp: filter_empty_conv)
    then have "hd g \<in> set g" by simp
    have "sameSet (hd g) r" if "r \<in> set g" for r
      using that \<open>hd g \<in> set g\<close> k(2) assms groupKey_sameSet [of "hd g" r] by simp
    with \<open>g \<noteq> []\<close> show ?thesis by (simp add: NewRRset_iff)
  qed
  from newRRsets_ok [OF this] obtain ss where
    ss: "newRRsets (groupsOf rs) = Inr ss" "list_all2 (\<lambda>g s. NewRRset g = Inr s) (groupsOf rs) ss" by blast
  from ss(2) have "map s_records ss = groupsOf rs \<and> (\<forall>s \<in> set ss. NewRRset (s_records s) = Inr s)"
    by (induction rule: list_all2_induct) (auto simp: NewRRset_iff)
  with that g ss show ?thesis by simp
qed

subsection \<open>Sorting\<close>

lemma cmp_bytes_less: "cmp_bytes x y < 0 \<longleftrightarrow> x < y"
  by (induction x y rule: cmp_bytes.induct) auto

text \<open>A comparison that follows the order of a key, on the elements it is total for.\<close>

locale keyed_order =
  fixes cmp :: "'a \<Rightarrow> 'a \<Rightarrow> wire_error + int" and key :: "'a \<Rightarrow> 'k :: linorder" and dom :: "'a \<Rightarrow> bool"
  assumes cmp: "dom a \<Longrightarrow> dom b \<Longrightarrow> \<exists>c. cmp a b = Inr c \<and> (c < 0 \<longleftrightarrow> key a < key b)"
begin

lemma insertLeft_ok:
  "dom x \<Longrightarrow> list_all dom ys \<Longrightarrow> sorted (rev (map key ys)) \<Longrightarrow>
     \<exists>zs. insertLeft cmp x ys = Inr zs \<and> mset zs = add_mset x (mset ys) \<and> sorted (rev (map key zs))"
proof (induction ys)
  case (Cons y ys)
  from Cons.prems cmp [of x y] obtain c where c: "cmp x y = Inr c" "c < 0 \<longleftrightarrow> key x < key y" by auto
  from Cons obtain zs where zs: "insertLeft cmp x ys = Inr zs" "mset zs = add_mset x (mset ys)" "sorted (rev (map key zs))"
    by (auto simp: sorted_append)
  have set: "set zs = insert x (set ys)" using arg_cong [OF zs(2), of set_mset] by simp
  show ?case
    using c zs set Cons.prems(3) by (auto simp: sorted_append)
qed simp

lemma sortLoop_ok:
  "list_all dom xs \<Longrightarrow> list_all dom ys \<Longrightarrow> sorted (rev (map key ys)) \<Longrightarrow>
     \<exists>zs. sortLoop cmp ys xs = Inr zs \<and> mset zs = mset xs + mset ys \<and> sorted (map key zs)"
proof (induction xs arbitrary: ys)
  case (Cons x xs)
  with insertLeft_ok [of x ys] obtain zs where zs: "insertLeft cmp x ys = Inr zs"
    "mset zs = add_mset x (mset ys)" "sorted (rev (map key zs))" by auto
  have "set zs = insert x (set ys)" using arg_cong [OF zs(2), of set_mset] by simp
  with Cons.prems have "list_all dom zs" by (simp add: list_all_iff)
  with Cons.IH [of zs] Cons.prems zs obtain ws where "sortLoop cmp zs xs = Inr ws" "mset ws = mset xs + mset zs"
    "sorted (map key ws)" by auto
  with zs show ?case by simp
qed (simp add: rev_map)

lemma SortFunc_ok:
  assumes "list_all dom xs"
  obtains zs where "SortFunc cmp xs = Inr zs" "mset zs = mset xs" "sorted (map key zs)"
  using sortLoop_ok [OF assms, of "[]"] by (auto simp: SortFunc_def)

lemma sorted_keys_unique:
  assumes "sorted (map key xs)" "sorted (map key ys)" "image_mset key (mset xs) = image_mset key (mset ys)"
  shows "map key xs = map key ys"
proof -
  have "mset (map key xs) = mset (map key ys)" using assms(3) by simp
  with assms(1,2) show ?thesis by (metis properties_for_sort)
qed

text \<open>Sorting both sides decides equality of multisets up to a finer key.\<close>

lemma sorted_decides:
  assumes "sorted (map key xs)" "sorted (map key ys)" "mset xs = mset as" "mset ys = mset bs"
    and fine: "\<And>a b. a \<in> set as \<union> set bs \<Longrightarrow> b \<in> set as \<union> set bs \<Longrightarrow> key a = key b \<longleftrightarrow> full a = full b"
  shows "map full xs = map full ys \<longleftrightarrow> image_mset full (mset as) = image_mset full (mset bs)"
proof
  assume "map full xs = map full ys"
  then show "image_mset full (mset as) = image_mset full (mset bs)"
    using assms(3,4) by (metis mset_map)
next
  assume eq: "image_mset full (mset as) = image_mset full (mset bs)"
  define k where "k v = key (SOME x. x \<in> set as \<union> set bs \<and> full x = v)" for v
  have k: "k (full x) = key x" if "x \<in> set as \<union> set bs" for x
  proof -
    have "\<exists>y. y \<in> set as \<union> set bs \<and> full y = full x" using that by blast
    from someI_ex [OF this] that fine show ?thesis unfolding k_def by blast
  qed
  have "image_mset key (mset as) = image_mset k (image_mset full (mset as))"
    "image_mset key (mset bs) = image_mset k (image_mset full (mset bs))"
    by (auto simp: multiset.map_comp k intro!: image_mset_cong)
  then have keys: "map key xs = map key ys"
    using sorted_keys_unique [OF assms(1,2)] assms(3,4) eq by simp
  have sets: "set xs = set as" "set ys = set bs" using assms(3,4) by (metis set_mset_mset)+
  show "map full xs = map full ys"
  proof (rule nth_equalityI)
    show l: "length (map full xs) = length (map full ys)" using keys by (metis length_map)
    fix i assume i: "i < length (map full xs)"
    then have "key (xs ! i) = key (ys ! i)" using keys l by (metis length_map nth_map)
    moreover have "xs ! i \<in> set as" "ys ! i \<in> set bs" using i l sets by (metis length_map nth_mem)+
    ultimately show "map full xs ! i = map full ys ! i" using i l fine [of "xs ! i" "ys ! i"] by simp
  qed
qed

end

definition rdBytes :: "rr \<Rightarrow> bytes" where
  "rdBytes r = (case rr_rd r of None \<Rightarrow> [] | Some rd \<Rightarrow> packBytes packRdata rd)"

definition rrKey :: "rr \<Rightarrow> bytes \<times> u16 \<times> u16 \<times> bytes" where
  "rrKey r = (AppendWire (rr_name r) [], rrType r, rr_class r, rdBytes r)"

definition fullKey :: "rr \<Rightarrow> bytes \<times> u16 \<times> u16 \<times> duration \<times> bytes" where
  "fullKey r = (wire (rr_name r), rrType r, rr_class r, rr_ttl r, rdBytes r)"

interpretation records: keyed_order compareRecords rrKey "\<lambda>r. \<not> IsZero r"
proof
  fix a b assume "\<not> IsZero a" "\<not> IsZero b"
  then obtain ra rb where r: "rr_rd a = Some ra" "rr_rd b = Some rb" by (auto simp: IsZero_def)
  define na nb where "na = AppendWire (rr_name a) []" and "nb = AppendWire (rr_name b) []"
  have "cmp_bytes na nb = 0 \<or> cmp_bytes na nb \<noteq> 0 \<and> na \<noteq> nb" using cmp_bytes_0 by blast
  then show "\<exists>c. compareRecords a b = Inr c \<and> (c < 0 \<longleftrightarrow> rrKey a < rrKey b)"
    using r by (auto simp: compareRecords_def rrKey_def rdBytes_def rdPack_def Let_def cmp_bytes_less
        na_def [symmetric] nb_def [symmetric])
qed

definition optKey :: "ednsOption \<Rightarrow> u16 \<times> bytes" where
  "optKey opt = (opt_code opt, opt_data opt)"

interpretation option_order: keyed_order compareOptions optKey "\<lambda>_. True"
  by unfold_locales (auto simp: compareOptions_def optKey_def cmp_bytes_less)

subsection \<open>Equality of sections and messages\<close>

lemma recordEqual_eq:
  "\<not> IsZero a \<Longrightarrow> \<not> IsZero b \<Longrightarrow> recordEqual a b = Inr (fullKey a = fullKey b)"
  by (auto simp: recordEqual_def fullKey_def rdPack_def rdBytes_def NameEqual_def IsZero_def)

lemma recordsEqual_loop_eq:
  "length as = length bs \<Longrightarrow> list_all (\<lambda>r. \<not> IsZero r) as \<Longrightarrow> list_all (\<lambda>r. \<not> IsZero r) bs \<Longrightarrow>
     recordsEqual_loop as bs = Inr (map fullKey as = map fullKey bs)"
  by (induction as bs rule: list_induct2) (simp_all add: recordEqual_eq)

text \<open>No two records of the section agree in everything but their TTL.\<close>

definition ttl_consistent :: "rr list \<Rightarrow> bool" where
  "ttl_consistent rs \<longleftrightarrow>
     list_all (\<lambda>r. \<not> IsZero r) rs \<and> list_all (\<lambda>a. list_all (\<lambda>b. rrKey a = rrKey b \<longrightarrow> fullKey a = fullKey b) rs) rs"

lemma fullKey_rrKey: "fullKey a = fullKey b \<Longrightarrow> rrKey a = rrKey b"
  by (auto simp: fullKey_def rrKey_def AppendWire_def IsValid_def)

lemma recordsSectionEqual_iff:
  assumes "ttl_consistent (as @ bs)"
  shows "recordsSectionEqual as bs = Inr (image_mset fullKey (mset as) = image_mset fullKey (mset bs))"
proof (cases "length as = length bs")
  case True
  from assms have nz: "list_all (\<lambda>r. \<not> IsZero r) as" "list_all (\<lambda>r. \<not> IsZero r) bs"
    by (simp_all add: ttl_consistent_def)
  obtain xs where xs: "SortFunc compareRecords as = Inr xs" "mset xs = mset as" "sorted (map rrKey xs)"
    using records.SortFunc_ok [OF nz(1)] by blast
  obtain ys where ys: "SortFunc compareRecords bs = Inr ys" "mset ys = mset bs" "sorted (map rrKey ys)"
    using records.SortFunc_ok [OF nz(2)] by blast
  have "rrKey a = rrKey b \<longleftrightarrow> fullKey a = fullKey b" if "a \<in> set as \<union> set bs" "b \<in> set as \<union> set bs" for a b
    using assms that fullKey_rrKey [of a b] unfolding ttl_consistent_def list_all_iff set_append by blast
  note dec = records.sorted_decides [OF xs(3) ys(3) xs(2) ys(2) this]
  have sets: "set xs = set as" "set ys = set bs" using mset_eq_setD [OF xs(2)] mset_eq_setD [OF ys(2)] .
  have l: "length xs = length ys" using mset_eq_length [OF xs(2)] mset_eq_length [OF ys(2)] True by simp
  have "list_all (\<lambda>r. \<not> IsZero r) xs" "list_all (\<lambda>r. \<not> IsZero r) ys"
    using nz unfolding list_all_iff sets .
  from recordsEqual_loop_eq [OF l this] dec show ?thesis
    by (simp add: recordsSectionEqual_def True SortRecords_def xs(1) ys(1))
next
  case False
  then have "image_mset fullKey (mset as) \<noteq> image_mset fullKey (mset bs)"
    by (metis size_image_mset size_mset)
  with False show ?thesis by (simp add: recordsSectionEqual_def)
qed

lemma optionsEqual_loop_eq: "length as = length bs \<Longrightarrow> optionsEqual_loop as bs \<longleftrightarrow> map optKey as = map optKey bs"
  by (induction as bs rule: list_induct2) (auto simp: optKey_def)

definition ednsSame :: "edns option \<Rightarrow> edns option \<Rightarrow> bool" where
  "ednsSame a b \<longleftrightarrow>
     (case (a, b) of
        (None, None) \<Rightarrow> True
      | (Some x, Some y) \<Rightarrow> x\<lparr>e_opts := []\<rparr> = y\<lparr>e_opts := []\<rparr> \<and> mset (e_opts x) = mset (e_opts y)
      | _ \<Rightarrow> False)"

lemma optKey_inj: "optKey x = optKey y \<longleftrightarrow> x = y"
  by (cases x; cases y) (simp add: optKey_def)

lemma edns_fields:
  "x\<lparr>e_opts := []\<rparr> = y\<lparr>e_opts := []\<rparr> \<longleftrightarrow>
     e_udpSize x = e_udpSize y \<and> e_extRCODE x = e_extRCODE y \<and> e_version x = e_version y \<and> e_do x = e_do y"
  for x y :: edns
  by (cases x; cases y) auto

lemma ednsEqual_iff: "ednsEqual a b = Inr (ednsSame (m_edns a) (m_edns b))"
proof (cases "m_edns a"; cases "m_edns b")
  fix x y assume e: "m_edns a = Some x" "m_edns b = Some y"
  obtain xs where xs: "SortFunc compareOptions (e_opts x) = Inr xs" "mset xs = mset (e_opts x)" "sorted (map optKey xs)"
    using option_order.SortFunc_ok [of "e_opts x"] by (auto simp: list_all_iff)
  obtain ys where ys: "SortFunc compareOptions (e_opts y) = Inr ys" "mset ys = mset (e_opts y)" "sorted (map optKey ys)"
    using option_order.SortFunc_ok [of "e_opts y"] by (auto simp: list_all_iff)
  have dec: "xs = ys \<longleftrightarrow> mset (e_opts x) = mset (e_opts y)"
    using option_order.sorted_decides [OF xs(3) ys(3) xs(2) ys(2), of "\<lambda>x. x"] by (simp add: optKey_inj)
  have l: "length (e_opts x) = length xs" "length (e_opts y) = length ys" using xs(2) ys(2) by (metis size_mset)+
  have "length xs = length ys \<Longrightarrow> optionsEqual_loop xs ys \<longleftrightarrow> xs = ys"
    using optionsEqual_loop_eq [of xs ys] by (simp add: inj_map_eq_map inj_def optKey_inj)
  with dec l show ?thesis
    by (auto simp: e ednsEqual_def ednsSame_def xs(1) ys(1) edns_fields)
qed (simp_all add: ednsEqual_def ednsSame_def)

definition sectionSame :: "rr list \<Rightarrow> rr list \<Rightarrow> bool" where
  "sectionSame as bs \<longleftrightarrow> image_mset fullKey (mset as) = image_mset fullKey (mset bs)"

lemma MessageEqual_eq:
  assumes "ttl_consistent (m_answers a @ m_answers b)" "ttl_consistent (m_authorities a @ m_authorities b)"
    "ttl_consistent (m_additionals a @ m_additionals b)"
  shows "MessageEqual a b = Inr (m_id a = m_id b \<and> m_flags a = m_flags b \<and> QuestionsMatch a b \<and>
     sectionSame (m_answers a) (m_answers b) \<and> sectionSame (m_authorities a) (m_authorities b) \<and>
     sectionSame (m_additionals a) (m_additionals b) \<and> ednsSame (m_edns a) (m_edns b))"
  unfolding MessageEqual_def andThen_def recordsSectionEqual_iff [OF assms(1)] recordsSectionEqual_iff [OF assms(2)]
    recordsSectionEqual_iff [OF assms(3)] ednsEqual_iff
  by (auto simp: sectionSame_def QuestionsMatch_def)

end
