(* ===== verification/Replay_Cache.thy ===== *)
theory Replay_Cache
  imports Wire_RRset
begin

text \<open>
  The replay caches of the TSIG verifier (\<^verbatim>\<open>tsig/replay.go\<close>), the SIG(0) verifier (\<^verbatim>\<open>sig0/replay.go\<close>) and
  the DNSCrypt server (\<^verbatim>\<open>dnscrypt/replay.go\<close>).  The Go maps are association lists with distinct keys; the
  order of a list stands for the iteration order, which Go leaves open, so every lemma holds for each order.
  Points in time are nanoseconds.  The three caches share one contract, the locale \<open>replay_guard\<close>, and the
  guarantee of the verifiers is proved once from it.
\<close>

type_synonym gotime = int

definition Unix :: "gotime \<Rightarrow> int" where
  "Unix t = t div Second"

subsection \<open>Keys\<close>

text \<open>\<^verbatim>\<open>strconv.AppendInt(b, v, 10)\<close> and \<^verbatim>\<open>hex.EncodeToString\<close>.\<close>

definition formatInt :: "int \<Rightarrow> bytes" where
  "formatInt v = (if v < 0 then 0x2d # decDigits (nat (- v)) else decDigits (nat v))"

definition hexDigit :: "nat \<Rightarrow> byte" where
  "hexDigit n = (if n < 10 then 0x30 + word_of_nat n else 0x61 + word_of_nat (n - 10))"

definition hexEncode :: "bytes \<Rightarrow> bytes" where
  "hexEncode b = concat (map (\<lambda>c. [hexDigit (unat c div 16), hexDigit (unat c mod 16)]) b)"

definition tsig_replayKey :: "wname \<Rightarrow> gotime \<Rightarrow> bytes \<Rightarrow> bytes" where
  "tsig_replayKey keyName signedAt mac =
     AppendWire keyName [] @ [0x7c] @ formatInt (Unix signedAt) @ [0x7c] @ hexEncode mac"

text \<open>Sixteen hexadecimal digits, the low nibble last.\<close>

fun hexInt_loop :: "nat \<Rightarrow> u64 \<Rightarrow> bytes" where
  "hexInt_loop 0 v = []"
| "hexInt_loop (Suc n) v = hexInt_loop n (signed_drop_bit 4 v) @ [hexDigit (unat (v AND 0xf))]"

definition hexInt64 :: "int \<Rightarrow> bytes" where
  "hexInt64 v = hexInt_loop 16 (word_of_int v)"

definition sig0_replayKey :: "wname \<Rightarrow> gotime \<Rightarrow> bytes \<Rightarrow> bytes" where
  "sig0_replayKey signer inception signature =
     AppendWire signer [] @ [0] @ hexInt64 (Unix inception) @ [0] @ hexEncode signature"

subsection \<open>The TSIG cache\<close>

text \<open>\<open>lastSweep = None\<close> is the zero \<^verbatim>\<open>time.Time\<close>.\<close>

record tsig_cache =
  tc_size :: int
  tc_window :: duration
  tc_seen :: "(bytes \<times> gotime) list"
  tc_lastSweep :: "gotime option"

definition tsig_NewMemoryReplayCache :: "int \<Rightarrow> duration \<Rightarrow> tsig_cache" where
  "tsig_NewMemoryReplayCache sz window =
     \<lparr>tc_size = sz, tc_window = window, tc_seen = [], tc_lastSweep = None\<rparr>"

definition tsig_shouldSweepLocked :: "gotime \<Rightarrow> tsig_cache \<Rightarrow> bool" where
  "tsig_shouldSweepLocked now c =
     (if tc_size c > 0 \<and> int (length (tc_seen c)) \<ge> tdiv (tc_size c) 2 then True
      else if tc_window c \<le> 0 then False
      else case tc_lastSweep c of None \<Rightarrow> True | Some ls \<Rightarrow> now - ls \<ge> tdiv (tc_window c) 4)"

definition tsig_evictExpiredLocked :: "gotime \<Rightarrow> tsig_cache \<Rightarrow> tsig_cache" where
  "tsig_evictExpiredLocked now c =
     (let cutoff = now - tc_window c in c\<lparr>tc_seen := filter (\<lambda>(k, t). \<not> t < cutoff) (tc_seen c)\<rparr>)"

text \<open>The loop keeps the first entry with the least time.\<close>

fun oldest_loop :: "('k \<times> gotime) option \<Rightarrow> ('k \<times> gotime) list \<Rightarrow> ('k \<times> gotime) option" where
  "oldest_loop acc [] = acc"
| "oldest_loop None ((k, t) # es) = oldest_loop (Some (k, t)) es"
| "oldest_loop (Some (ok, ot)) ((k, t) # es) = oldest_loop (if t < ot then Some (k, t) else Some (ok, ot)) es"

definition deleteKey :: "'k \<Rightarrow> ('k \<times> 'v) list \<Rightarrow> ('k \<times> 'v) list" where
  "deleteKey k es = filter (\<lambda>e. fst e \<noteq> k) es"

text \<open>Without entries the key stays the empty string.\<close>

definition tsig_evictOldestLocked :: "tsig_cache \<Rightarrow> tsig_cache" where
  "tsig_evictOldestLocked c =
     (let oldestKey = (case oldest_loop None (tc_seen c) of None \<Rightarrow> [] | Some (k, t) \<Rightarrow> k) in
      c\<lparr>tc_seen := deleteKey oldestKey (tc_seen c)\<rparr>)"

definition tsig_Seen :: "bytes \<Rightarrow> gotime \<Rightarrow> tsig_cache \<Rightarrow> bool \<times> tsig_cache" where
  "tsig_Seen k now c =
     (let c1 = (if tsig_shouldSweepLocked now c
                then (tsig_evictExpiredLocked now c)\<lparr>tc_lastSweep := Some now\<rparr> else c)
      in if k \<in> fst ` set (tc_seen c1) then (True, c1)
         else
           let c2 = (if tc_size c1 > 0 \<and> int (length (tc_seen c1)) \<ge> tc_size c1 then
                       let d = (tsig_evictExpiredLocked now c1)\<lparr>tc_lastSweep := Some now\<rparr> in
                       if int (length (tc_seen d)) \<ge> tc_size d then tsig_evictOldestLocked d else d
                     else c1)
           in (False, c2\<lparr>tc_seen := (k, now) # tc_seen c2\<rparr>))"

definition tsig_Len :: "tsig_cache \<Rightarrow> nat" where
  "tsig_Len c = length (tc_seen c)"

subsection \<open>The SIG(0) cache\<close>

record sig0_cache =
  sc_size :: int
  sc_window :: duration
  sc_seen :: "(bytes \<times> gotime) list"

definition sig0_NewMemoryReplayCache :: "int \<Rightarrow> duration \<Rightarrow> sig0_cache" where
  "sig0_NewMemoryReplayCache sz window = \<lparr>sc_size = sz, sc_window = window, sc_seen = []\<rparr>"

definition sig0_evictExpiredLocked :: "gotime \<Rightarrow> sig0_cache \<Rightarrow> sig0_cache" where
  "sig0_evictExpiredLocked now c =
     (let cutoff = now - sc_window c in c\<lparr>sc_seen := filter (\<lambda>(k, t). \<not> t < cutoff) (sc_seen c)\<rparr>)"

definition sig0_evictOldestLocked :: "sig0_cache \<Rightarrow> sig0_cache" where
  "sig0_evictOldestLocked c =
     (case oldest_loop None (sc_seen c) of
        None \<Rightarrow> c
      | Some (k, t) \<Rightarrow> c\<lparr>sc_seen := deleteKey k (sc_seen c)\<rparr>)"

definition sig0_Seen :: "bytes \<Rightarrow> gotime \<Rightarrow> sig0_cache \<Rightarrow> bool \<times> sig0_cache" where
  "sig0_Seen k now c =
     (let c1 = sig0_evictExpiredLocked now c in
      if k \<in> fst ` set (sc_seen c1) then (True, c1)
      else
        let c2 = (if sc_size c1 > 0 \<and> int (length (sc_seen c1)) \<ge> sc_size c1 then sig0_evictOldestLocked c1 else c1)
        in (False, c2\<lparr>sc_seen := (k, now) # sc_seen c2\<rparr>))"

subsection \<open>The DNSCrypt cache\<close>

record dc_cache =
  dc_entries :: "(bytes \<times> gotime) list"
  dc_window :: duration
  dc_max :: int

definition newReplayCache :: "duration \<Rightarrow> int \<Rightarrow> dc_cache" where
  "newReplayCache window maxEntries = \<lparr>dc_entries = [], dc_window = window, dc_max = maxEntries\<rparr>"

text \<open>The scan for the oldest entry starts with \<^verbatim>\<open>now\<close> and the zero key.\<close>

fun dc_oldest_loop :: "bytes \<times> gotime \<Rightarrow> (bytes \<times> gotime) list \<Rightarrow> bytes \<times> gotime" where
  "dc_oldest_loop acc [] = acc"
| "dc_oldest_loop (ok, ot) ((k, t) # es) = dc_oldest_loop (if t < ot then (k, t) else (ok, ot)) es"

definition dc_seen :: "bytes \<Rightarrow> gotime \<Rightarrow> dc_cache \<Rightarrow> bool \<times> dc_cache" where
  "dc_seen key now c =
     (let cutoff = now - dc_window c in
      if (case map_of (dc_entries c) key of None \<Rightarrow> False | Some t \<Rightarrow> t > cutoff) then (True, c)
      else
        let c1 = (if int (length (dc_entries c)) \<ge> dc_max c then
                    let d = c\<lparr>dc_entries := filter (\<lambda>(k, t). t > cutoff) (dc_entries c)\<rparr> in
                    if int (length (dc_entries d)) \<ge> dc_max d
                    then d\<lparr>dc_entries := deleteKey (fst (dc_oldest_loop (replicate 44 0, now) (dc_entries d))) (dc_entries d)\<rparr>
                    else d
                  else c)
        in (False, c1\<lparr>dc_entries := (key, now) # deleteKey key (dc_entries c1)\<rparr>))"

subsection \<open>The contract of a replay cache\<close>

text \<open>A sequence of calls at given times: the answers and the final state.\<close>

fun runSeen :: "('k \<Rightarrow> gotime \<Rightarrow> 's \<Rightarrow> bool \<times> 's) \<Rightarrow> ('k \<times> gotime) list \<Rightarrow> 's \<Rightarrow> bool list \<times> 's" where
  "runSeen seen [] s = ([], s)"
| "runSeen seen ((k, now) # cs) s =
     (let (b, s1) = seen k now s; (bs, s2) = runSeen seen cs s1 in (b # bs, s2))"

text \<open>Every call of the sequence finds room: fewer live entries than the capacity.\<close>

fun roomy :: "('k \<Rightarrow> gotime \<Rightarrow> 's \<Rightarrow> bool \<times> 's) \<Rightarrow> (gotime \<Rightarrow> 's \<Rightarrow> bool) \<Rightarrow> ('k \<times> gotime) list \<Rightarrow> 's \<Rightarrow> bool" where
  "roomy seen room [] s = True"
| "roomy seen room ((k, now) # cs) s \<longleftrightarrow> room now s \<and> roomy seen room cs (snd (seen k now s))"

text \<open>The abstract cache remembers the last fresh sighting of every key for ever.\<close>

fun specRun :: "(gotime \<Rightarrow> gotime \<Rightarrow> bool) \<Rightarrow> ('k \<times> gotime) list \<Rightarrow> ('k \<Rightarrow> gotime option) \<Rightarrow> bool list" where
  "specRun live [] A = []"
| "specRun live ((k, now) # cs) A =
     (if (case A k of None \<Rightarrow> False | Some t \<Rightarrow> live now t) then True # specRun live cs A
      else False # specRun live cs (A(k \<mapsto> now)))"

locale replay_guard =
  fixes seen :: "'k \<Rightarrow> gotime \<Rightarrow> 's \<Rightarrow> bool \<times> 's"
    and entries :: "'s \<Rightarrow> 'k \<Rightarrow> gotime option"
    and live :: "'s \<Rightarrow> gotime \<Rightarrow> gotime \<Rightarrow> bool"
    and room :: "gotime \<Rightarrow> 's \<Rightarrow> bool"
    and inv :: "'s \<Rightarrow> bool"
  assumes inv_seen: "inv s \<Longrightarrow> inv (snd (seen k now s))"
    and live_seen: "live (snd (seen k now s)) = live s"
    and live_earlier: "live s now t \<Longrightarrow> now' \<le> now \<Longrightarrow> live s now' t"
    and hit: "inv s \<Longrightarrow> entries s k = Some t \<Longrightarrow> live s now t \<Longrightarrow> fst (seen k now s)"
    and recorded: "inv s \<Longrightarrow> \<not> fst (seen k now s) \<Longrightarrow> entries (snd (seen k now s)) k = Some now"
    and kept: "inv s \<Longrightarrow> room now s \<Longrightarrow> entries s k' = Some t \<Longrightarrow> live s now t \<Longrightarrow>
      entries (snd (seen k now s)) k' = Some t"
begin

lemma runSeen_kept:
  "inv s \<Longrightarrow> entries s k = Some t \<Longrightarrow> roomy seen room cs s \<Longrightarrow> \<forall>c \<in> set cs. snd c \<le> now \<Longrightarrow> live s now t \<Longrightarrow>
     inv (snd (runSeen seen cs s)) \<and> entries (snd (runSeen seen cs s)) k = Some t \<and> live (snd (runSeen seen cs s)) = live s"
proof (induction cs arbitrary: s)
  case (Cons c cs)
  obtain k1 now1 where c: "c = (k1, now1)" by (cases c)
  define s1 where "s1 = snd (seen k1 now1 s)"
  have l: "live s now1 t" using live_earlier [OF Cons.prems(5)] Cons.prems(4) c by simp
  have "entries s1 k = Some t"
    unfolding s1_def using Cons.prems l by (intro kept) (simp_all add: c)
  then have "inv (snd (runSeen seen cs s1)) \<and> entries (snd (runSeen seen cs s1)) k = Some t \<and>
      live (snd (runSeen seen cs s1)) = live s1"
    using Cons.prems c by (intro Cons.IH) (simp_all add: s1_def live_seen inv_seen)
  then show ?case by (simp add: c s1_def live_seen Let_def split_beta)
qed simp

text \<open>A key accepted as fresh is refused for as long as its entry is live.\<close>

lemma no_replay:
  assumes "inv s" "\<not> fst (seen k t s)" "roomy seen room cs (snd (seen k t s))"
    "\<forall>c \<in> set cs. snd c \<le> now" "live s now t"
  shows "fst (seen k now (snd (runSeen seen cs (snd (seen k t s)))))"
proof -
  note s1 = inv_seen [OF assms(1), of k t]
  from runSeen_kept [OF s1 recorded [OF assms(1,2)] assms(3,4)] assms(5) show ?thesis
    by (intro hit) (simp_all add: live_seen)
qed

end

locale exact_guard = replay_guard +
  assumes miss: "inv s \<Longrightarrow> fst (seen k now s) \<Longrightarrow> \<exists>t. entries s k = Some t \<and> live s now t"
    and old: "inv s \<Longrightarrow> entries (snd (seen k now s)) k' = Some t \<Longrightarrow>
      entries s k' = Some t \<or> k' = k \<and> t = now \<and> \<not> fst (seen k now s)"
begin

text \<open>With room for the live entries the cache answers as the abstract cache does.\<close>

lemma refines:
  "inv s \<Longrightarrow> sorted (map snd cs) \<Longrightarrow> roomy seen room cs s \<Longrightarrow>
     (\<And>k now t. now \<in> snd ` set cs \<Longrightarrow> live s now t \<Longrightarrow> entries s k = Some t \<longleftrightarrow> A k = Some t) \<Longrightarrow>
     fst (runSeen seen cs s) = specRun (live s) cs A"
proof (induction cs arbitrary: s A)
  case (Cons c cs)
  obtain k now where c: "c = (k, now)" by (cases c)
  define s1 where "s1 = snd (seen k now s)"
  define A1 where "A1 = (if fst (seen k now s) then A else A(k \<mapsto> now))"
  have rel: "entries s k' = Some t \<longleftrightarrow> A k' = Some t" if "live s now t" for k' t
    using Cons.prems(4) [of now] that by (simp add: c)
  have ans: "fst (seen k now s) \<longleftrightarrow> (\<exists>t. A k = Some t \<and> live s now t)"
    using hit [OF Cons.prems(1)] miss [OF Cons.prems(1)] rel by blast
  have "entries s1 k' = Some t \<longleftrightarrow> A1 k' = Some t" if now': "now' \<in> snd ` set cs" "live s1 now' t" for k' t now'
  proof -
    have "now \<le> now'" using Cons.prems(2) now'(1) by (auto simp: c)
    then have l: "live s now t" using now'(2) live_earlier by (simp add: s1_def live_seen)
    show ?thesis
    proof
      assume "entries s1 k' = Some t"
      with old [OF Cons.prems(1), of k now k' t] recorded [OF Cons.prems(1), of k now] rel [OF l]
      show "A1 k' = Some t" by (auto simp: s1_def A1_def)
    next
      assume "A1 k' = Some t"
      with kept [OF Cons.prems(1), of now k' t k] recorded [OF Cons.prems(1), of k now] rel [OF l] l Cons.prems(3)
      show "entries s1 k' = Some t" by (auto simp: s1_def A1_def c split: if_splits)
    qed
  qed
  then have "fst (runSeen seen cs s1) = specRun (live s1) cs A1"
    using Cons.prems by (intro Cons.IH) (auto simp: s1_def inv_seen c)
  with ans show ?case
    by (auto simp: c s1_def A1_def live_seen Let_def split_beta split: option.splits)
qed simp

end

subsection \<open>The three caches meet the contract\<close>

lemma map_of_filter_distinct:
  "distinct (map fst es) \<Longrightarrow> map_of (filter P es) k = Some t \<longleftrightarrow> map_of es k = Some t \<and> P (k, t)"
  by (auto simp: map_of_eq_Some_iff distinct_map_filter)

lemma map_of_deleteKey: "map_of (deleteKey k0 es) k = (if k = k0 then None else map_of es k)"
  by (induction es) (auto simp: deleteKey_def)

lemma distinct_deleteKey: "distinct (map fst es) \<Longrightarrow> distinct (map fst (deleteKey k es))"
  by (simp add: deleteKey_def distinct_map_filter)

lemma keys_deleteKey: "fst ` set (deleteKey k es) = fst ` set es - {k}"
  by (auto simp: deleteKey_def)

lemma map_of_mem_iff: "k \<in> fst ` set es \<longleftrightarrow> (\<exists>t. map_of es k = Some t)"
  by (metis domD domI dom_map_of_conv_image_fst)

lemma oldest_loop_mem: "oldest_loop acc es = Some e \<Longrightarrow> acc = Some e \<or> e \<in> set es"
  by (induction acc es rule: oldest_loop.induct) (auto split: if_splits)

lemma oldest_loop_None: "oldest_loop acc es = None \<longleftrightarrow> acc = None \<and> es = []"
  by (induction acc es rule: oldest_loop.induct) auto

lemma length_deleteKey: "k \<in> fst ` set es \<Longrightarrow> length (deleteKey k es) < length es"
  unfolding deleteKey_def by (rule length_filter_less [where x = "(k, the (map_of es k))"])
    (auto simp: map_of_mem_iff dest: map_of_SomeD)

definition tsig_inv :: "tsig_cache \<Rightarrow> bool" where
  "tsig_inv c \<longleftrightarrow> distinct (map fst (tc_seen c)) \<and> (tc_size c > 0 \<longrightarrow> int (length (tc_seen c)) \<le> tc_size c)"

definition tsig_room :: "gotime \<Rightarrow> tsig_cache \<Rightarrow> bool" where
  "tsig_room now c \<longleftrightarrow> tc_size c > 0 \<longrightarrow>
     int (length (filter (\<lambda>(k, t). \<not> t < now - tc_window c) (tc_seen c))) < tc_size c"

text \<open>The shape all three caches share: a call drops entries, live ones only if there is no room, and a fresh key
  is recorded.\<close>

definition seen_step ::
    "(gotime \<Rightarrow> bool) \<Rightarrow> bool \<Rightarrow> 'k \<Rightarrow> gotime \<Rightarrow> ('k \<times> gotime) list \<Rightarrow> bool \<Rightarrow> ('k \<times> gotime) list \<Rightarrow> bool" where
  "seen_step lv room k now es b es' \<longleftrightarrow>
     (\<exists>P. (room \<or> b \<longrightarrow> (\<forall>k t. lv t \<longrightarrow> P (k, t))) \<and>
          es' = (if b then filter P es else (k, now) # filter (\<lambda>e. P e \<and> fst e \<noteq> k) es)) \<and>
     (\<not> b \<longrightarrow> (\<forall>t. (k, t) \<in> set es \<longrightarrow> \<not> lv t))"

lemma seen_step_distinct: "seen_step lv room k now es b es' \<Longrightarrow> distinct (map fst es) \<Longrightarrow> distinct (map fst es')"
  by (auto simp: seen_step_def distinct_map_filter)

lemma seen_step_hit:
  "seen_step lv room k now es b es' \<Longrightarrow> distinct (map fst es) \<Longrightarrow> map_of es k = Some t \<Longrightarrow> lv t \<Longrightarrow> b"
  by (auto simp: seen_step_def dest: map_of_SomeD)

lemma seen_step_recorded: "seen_step lv room k now es b es' \<Longrightarrow> \<not> b \<Longrightarrow> map_of es' k = Some now"
  by (auto simp: seen_step_def)

lemma seen_step_kept:
  "seen_step lv room k now es b es' \<Longrightarrow> distinct (map fst es) \<Longrightarrow> room \<Longrightarrow> map_of es k' = Some t \<Longrightarrow> lv t \<Longrightarrow>
     map_of es' k' = Some t"
  by (auto simp: seen_step_def map_of_filter_distinct dest: map_of_SomeD)

lemma seen_step_old:
  "seen_step lv room k now es b es' \<Longrightarrow> distinct (map fst es) \<Longrightarrow> map_of es' k' = Some t \<Longrightarrow>
     map_of es k' = Some t \<or> k' = k \<and> t = now \<and> \<not> b"
  by (auto simp: seen_step_def map_of_filter_distinct split: if_splits)

lemmas seen_step_rules = seen_step_distinct seen_step_hit seen_step_recorded seen_step_kept seen_step_old

lemma filter_absent: "k \<notin> fst ` set (filter P es) \<Longrightarrow> filter (\<lambda>e. P e \<and> fst e \<noteq> k) es = filter P es"
  by (rule filter_cong) auto

subsubsection \<open>TSIG\<close>

definition tsig_live :: "tsig_cache \<Rightarrow> gotime \<Rightarrow> gotime \<Rightarrow> bool" where
  "tsig_live c now t \<longleftrightarrow> now - tc_window c \<le> t"

lemma tsig_Seen_step:
  "seen_step (tsig_live c now) (tsig_room now c) k now (tc_seen c) (fst (tsig_Seen k now c)) (tc_seen (snd (tsig_Seen k now c)))"
proof -
  let ?lv = "\<lambda>e :: bytes \<times> gotime. \<not> snd e < now - tc_window c"
  define P1 where "P1 = (if tsig_shouldSweepLocked now c then ?lv else (\<lambda>_. True))"
  define c1 where "c1 = (if tsig_shouldSweepLocked now c
    then (tsig_evictExpiredLocked now c)\<lparr>tc_lastSweep := Some now\<rparr> else c)"
  have c1: "tc_seen c1 = filter P1 (tc_seen c)" "tc_size c1 = tc_size c" "tc_window c1 = tc_window c"
    by (auto simp: c1_def P1_def tsig_evictExpiredLocked_def case_prod_unfold)
  have P1: "P1 (k', t)" if "tsig_live c now t" for k' t using that by (simp add: P1_def tsig_live_def)
  show ?thesis
  proof (cases "k \<in> fst ` set (tc_seen c1)")
    case True
    then have "tsig_Seen k now c = (True, c1)" by (simp add: tsig_Seen_def c1_def [symmetric] Let_def)
    with c1 P1 show ?thesis by (auto simp: seen_step_def)
  next
    case False
    define d where "d = (tsig_evictExpiredLocked now c1)\<lparr>tc_lastSweep := Some now\<rparr>"
    define c2 where "c2 = (if tc_size c1 > 0 \<and> int (length (tc_seen c1)) \<ge> tc_size c1 then
      if int (length (tc_seen d)) \<ge> tc_size d then tsig_evictOldestLocked d else d else c1)"
    have s: "tsig_Seen k now c = (False, c2\<lparr>tc_seen := (k, now) # tc_seen c2\<rparr>)"
      using False by (simp add: tsig_Seen_def c1_def [symmetric] Let_def c2_def d_def)
    have d: "tc_seen d = filter ?lv (tc_seen c)"
      by (auto simp: d_def tsig_evictExpiredLocked_def c1 case_prod_unfold P1_def intro!: filter_cong)
    have "tc_size d = tc_size c" by (simp add: d_def tsig_evictExpiredLocked_def c1)
    then have full: "\<not> tsig_room now c" if "tc_size c1 > 0" "int (length (tc_seen d)) \<ge> tc_size d"
      using that by (simp add: tsig_room_def d c1 case_prod_unfold)
    obtain Q where Q: "tc_seen c2 = filter Q (tc_seen c)" "\<And>e. Q e \<Longrightarrow> P1 e"
      "tsig_room now c \<Longrightarrow> tsig_live c now t \<Longrightarrow> Q (k', t)" for k' t
    proof (cases "tc_size c1 > 0 \<and> int (length (tc_seen c1)) \<ge> tc_size c1")
      case room: True
      show ?thesis
      proof (cases "int (length (tc_seen d)) \<ge> tc_size d")
        case True
        obtain k0 where "tc_seen c2 = deleteKey k0 (tc_seen d)"
          using room True by (simp add: c2_def tsig_evictOldestLocked_def Let_def)
        then have "tc_seen c2 = filter (\<lambda>e. ?lv e \<and> fst e \<noteq> k0) (tc_seen c)"
          by (simp add: d deleteKey_def conj_commute)
        moreover have "\<not> tsig_room now c" using full room True by blast
        ultimately show ?thesis by (intro that [of "\<lambda>e. ?lv e \<and> fst e \<noteq> k0"]) (auto simp: P1_def)
      next
        case False
        with room have "tc_seen c2 = filter ?lv (tc_seen c)" by (simp add: c2_def d)
        then show ?thesis by (intro that [of ?lv]) (auto simp: P1_def tsig_live_def)
      qed
    next
      case False
      then have "tc_seen c2 = filter P1 (tc_seen c)" by (simp only: c2_def if_False c1)
      with P1 show ?thesis by (intro that [of P1]) simp_all
    qed
    have "k \<notin> fst ` set (filter Q (tc_seen c))" using False Q(2) by (auto simp: c1)
    note es = filter_absent [OF this]
    have "\<not> tsig_live c now t" if "(k, t) \<in> set (tc_seen c)" for t
      using that False P1 [of t k] by (force simp: c1)
    with es Q(1,3) show ?thesis unfolding seen_step_def s fst_conv snd_conv by (intro conjI exI [of _ Q]) simp_all
  qed
qed

lemma tsig_Seen_conf:
  "tc_size (snd (tsig_Seen k now c)) = tc_size c" "tc_window (snd (tsig_Seen k now c)) = tc_window c"
  by (simp_all add: tsig_Seen_def tsig_evictExpiredLocked_def tsig_evictOldestLocked_def Let_def)

lemma tsig_evictOldest_length:
  "tc_seen d \<noteq> [] \<Longrightarrow> length (tc_seen (tsig_evictOldestLocked d)) < length (tc_seen d)"
proof -
  assume "tc_seen d \<noteq> []"
  then obtain k t where e: "oldest_loop None (tc_seen d) = Some (k, t)"
    using oldest_loop_None [of None "tc_seen d"] by (cases "oldest_loop None (tc_seen d)") auto
  then have "k \<in> fst ` set (tc_seen d)" using oldest_loop_mem [OF e] by force
  with length_deleteKey e show ?thesis by (simp add: tsig_evictOldestLocked_def)
qed

lemma tsig_Seen_bounded:
  assumes "0 < tc_size c" "int (length (tc_seen c)) \<le> tc_size c"
  shows "int (length (tc_seen (snd (tsig_Seen k now c)))) \<le> tc_size c"
proof -
  define c1 where "c1 = (if tsig_shouldSweepLocked now c
    then (tsig_evictExpiredLocked now c)\<lparr>tc_lastSweep := Some now\<rparr> else c)"
  define d where "d = (tsig_evictExpiredLocked now c1)\<lparr>tc_lastSweep := Some now\<rparr>"
  have le: "length (tc_seen c1) \<le> length (tc_seen c)" "length (tc_seen d) \<le> length (tc_seen c1)"
    by (auto simp: c1_def d_def tsig_evictExpiredLocked_def Let_def)
  have sz: "tc_size c1 = tc_size c" "tc_size d = tc_size c"
    by (auto simp: c1_def d_def tsig_evictExpiredLocked_def Let_def)
  have ne: "tc_seen d \<noteq> []" if "int (length (tc_seen d)) \<ge> tc_size c" using that assms(1) by auto
  have s: "snd (tsig_Seen k now c) = (if k \<in> fst ` set (tc_seen c1) then c1
     else let c2 = (if tc_size c1 > 0 \<and> int (length (tc_seen c1)) \<ge> tc_size c1 then
            if int (length (tc_seen d)) \<ge> tc_size d then tsig_evictOldestLocked d else d else c1)
        in c2\<lparr>tc_seen := (k, now) # tc_seen c2\<rparr>)"
    by (simp add: tsig_Seen_def c1_def d_def Let_def)
  show ?thesis
    using assms le tsig_evictOldest_length [OF ne] by (auto simp: s sz Let_def)
qed

interpretation tsig_guard: replay_guard tsig_Seen "\<lambda>c. map_of (tc_seen c)" tsig_live tsig_room tsig_inv
proof
  fix c :: tsig_cache and k k' :: bytes and now now' t :: gotime
  note step = tsig_Seen_step [of c now k]
  show "tsig_inv c \<Longrightarrow> tsig_inv (snd (tsig_Seen k now c))"
    using seen_step_distinct [OF step] tsig_Seen_bounded [of c k now] by (auto simp: tsig_inv_def tsig_Seen_conf)
  show "tsig_live (snd (tsig_Seen k now c)) = tsig_live c" by (intro ext) (simp add: tsig_live_def tsig_Seen_conf)
  show "tsig_live c now t \<Longrightarrow> now' \<le> now \<Longrightarrow> tsig_live c now' t" by (simp add: tsig_live_def)
  show "tsig_inv c \<Longrightarrow> map_of (tc_seen c) k = Some t \<Longrightarrow> tsig_live c now t \<Longrightarrow> fst (tsig_Seen k now c)"
    using seen_step_hit [OF step] by (simp add: tsig_inv_def)
  show "\<not> fst (tsig_Seen k now c) \<Longrightarrow> map_of (tc_seen (snd (tsig_Seen k now c))) k = Some now"
    using seen_step_recorded [OF step] .
  show "tsig_inv c \<Longrightarrow> tsig_room now c \<Longrightarrow> map_of (tc_seen c) k' = Some t \<Longrightarrow> tsig_live c now t \<Longrightarrow>
      map_of (tc_seen (snd (tsig_Seen k now c))) k' = Some t"
    using seen_step_kept [OF step] by (simp add: tsig_inv_def)
qed

subsubsection \<open>SIG(0)\<close>

definition sig0_inv :: "sig0_cache \<Rightarrow> bool" where
  "sig0_inv c \<longleftrightarrow> distinct (map fst (sc_seen c)) \<and> (sc_size c > 0 \<longrightarrow> int (length (sc_seen c)) \<le> sc_size c)"

definition sig0_live :: "sig0_cache \<Rightarrow> gotime \<Rightarrow> gotime \<Rightarrow> bool" where
  "sig0_live c now t \<longleftrightarrow> now - sc_window c \<le> t"

definition sig0_room :: "gotime \<Rightarrow> sig0_cache \<Rightarrow> bool" where
  "sig0_room now c \<longleftrightarrow> sc_size c > 0 \<longrightarrow>
     int (length (filter (\<lambda>(k, t). \<not> t < now - sc_window c) (sc_seen c))) < sc_size c"

lemma sig0_evictOldest_delete:
  obtains k0 where "sig0_evictOldestLocked c = c\<lparr>sc_seen := deleteKey k0 (sc_seen c)\<rparr>"
    "sc_seen c \<noteq> [] \<Longrightarrow> k0 \<in> fst ` set (sc_seen c)"
proof (cases "oldest_loop None (sc_seen c)")
  case None
  then have "sc_seen c = []" by (simp add: oldest_loop_None)
  then have "sig0_evictOldestLocked c = c\<lparr>sc_seen := deleteKey [] (sc_seen c)\<rparr>"
    using None by (simp add: sig0_evictOldestLocked_def deleteKey_def)
  with \<open>sc_seen c = []\<close> that show ?thesis by blast
next
  case (Some e)
  then obtain k t where e: "oldest_loop None (sc_seen c) = Some (k, t)" by (cases e) auto
  with oldest_loop_mem [OF e] that [of k] show ?thesis by (force simp: sig0_evictOldestLocked_def)
qed

lemma sig0_Seen_eq:
  fixes c k now
  defines "es \<equiv> filter (\<lambda>e. \<not> snd e < now - sc_window c) (sc_seen c)"
  obtains k0 where
    "sig0_Seen k now c =
       (if k \<in> fst ` set es then (True, c\<lparr>sc_seen := es\<rparr>)
        else if sig0_room now c then (False, c\<lparr>sc_seen := (k, now) # es\<rparr>)
        else (False, c\<lparr>sc_seen := (k, now) # deleteKey k0 es\<rparr>))"
    "es \<noteq> [] \<Longrightarrow> k0 \<in> fst ` set es"
proof -
  have ev: "sig0_evictExpiredLocked now c = c\<lparr>sc_seen := es\<rparr>"
    by (simp add: sig0_evictExpiredLocked_def es_def case_prod_unfold)
  have room: "sig0_room now c \<longleftrightarrow> \<not> (sc_size c > 0 \<and> int (length es) \<ge> sc_size c)"
    by (auto simp: sig0_room_def es_def case_prod_unfold)
  obtain k0 where k0: "sig0_evictOldestLocked (c\<lparr>sc_seen := es\<rparr>) = c\<lparr>sc_seen := deleteKey k0 es\<rparr>"
    "es \<noteq> [] \<Longrightarrow> k0 \<in> fst ` set es"
    using sig0_evictOldest_delete [of "c\<lparr>sc_seen := es\<rparr>"] by auto
  show ?thesis
    by (rule that [OF _ k0(2)]) (simp_all add: sig0_Seen_def ev room k0(1) Let_def)
qed

lemma sig0_Seen_step:
  "seen_step (sig0_live c now) (sig0_room now c) k now (sc_seen c) (fst (sig0_Seen k now c)) (sc_seen (snd (sig0_Seen k now c)))"
proof -
  define lv where "lv = (\<lambda>e :: bytes \<times> gotime. \<not> snd e < now - sc_window c)"
  define es where "es = filter lv (sc_seen c)"
  from sig0_Seen_eq [where now = now and c = c and k = k] obtain k0 where s: "sig0_Seen k now c =
       (if k \<in> fst ` set es then (True, c\<lparr>sc_seen := es\<rparr>)
        else if sig0_room now c then (False, c\<lparr>sc_seen := (k, now) # es\<rparr>)
        else (False, c\<lparr>sc_seen := (k, now) # deleteKey k0 es\<rparr>))" unfolding es_def lv_def by blast
  have lv: "lv (k', t)" if "sig0_live c now t" for k' t using that by (simp add: lv_def sig0_live_def)
  show ?thesis
  proof (cases "k \<in> fst ` set es")
    case True
    with lv show ?thesis unfolding seen_step_def s es_def by (intro conjI exI [of _ lv]) auto
  next
    case False
    define Q where "Q = (if sig0_room now c then lv else (\<lambda>e. lv e \<and> fst e \<noteq> k0))"
    have "filter (\<lambda>e. Q e \<and> fst e \<noteq> k) (sc_seen c) = (if sig0_room now c then es else deleteKey k0 es)"
      using False by (auto simp: Q_def es_def deleteKey_def image_iff intro!: filter_cong)
    moreover have "\<not> sig0_live c now t" if "(k, t) \<in> set (sc_seen c)" for t
      using that False lv [of t k] by (force simp: es_def)
    ultimately show ?thesis
      using False lv unfolding seen_step_def s by (intro conjI exI [of _ Q]) (simp_all add: Q_def)
  qed
qed

lemma sig0_Seen_conf:
  "sc_size (snd (sig0_Seen k now c)) = sc_size c" "sc_window (snd (sig0_Seen k now c)) = sc_window c"
  using sig0_Seen_eq [where now = now and c = c and k = k] by (metis (no_types, lifting) sig0_cache.ext_inject sig0_cache.surjective
      sig0_cache.update_convs(3) snd_conv)+

lemma sig0_Seen_bounded:
  assumes "0 < sc_size c" "int (length (sc_seen c)) \<le> sc_size c"
  shows "int (length (sc_seen (snd (sig0_Seen k now c)))) \<le> sc_size c"
proof -
  define es where "es = filter (\<lambda>e. \<not> snd e < now - sc_window c) (sc_seen c)"
  from sig0_Seen_eq [where now = now and c = c and k = k] obtain k0 where s: "sig0_Seen k now c =
       (if k \<in> fst ` set es then (True, c\<lparr>sc_seen := es\<rparr>)
        else if sig0_room now c then (False, c\<lparr>sc_seen := (k, now) # es\<rparr>)
        else (False, c\<lparr>sc_seen := (k, now) # deleteKey k0 es\<rparr>))"
    and k0: "es \<noteq> [] \<Longrightarrow> k0 \<in> fst ` set es" unfolding es_def by blast
  have le: "length es \<le> length (sc_seen c)" by (simp add: es_def)
  have room: "sig0_room now c \<Longrightarrow> int (length es) < sc_size c"
    using assms(1) by (simp add: sig0_room_def es_def case_prod_unfold)
  have "length (deleteKey k0 es) < length es" if "es \<noteq> []" using length_deleteKey [OF k0 [OF that]] .
  then show ?thesis using assms le room by (cases "es = []") (auto simp: s deleteKey_def)
qed

interpretation sig0_guard: exact_guard sig0_Seen "\<lambda>c. map_of (sc_seen c)" sig0_live sig0_room sig0_inv
proof
  fix c :: sig0_cache and k k' :: bytes and now now' t :: gotime
  note step = sig0_Seen_step [of c now k]
  show "sig0_inv c \<Longrightarrow> sig0_inv (snd (sig0_Seen k now c))"
    using seen_step_distinct [OF step] sig0_Seen_bounded [of c k now] by (auto simp: sig0_inv_def sig0_Seen_conf)
  show "sig0_live (snd (sig0_Seen k now c)) = sig0_live c" by (intro ext) (simp add: sig0_live_def sig0_Seen_conf)
  show "sig0_live c now t \<Longrightarrow> now' \<le> now \<Longrightarrow> sig0_live c now' t" by (simp add: sig0_live_def)
  show "sig0_inv c \<Longrightarrow> map_of (sc_seen c) k = Some t \<Longrightarrow> sig0_live c now t \<Longrightarrow> fst (sig0_Seen k now c)"
    using seen_step_hit [OF step] by (simp add: sig0_inv_def)
  show "\<not> fst (sig0_Seen k now c) \<Longrightarrow> map_of (sc_seen (snd (sig0_Seen k now c))) k = Some now"
    using seen_step_recorded [OF step] .
  show "sig0_inv c \<Longrightarrow> sig0_room now c \<Longrightarrow> map_of (sc_seen c) k' = Some t \<Longrightarrow> sig0_live c now t \<Longrightarrow>
      map_of (sc_seen (snd (sig0_Seen k now c))) k' = Some t"
    using seen_step_kept [OF step] by (simp add: sig0_inv_def)
  show "sig0_inv c \<Longrightarrow> map_of (sc_seen (snd (sig0_Seen k now c))) k' = Some t \<Longrightarrow>
      map_of (sc_seen c) k' = Some t \<or> k' = k \<and> t = now \<and> \<not> fst (sig0_Seen k now c)"
    using seen_step_old [OF step] by (simp add: sig0_inv_def)
  show "\<exists>t. map_of (sc_seen c) k = Some t \<and> sig0_live c now t" if "sig0_inv c" "fst (sig0_Seen k now c)"
  proof -
    define es where "es = filter (\<lambda>e. \<not> snd e < now - sc_window c) (sc_seen c)"
    have "k \<in> fst ` set es" using that(2) sig0_Seen_eq [where now = now and c = c and k = k] unfolding es_def by (metis fst_conv)
    then obtain t' where "(k, t') \<in> set (sc_seen c)" "sig0_live c now t'" by (auto simp: es_def sig0_live_def)
    with that(1) show ?thesis by (auto simp: sig0_inv_def map_of_eq_Some_iff)
  qed
qed

subsubsection \<open>DNSCrypt\<close>

definition dc_inv :: "dc_cache \<Rightarrow> bool" where
  "dc_inv c \<longleftrightarrow> distinct (map fst (dc_entries c))"

definition dc_live :: "dc_cache \<Rightarrow> gotime \<Rightarrow> gotime \<Rightarrow> bool" where
  "dc_live c now t \<longleftrightarrow> now - dc_window c < t"

definition dc_room :: "gotime \<Rightarrow> dc_cache \<Rightarrow> bool" where
  "dc_room now c \<longleftrightarrow> int (length (filter (\<lambda>(k, t). now - dc_window c < t) (dc_entries c))) < dc_max c"

definition dc_hit :: "bytes \<Rightarrow> gotime \<Rightarrow> dc_cache \<Rightarrow> bool" where
  "dc_hit k now c \<longleftrightarrow> (case map_of (dc_entries c) k of None \<Rightarrow> False | Some t \<Rightarrow> now - dc_window c < t)"

lemma dc_seen_eq:
  fixes c k now
  defines "es \<equiv> filter (\<lambda>e. now - dc_window c < snd e) (dc_entries c)"
  shows "dc_seen k now c =
    (if dc_hit k now c then (True, c)
     else (False, c\<lparr>dc_entries := (k, now) # deleteKey k
       (if int (length (dc_entries c)) < dc_max c then dc_entries c
        else if dc_room now c then es
        else deleteKey (fst (dc_oldest_loop (replicate 44 0, now) es)) es)\<rparr>))"
proof -
  have f: "filter (\<lambda>(k, t). now - dc_window c < t) (dc_entries c) = es" by (simp add: es_def case_prod_unfold)
  show ?thesis by (simp add: dc_seen_def dc_hit_def dc_room_def f Let_def)
qed

lemma dc_room_few: "int (length (dc_entries c)) < dc_max c \<Longrightarrow> dc_room now c"
  unfolding dc_room_def using length_filter_le [of "\<lambda>(k, t). now - dc_window c < t" "dc_entries c"] by linarith

lemma dc_seen_step:
  assumes "dc_inv c"
  shows "seen_step (dc_live c now) (dc_room now c) k now (dc_entries c) (fst (dc_seen k now c)) (dc_entries (snd (dc_seen k now c)))"
proof (cases "dc_hit k now c")
  case True
  then show ?thesis unfolding seen_step_def dc_seen_eq by (intro conjI exI [of _ "\<lambda>_. True"]) simp_all
next
  case False
  define lv where "lv = (\<lambda>e :: bytes \<times> gotime. now - dc_window c < snd e)"
  define es where "es = filter lv (dc_entries c)"
  define k0 where "k0 = fst (dc_oldest_loop (replicate 44 0, now) es)"
  define Q where "Q = (if int (length (dc_entries c)) < dc_max c then (\<lambda>_. True)
    else if dc_room now c then lv else (\<lambda>e. lv e \<and> fst e \<noteq> k0))"
  have "deleteKey k (if int (length (dc_entries c)) < dc_max c then dc_entries c
      else if dc_room now c then es else deleteKey k0 es) = filter (\<lambda>e. Q e \<and> fst e \<noteq> k) (dc_entries c)"
    by (auto simp: Q_def es_def deleteKey_def intro!: filter_cong)
  moreover have "\<not> dc_live c now t" if "(k, t) \<in> set (dc_entries c)" for t
    using that False assms by (simp add: dc_hit_def dc_inv_def dc_live_def split: option.splits)
  ultimately show ?thesis
    using False dc_room_few [of c now] unfolding seen_step_def dc_seen_eq lv_def [symmetric] es_def [symmetric] k0_def [symmetric]
    by (intro conjI exI [of _ Q]) (simp_all add: Q_def dc_live_def lv_def)
qed

lemma dc_seen_conf:
  "dc_window (snd (dc_seen k now c)) = dc_window c" "dc_max (snd (dc_seen k now c)) = dc_max c"
  by (simp_all add: dc_seen_eq)

interpretation dc_guard: exact_guard dc_seen "\<lambda>c. map_of (dc_entries c)" dc_live dc_room dc_inv
proof
  fix c :: dc_cache and k k' :: bytes and now now' t :: gotime
  note step = dc_seen_step [of c now k]
  show "dc_inv c \<Longrightarrow> dc_inv (snd (dc_seen k now c))"
    using seen_step_distinct [OF step] by (auto simp: dc_inv_def)
  show "dc_live (snd (dc_seen k now c)) = dc_live c" by (intro ext) (simp add: dc_live_def dc_seen_conf)
  show "dc_live c now t \<Longrightarrow> now' \<le> now \<Longrightarrow> dc_live c now' t" by (simp add: dc_live_def)
  show "dc_inv c \<Longrightarrow> map_of (dc_entries c) k = Some t \<Longrightarrow> dc_live c now t \<Longrightarrow> fst (dc_seen k now c)"
    using seen_step_hit [OF step] by (simp add: dc_inv_def)
  show "dc_inv c \<Longrightarrow> \<not> fst (dc_seen k now c) \<Longrightarrow> map_of (dc_entries (snd (dc_seen k now c))) k = Some now"
    using seen_step_recorded [OF step] .
  show "dc_inv c \<Longrightarrow> dc_room now c \<Longrightarrow> map_of (dc_entries c) k' = Some t \<Longrightarrow> dc_live c now t \<Longrightarrow>
      map_of (dc_entries (snd (dc_seen k now c))) k' = Some t"
    using seen_step_kept [OF step] by (simp add: dc_inv_def)
  show "dc_inv c \<Longrightarrow> map_of (dc_entries (snd (dc_seen k now c))) k' = Some t \<Longrightarrow>
      map_of (dc_entries c) k' = Some t \<or> k' = k \<and> t = now \<and> \<not> fst (dc_seen k now c)"
    using seen_step_old [OF step] by (simp add: dc_inv_def)
  show "fst (dc_seen k now c) \<Longrightarrow> \<exists>t. map_of (dc_entries c) k = Some t \<and> dc_live c now t"
    by (auto simp: dc_seen_eq dc_hit_def dc_live_def split: if_splits option.splits)
qed

text \<open>The scan for the oldest entry only considers entries older than the current instant.  When the clock has
  moved on since every entry, the bound holds; within one instant the cache grows past it.\<close>

lemma dc_oldest_mem: "dc_oldest_loop acc es = acc \<or> dc_oldest_loop acc es \<in> set es"
  by (induction acc es rule: dc_oldest_loop.induct) (auto split: if_splits)

lemma dc_oldest_le: "snd (dc_oldest_loop acc es) \<le> snd acc \<and> (\<forall>e \<in> set es. snd (dc_oldest_loop acc es) \<le> snd e)"
  by (induction acc es rule: dc_oldest_loop.induct) (fastforce split: if_splits)+

lemma dc_oldest_older:
  assumes "es \<noteq> []" "\<forall>e \<in> set es. snd e < snd acc"
  shows "dc_oldest_loop acc es \<in> set es"
proof -
  obtain e where e: "e \<in> set es" using assms(1) by (cases es) auto
  then have "snd (dc_oldest_loop acc es) < snd acc"
    using dc_oldest_le [of acc es] assms(2) by (meson le_less_trans)
  then show ?thesis using dc_oldest_mem [of acc es] by auto
qed

lemma dc_seen_bounded:
  assumes "0 < dc_max c" "int (length (dc_entries c)) \<le> dc_max c" "\<forall>e \<in> set (dc_entries c). snd e < now"
  shows "int (length (dc_entries (snd (dc_seen k now c)))) \<le> dc_max c"
proof -
  define es where "es = filter (\<lambda>e. now - dc_window c < snd e) (dc_entries c)"
  define k0 where "k0 = fst (dc_oldest_loop (replicate 44 0, now) es)"
  define ds where "ds = (if int (length (dc_entries c)) < dc_max c then dc_entries c
    else if dc_room now c then es else deleteKey k0 es)"
  have le: "length (deleteKey k ds) \<le> length ds" "length es \<le> length (dc_entries c)"
    by (simp_all add: deleteKey_def es_def)
  have "length (deleteKey k0 es) < length es" if "es \<noteq> []"
    using that dc_oldest_older [OF that, of "(replicate 44 0, now)"] assms(3)
    by (intro length_deleteKey) (auto simp: k0_def es_def)
  moreover have "es \<noteq> []" if "\<not> dc_room now c"
    using that assms(1) by (auto simp: dc_room_def es_def case_prod_unfold)
  moreover have "int (length es) < dc_max c" if "dc_room now c"
    using that by (simp add: dc_room_def es_def case_prod_unfold)
  ultimately have "int (length ds) < dc_max c" using assms(2) le(2) by (auto simp: ds_def)
  then show ?thesis
    using le(1) assms(2) unfolding dc_seen_eq es_def [symmetric] k0_def [symmetric] ds_def [symmetric] by auto
qed

lemma dc_seen_overflow:
  "length (dc_entries (snd (runSeen dc_seen [(replicate 44 1, 5), (replicate 44 2, 5), (replicate 44 3, 5)] (newReplayCache 10 1)))) = 3"
  by (simp add: newReplayCache_def dc_seen_def deleteKey_def)

subsection \<open>The replay keys separate signatures\<close>

lemma sep_inj: "a @ x # s = b @ x # s' \<Longrightarrow> x \<notin> set a \<Longrightarrow> x \<notin> set b \<Longrightarrow> a = b \<and> s = s'"
  by (induction a arbitrary: b) (auto simp: Cons_eq_append_conv)

lemma wire_of_append_inj:
  "list_all label_ok ls \<Longrightarrow> list_all label_ok ls' \<Longrightarrow> wire_of ls @ s = wire_of ls' @ s' \<Longrightarrow> ls = ls' \<and> s = s'"
proof (induction ls ls' rule: list_induct2')
  case (4 l ls l' ls')
  have ok: "label_ok l" "label_ok l'" using 4 by simp_all
  have w: "(word_of_nat (length l) :: byte) = word_of_nat (length l')"
    and e: "l @ wire_of ls @ s = l' @ wire_of ls' @ s'"
    using "4.prems"(3) by (simp_all only: wire_of_Cons append_Cons append_assoc list.inject)
  have "length l = length l'"
    using arg_cong [OF w, of unat] label_len_byte [OF ok(1)] label_len_byte [OF ok(2)] by simp
  with e have "l = l'" "wire_of ls @ s = wire_of ls' @ s'" by simp_all
  with 4 show ?case by simp
next
  case (2 l ls)
  then show ?case using label_len_neq_0 [of l] by simp
next
  case (3 l ls)
  then show ?case using label_len_neq_0 [of l] by (simp add: eq_commute [of 0])
qed simp

definition decValue :: "bytes \<Rightarrow> nat" where
  "decValue ds = foldl (\<lambda>a d. 10 * a + unat (d - ch0)) 0 ds"

lemma decValue_decDigits: "decValue (decDigits n) = n"
proof (induction n rule: decDigits.induct)
  case (1 n)
  show ?case
  proof (cases "n < 10")
    case True
    with digit_byte [OF True] show ?thesis by (subst decDigits.simps) (simp add: decValue_def)
  next
    case False
    then have "decDigits n = decDigits (n div 10) @ [ch0 + word_of_nat (n mod 10)]" by (subst decDigits.simps) simp
    with 1 [OF False] digit_byte [of "n mod 10"] show ?thesis by (simp add: decValue_def)
  qed
qed

lemma formatInt_bytes: "list_all (\<lambda>c. isDigit c \<or> c = 0x2d) (formatInt v)"
  using decDigits_digits [of "nat v"] decDigits_digits [of "nat (- v)"] by (auto simp: formatInt_def list_all_iff)

lemma formatInt_inj: "formatInt v = formatInt v' \<longleftrightarrow> v = v'"
proof
  assume eq: "formatInt v = formatInt v'"
  have nd: "\<not> isDigit (0x2d :: byte)" by (simp add: isDigit_def)
  have hd: "decDigits n \<noteq> 0x2d # r" for n r using decDigits_digits [of n] nd by auto
  have val: "decDigits n = decDigits m \<Longrightarrow> n = m" for n m using decValue_decDigits by metis
  show "v = v'"
  proof (cases "v < 0"; cases "v' < 0")
    assume "v < 0" "v' < 0"
    with eq val [of "nat (- v)" "nat (- v')"] show ?thesis by (simp add: formatInt_def)
  next
    assume "v < 0" "\<not> v' < 0"
    with eq [symmetric] hd [of "nat v'"] show ?thesis by (simp add: formatInt_def)
  next
    assume "\<not> v < 0" "v' < 0"
    with eq hd [of "nat v"] show ?thesis by (simp add: formatInt_def)
  next
    assume "\<not> v < 0" "\<not> v' < 0"
    with eq val [of "nat v" "nat v'"] show ?thesis by (simp add: formatInt_def)
  qed
qed simp

lemma hexDigit_inj: "a < 16 \<Longrightarrow> b < 16 \<Longrightarrow> hexDigit a = hexDigit b \<Longrightarrow> a = b"
proof -
  have "list_all (\<lambda>a. list_all (\<lambda>b. hexDigit a = hexDigit b \<longrightarrow> a = b) [0..<16]) [0..<16]" by code_simp
  then show "a < 16 \<Longrightarrow> b < 16 \<Longrightarrow> hexDigit a = hexDigit b \<Longrightarrow> a = b" by (auto simp: list_all_iff)
qed

lemma hexEncode_inj: "hexEncode a = hexEncode b \<Longrightarrow> a = b"
proof (induction a arbitrary: b)
  case (Cons x a)
  then obtain y b' where b: "b = y # b'" by (cases b) (auto simp: hexEncode_def)
  have n: "unat z div 16 < 16" "unat z mod 16 < 16" for z :: byte using unat_byte_less [of z] by (linarith, simp)
  have "unat x div 16 = unat y div 16" "unat x mod 16 = unat y mod 16"
    using Cons.prems hexDigit_inj [OF n(1) [of x] n(1) [of y]] hexDigit_inj [OF n(2) [of x] n(2) [of y]]
    unfolding b hexEncode_def by simp_all
  then have "unat x = unat y" by (metis div_mult_mod_eq)
  with Cons b show ?case by (simp add: hexEncode_def word_unat_eq_iff)
next
  case Nil
  then show ?case by (cases b) (simp_all add: hexEncode_def)
qed

lemma tsig_replayKey_inj:
  assumes "wf_name n" "wf_name n'" "tsig_replayKey n t mac = tsig_replayKey n' t' mac'"
  shows "n = n' \<and> Unix t = Unix t' \<and> mac = mac'"
proof -
  from assms(1) obtain ls where n: "n = Name (wire_of ls)" "list_all label_ok ls" by (rule wf_nameE)
  from assms(2) obtain ls' where n': "n' = Name (wire_of ls')" "list_all label_ok ls'" by (rule wf_nameE)
  have "wire_of ls @ 0x7c # formatInt (Unix t) @ 0x7c # hexEncode mac =
      wire_of ls' @ 0x7c # formatInt (Unix t') @ 0x7c # hexEncode mac'"
    using assms(3) wf_name_valid [OF assms(1)] wf_name_valid [OF assms(2)]
    by (simp add: tsig_replayKey_def AppendWire_def n(1) n'(1))
  from wire_of_append_inj [OF n(2) n'(2) this] have ls: "ls = ls'" and
    r: "formatInt (Unix t) @ 0x7c # hexEncode mac = formatInt (Unix t') @ 0x7c # hexEncode mac'" by auto
  have "(0x7c :: byte) \<notin> set (formatInt v)" for v
    using formatInt_bytes [of v] by (auto simp: list_all_iff isDigit_def)
  with sep_inj [OF r] have "formatInt (Unix t) = formatInt (Unix t')" "hexEncode mac = hexEncode mac'" by auto
  with ls n n' formatInt_inj hexEncode_inj show ?thesis by blast
qed

end
