(* ===== verification/Tsig.thy ===== *)
theory Tsig
  imports Replay_Cache
begin

text \<open>
  Transaction signatures (\<^verbatim>\<open>tsig/tsig.go\<close> and \<^verbatim>\<open>VerifyWithReplay\<close> of \<^verbatim>\<open>tsig/replay.go\<close>).  The keyed hash of
  \<^verbatim>\<open>crypto/hmac\<close> is the parameter \<open>hm\<close> of the definitions; the lemmas that need it assume the documented
  length of its output.  Slices are taken with \<open>slice\<close>, whose out-of-range case is the panic of Go, so that the
  absence of panics is a statement of the model.
\<close>

datatype tsig_error =
    TsigMissing
  | TsigBadTime
  | TsigBadSignature
  | TsigBadTruncation
  | TsigUnsupportedAlgorithm
  | TsigSHA1Disabled
  | TsigReplay
  | TsigName wire_error
  | TsigOther string
  | TsigPanic

subsection \<open>Keys\<close>

text \<open>String literals of the sources.\<close>

definition ascii :: "string \<Rightarrow> bytes" where
  "ascii s = map of_char s"

type_synonym tsig_algorithm = bytes

definition HMACSHA1 :: tsig_algorithm where "HMACSHA1 = ascii ''hmac-sha1.''"
definition HMACSHA256 :: tsig_algorithm where "HMACSHA256 = ascii ''hmac-sha256.''"
definition HMACSHA384 :: tsig_algorithm where "HMACSHA384 = ascii ''hmac-sha384.''"
definition HMACSHA512 :: tsig_algorithm where "HMACSHA512 = ascii ''hmac-sha512.''"

text \<open>The hash functions \<^verbatim>\<open>hmac.New\<close> is called with.\<close>

datatype hash_fn = SHA1 | SHA256 | SHA384 | SHA512

type_synonym hmac_fn = "hash_fn \<Rightarrow> bytes \<Rightarrow> bytes \<Rightarrow> bytes"

record tsig_key =
  tk_name :: wname
  tk_algorithm :: tsig_algorithm
  tk_secret :: bytes
  tk_allowSHA1 :: bool

definition IsKnown :: "tsig_algorithm \<Rightarrow> bool" where
  "IsKnown a \<longleftrightarrow> a = HMACSHA1 \<or> a = HMACSHA256 \<or> a = HMACSHA384 \<or> a = HMACSHA512"

text \<open>\<open>allow\<close> is the value of the option \<^verbatim>\<open>WithAllowSHA1\<close>, \<^verbatim>\<open>false\<close> when it is not given.\<close>

definition NewKey :: "wname \<Rightarrow> tsig_algorithm \<Rightarrow> bytes \<Rightarrow> bool \<Rightarrow> tsig_error + tsig_key" where
  "NewKey n alg secret allow =
     (if \<not> IsValid n then Inl (TsigOther ''invalid key name'')
      else if \<not> IsKnown alg then Inl TsigUnsupportedAlgorithm
      else if length secret = 0 then Inl (TsigOther ''secret is empty'')
      else Inr \<lparr>tk_name = n, tk_algorithm = alg, tk_secret = secret, tk_allowSHA1 = allow\<rparr>)"

definition minMACSize :: "tsig_algorithm \<Rightarrow> nat option" where
  "minMACSize alg =
     (if alg = HMACSHA1 then Some 10
      else if alg = HMACSHA256 then Some 16
      else if alg = HMACSHA384 then Some 24
      else if alg = HMACSHA512 then Some 32
      else None)"

definition computeHMAC :: "hmac_fn \<Rightarrow> tsig_key \<Rightarrow> bytes \<Rightarrow> tsig_error + bytes" where
  "computeHMAC hm key payload =
     (if tk_algorithm key = HMACSHA1 then
        if \<not> tk_allowSHA1 key then Inl TsigSHA1Disabled else Inr (hm SHA1 (tk_secret key) payload)
      else if tk_algorithm key = HMACSHA256 then Inr (hm SHA256 (tk_secret key) payload)
      else if tk_algorithm key = HMACSHA384 then Inr (hm SHA384 (tk_secret key) payload)
      else if tk_algorithm key = HMACSHA512 then Inr (hm SHA512 (tk_secret key) payload)
      else Inl TsigUnsupportedAlgorithm)"

subsection \<open>Signing\<close>

definition tsigType :: u16 where "tsigType = 250"
definition tsigClass :: u16 where "tsigClass = 255"

definition appendUint48 :: "bytes \<Rightarrow> u64 \<Rightarrow> bytes" where
  "appendUint48 buf v =
     buf @ [ucast (drop_bit 40 v), ucast (drop_bit 32 v), ucast (drop_bit 24 v),
            ucast (drop_bit 16 v), ucast (drop_bit 8 v), ucast v]"

definition buildTSIGVars :: "wname \<Rightarrow> wname \<Rightarrow> u64 \<Rightarrow> u16 \<Rightarrow> u16 \<Rightarrow> bytes \<Rightarrow> bytes" where
  "buildTSIGVars keyName algName timeSigned fudge errCode other =
     appendUint48 (AppendWire keyName [] @ be16 tsigClass @ be32 0 @ AppendWire algName []) timeSigned @
     be16 fudge @ be16 errCode @ be16 (word_of_nat (length other)) @ other"

text \<open>\<open>None\<close> is a \<^verbatim>\<open>nil\<close> prior MAC.\<close>

definition buildSigningInput ::
    "bytes \<Rightarrow> wname \<Rightarrow> wname \<Rightarrow> bytes option \<Rightarrow> u64 \<Rightarrow> u16 \<Rightarrow> u16 \<Rightarrow> bytes \<Rightarrow> bool \<Rightarrow> bytes" where
  "buildSigningInput msg keyName algName priorMAC timeSigned fudge errCode other timersOnly =
     (case priorMAC of None \<Rightarrow> [] | Some m \<Rightarrow> be16 (word_of_nat (length m)) @ m) @ msg @
     (if timersOnly then appendUint48 [] timeSigned @ be16 fudge
      else buildTSIGVars keyName algName timeSigned fudge errCode other)"

definition buildTSIGRData :: "wname \<Rightarrow> u64 \<Rightarrow> u16 \<Rightarrow> bytes \<Rightarrow> u16 \<Rightarrow> u16 \<Rightarrow> bytes \<Rightarrow> bytes" where
  "buildTSIGRData algName timeSigned fudge mac origID errCode other =
     appendUint48 (AppendWire algName []) timeSigned @ be16 fudge @ be16 (word_of_nat (length mac)) @ mac @
     be16 origID @ be16 errCode @ be16 (word_of_nat (length other)) @ other"

definition appendTSIGRR :: "bytes \<Rightarrow> wname \<Rightarrow> bytes \<Rightarrow> bytes" where
  "appendTSIGRR msg owner rd =
     msg @ AppendWire owner [] @ be16 tsigType @ be16 tsigClass @ be32 0 @ be16 (word_of_nat (length rd)) @ rd"

text \<open>\<^verbatim>\<open>binary.BigEndian.PutUint16(b[off:off+2], v)\<close>\<close>

definition put16 :: "nat \<Rightarrow> u16 \<Rightarrow> bytes \<Rightarrow> bytes" where
  "put16 off v b = take off b @ be16 v @ drop (off + 2) b"

text \<open>\<^verbatim>\<open>wire.MustParseName\<close> panics on a name that does not parse.\<close>

definition MustParseName :: "bytes \<Rightarrow> tsig_error + wname" where
  "MustParseName s = (case Parse s of Inl _ \<Rightarrow> Inl TsigPanic | Inr n \<Rightarrow> Inr n)"

text \<open>\<^verbatim>\<open>fudge.Seconds()\<close> is exact enough for the comparison and for the truncation at up to \<open>65535\<close> seconds.\<close>

definition signWithPrefix ::
    "hmac_fn \<Rightarrow> bytes \<Rightarrow> tsig_key \<Rightarrow> bytes option \<Rightarrow> bool \<Rightarrow> gotime \<Rightarrow> duration \<Rightarrow> tsig_error + bytes \<times> bytes" where
  "signWithPrefix hm msg key priorMAC timersOnly now fudge =
     (if length msg < 12 then Inl (TsigOther ''msg too short'')
      else if fudge < 0 then Inl (TsigOther ''fudge must be non-negative'')
      else if fudge > 65535 * Second then Inl (TsigOther ''fudge exceeds the 16-bit field'')
      else
        ebind (MustParseName (tk_algorithm key)) (\<lambda>algName.
        let timeSigned = word_of_int (Unix now) :: u64;
            fudgeSecs = word_of_int (fudge div Second) :: u16;
            input = buildSigningInput msg (tk_name key) algName priorMAC timeSigned fudgeSecs 0 [] timersOnly
        in ebind (computeHMAC hm key input) (\<lambda>mac.
           let origID = rd16 msg;
               rdata = buildTSIGRData algName timeSigned fudgeSecs mac origID 0 [];
               out = appendTSIGRR msg (tk_name key) rdata;
               arcount = rd16 (drop 10 out)
           in Inr (put16 10 (arcount + 1) out, mac))))"

definition Sign :: "hmac_fn \<Rightarrow> bytes \<Rightarrow> tsig_key \<Rightarrow> gotime \<Rightarrow> duration \<Rightarrow> tsig_error + bytes" where
  "Sign hm msg key now fudge = ebind (signWithPrefix hm msg key None False now fudge) (\<lambda>(out, _). Inr out)"

definition SignMessage :: "hmac_fn \<Rightarrow> message \<Rightarrow> tsig_key \<Rightarrow> gotime \<Rightarrow> duration \<Rightarrow> tsig_error + bytes" where
  "SignMessage hm m key now fudge =
     (case PackMsg m of Inl e \<Rightarrow> Inl (TsigName e) | Inr msg \<Rightarrow> Sign hm msg key now fudge)"

definition SignResponse :: "hmac_fn \<Rightarrow> bytes \<Rightarrow> tsig_key \<Rightarrow> bytes \<Rightarrow> gotime \<Rightarrow> duration \<Rightarrow> tsig_error + bytes" where
  "SignResponse hm msg key requestMAC now fudge =
     (if length requestMAC = 0 then Inl (TsigOther ''SignResponse requires requestMAC'')
      else ebind (signWithPrefix hm msg key (Some requestMAC) False now fudge) (\<lambda>(out, _). Inr out))"

definition SignAXFRChunk ::
    "hmac_fn \<Rightarrow> bytes \<Rightarrow> tsig_key \<Rightarrow> bytes \<Rightarrow> gotime \<Rightarrow> duration \<Rightarrow> tsig_error + bytes \<times> bytes" where
  "SignAXFRChunk hm msg key priorMAC now fudge =
     (if length priorMAC = 0 then Inl (TsigOther ''SignAXFRChunk requires priorMAC'')
      else signWithPrefix hm msg key (Some priorMAC) True now fudge)"

subsection \<open>Verification\<close>

text \<open>The slice \<^verbatim>\<open>b[i:j]\<close>.\<close>

definition slice :: "bytes \<Rightarrow> nat \<Rightarrow> nat \<Rightarrow> tsig_error + bytes" where
  "slice b i j = (if i \<le> j \<and> j \<le> length b then Inr (take (j - i) (drop i b)) else Inl TsigPanic)"

definition slice16 :: "bytes \<Rightarrow> nat \<Rightarrow> tsig_error + u16" where
  "slice16 b i = ebind (slice b i (i + 2)) (\<lambda>x. Inr (rd16 x))"

definition decodeName :: "bytes \<Rightarrow> nat \<Rightarrow> tsig_error + wname \<times> nat" where
  "decodeName msg off = (case DecodeWire msg off of Inl e \<Rightarrow> Inl (TsigName e) | Inr r \<Rightarrow> Inr r)"

definition readUint48 :: "bytes \<Rightarrow> u64" where
  "readUint48 b =
     push_bit 40 (ucast (b ! 0)) OR push_bit 32 (ucast (b ! 1)) OR push_bit 24 (ucast (b ! 2)) OR
     push_bit 16 (ucast (b ! 3)) OR push_bit 8 (ucast (b ! 4)) OR ucast (b ! 5)"

record parsedTSIG =
  pt_keyName :: wname
  pt_algorithm :: wname
  pt_timeSigned :: u64
  pt_fudge :: u16
  pt_mac :: bytes
  pt_origID :: u16
  pt_errCode :: u16
  pt_other :: bytes

definition parseTSIGRData :: "bytes \<Rightarrow> nat \<Rightarrow> nat \<Rightarrow> tsig_error + parsedTSIG" where
  "parseTSIGRData msg start e =
     ebind (decodeName msg start) (\<lambda>(algName, off).
     if off + 6 + 2 + 2 > e then Inl (TsigOther ''truncated time/fudge/mac-size'')
     else
       ebind (slice msg off (off + 6)) (\<lambda>t.
       ebind (slice16 msg (off + 6)) (\<lambda>fudge.
       ebind (slice16 msg (off + 8)) (\<lambda>macSize16.
       let macSize = unat macSize16; off1 = off + 10 in
       if off1 + macSize + 2 + 2 + 2 > e then Inl (TsigOther ''truncated mac/origID/err/otherLen'')
       else
         ebind (slice msg off1 (off1 + macSize)) (\<lambda>mac.
         let off2 = off1 + macSize in
         ebind (slice16 msg off2) (\<lambda>origID.
         ebind (slice16 msg (off2 + 2)) (\<lambda>errCode.
         ebind (slice16 msg (off2 + 4)) (\<lambda>otherLen16.
         let otherLen = unat otherLen16; off3 = off2 + 6 in
         if off3 + otherLen > e then Inl (TsigOther ''truncated other-data'')
         else
           ebind (slice msg off3 (off3 + otherLen)) (\<lambda>other.
           Inr \<lparr>pt_keyName = zeroName, pt_algorithm = algName, pt_timeSigned = readUint48 t, pt_fudge = fudge,
             pt_mac = mac, pt_origID = origID, pt_errCode = errCode, pt_other = other\<rparr>)))))))))"

fun skipQuestions :: "bytes \<Rightarrow> nat \<Rightarrow> nat \<Rightarrow> tsig_error + nat" where
  "skipQuestions msg 0 off = Inr off"
| "skipQuestions msg (Suc n) off =
     ebind (decodeName msg off) (\<lambda>(_, next).
     if next + 4 > length msg then Inl (TsigOther ''truncated question'')
     else skipQuestions msg n (next + 4))"

text \<open>The loop over the records; the pair is \<^verbatim>\<open>last\<close> and \<^verbatim>\<open>lastIdx\<close>, and the offset behind the last record.\<close>

fun walkRRs :: "bytes \<Rightarrow> nat \<Rightarrow> int \<Rightarrow> nat \<Rightarrow> nat \<times> int \<Rightarrow> tsig_error + (nat \<times> int) \<times> nat" where
  "walkRRs msg 0 i off acc = Inr (acc, off)"
| "walkRRs msg (Suc n) i off acc =
     ebind (decodeName msg off) (\<lambda>(_, next).
     if next + 10 > length msg then Inl (TsigOther ''truncated rr header'')
     else
       ebind (slice16 msg (next + 8)) (\<lambda>rdlen.
       let off' = next + 10 + unat rdlen in
       if off' > length msg then Inl (TsigOther ''truncated rr body'')
       else walkRRs msg n (i + 1) off' (off, i)))"

definition findLastRROffset :: "bytes \<Rightarrow> tsig_error + nat" where
  "findLastRROffset msg =
     ebind (slice16 msg 4) (\<lambda>qdcount.
     ebind (slice16 msg 6) (\<lambda>ancount.
     ebind (slice16 msg 8) (\<lambda>nscount.
     ebind (slice16 msg 10) (\<lambda>arcount.
     ebind (skipQuestions msg (unat qdcount) 12) (\<lambda>off.
     ebind (walkRRs msg (unat ancount + unat nscount + unat arcount) 0 off (off, - 1)) (\<lambda>((l, lastIdx), _).
     if lastIdx < int (unat ancount + unat nscount) then Inl (TsigOther ''last RR not in additional section'')
     else Inr l))))))"

definition stripTSIG :: "bytes \<Rightarrow> tsig_error + bytes \<times> parsedTSIG" where
  "stripTSIG msg =
     (if length msg < 12 then Inl (TsigOther ''msg too short'')
      else
        ebind (slice16 msg 10) (\<lambda>arcount.
        if arcount = 0 then Inl TsigMissing
        else
          ebind (findLastRROffset msg) (\<lambda>start.
          ebind (decodeName msg start) (\<lambda>(keyName, off).
          if off + 10 > length msg then Inl (TsigOther ''truncated header'')
          else
            ebind (slice16 msg off) (\<lambda>rrType.
            if rrType \<noteq> tsigType then Inl TsigMissing
            else
              ebind (slice16 msg (off + 8)) (\<lambda>rdlen.
              let rdataStart = off + 10; rdataEnd = rdataStart + unat rdlen in
              if rdataEnd > length msg then Inl (TsigOther ''truncated rdata'')
              else
                ebind (parseTSIGRData msg rdataStart rdataEnd) (\<lambda>tsig.
                ebind (slice msg 0 start) (\<lambda>body.
                ebind (slice body 10 12) (\<lambda>_.
                Inr (put16 10 (arcount - 1) body, tsig\<lparr>pt_keyName := keyName\<rparr>))))))))))"

text \<open>\<^verbatim>\<open>time.Time.Sub\<close> saturates at the range of \<^verbatim>\<open>time.Duration\<close>.\<close>

definition timeSub :: "gotime \<Rightarrow> gotime \<Rightarrow> duration" where
  "timeSub t u = max (- (2 ^ 63)) (min (2 ^ 63 - 1) (t - u))"

definition verifyWithPrefix ::
    "hmac_fn \<Rightarrow> bytes \<Rightarrow> tsig_key \<Rightarrow> bytes option \<Rightarrow> bool \<Rightarrow> gotime \<Rightarrow> duration \<Rightarrow> tsig_error + bytes \<times> bytes \<times> gotime" where
  "verifyWithPrefix hm msg key priorMAC timersOnly now fudge =
     ebind (stripTSIG msg) (\<lambda>(body, tsig).
     if \<not> NameEqual (pt_keyName tsig) (tk_name key) then Inl (TsigOther ''key name mismatch'')
     else
       ebind (MustParseName (tk_algorithm key)) (\<lambda>algName.
       if \<not> NameEqual (pt_algorithm tsig) algName then Inl (TsigOther ''algorithm mismatch'')
       else
         case minMACSize (tk_algorithm key) of
           None \<Rightarrow> Inl TsigUnsupportedAlgorithm
         | Some lo \<Rightarrow>
             if length (pt_mac tsig) < lo then Inl TsigBadTruncation
             else
               let sgnd = uint (pt_timeSigned tsig) * Second in
               ebind (slice body 0 2) (\<lambda>_.
               let bodyForMAC = put16 0 (pt_origID tsig) body;
                   input = buildSigningInput bodyForMAC (pt_keyName tsig) (pt_algorithm tsig) priorMAC
                     (pt_timeSigned tsig) (pt_fudge tsig) (pt_errCode tsig) (pt_other tsig) timersOnly
               in ebind (computeHMAC hm key input) (\<lambda>mac.
                  if length (pt_mac tsig) > length mac then Inl (TsigOther ''received MAC longer than output'')
                  else if take (length (pt_mac tsig)) mac \<noteq> pt_mac tsig then Inl TsigBadSignature
                  else
                    let delta = timeSub now sgnd in
                    if delta > fudge \<or> delta < - fudge then Inl TsigBadTime
                    else Inr (bodyForMAC, pt_mac tsig, sgnd)))))"

definition Verify :: "hmac_fn \<Rightarrow> bytes \<Rightarrow> tsig_key \<Rightarrow> gotime \<Rightarrow> duration \<Rightarrow> tsig_error + bytes \<times> gotime" where
  "Verify hm msg key now fudge =
     ebind (verifyWithPrefix hm msg key None False now fudge) (\<lambda>(body, _, sgnd). Inr (body, sgnd))"

definition VerifyMAC :: "hmac_fn \<Rightarrow> bytes \<Rightarrow> tsig_key \<Rightarrow> gotime \<Rightarrow> duration \<Rightarrow> tsig_error + bytes \<times> bytes \<times> gotime" where
  "VerifyMAC hm msg key now fudge = verifyWithPrefix hm msg key None False now fudge"

definition VerifyResponse ::
    "hmac_fn \<Rightarrow> bytes \<Rightarrow> tsig_key \<Rightarrow> bytes \<Rightarrow> gotime \<Rightarrow> duration \<Rightarrow> tsig_error + bytes \<times> bytes \<times> gotime" where
  "VerifyResponse hm msg key requestMAC now fudge =
     (if length requestMAC = 0 then Inl (TsigOther ''VerifyResponse requires requestMAC'')
      else verifyWithPrefix hm msg key (Some requestMAC) False now fudge)"

definition VerifyAXFRChunk ::
    "hmac_fn \<Rightarrow> bytes \<Rightarrow> tsig_key \<Rightarrow> bytes \<Rightarrow> gotime \<Rightarrow> duration \<Rightarrow> tsig_error + bytes \<times> bytes \<times> gotime" where
  "VerifyAXFRChunk hm msg key priorMAC now fudge =
     (if length priorMAC = 0 then Inl (TsigOther ''VerifyAXFRChunk requires priorMAC'')
      else verifyWithPrefix hm msg key (Some priorMAC) True now fudge)"

text \<open>The clock \<open>now\<close> of the verification and the clock \<open>cnow\<close> of the cache are separate values.\<close>

definition VerifyWithReplay ::
    "hmac_fn \<Rightarrow> bytes \<Rightarrow> tsig_key \<Rightarrow> tsig_cache option \<Rightarrow> gotime \<Rightarrow> gotime \<Rightarrow> duration \<Rightarrow>
     (tsig_error + bytes \<times> bytes \<times> gotime) \<times> tsig_cache option" where
  "VerifyWithReplay hm msg key cache now cnow fudge =
     (case VerifyMAC hm msg key now fudge of
        Inl e \<Rightarrow> (Inl e, cache)
      | Inr (body, mac, sgnd) \<Rightarrow>
          (case cache of
             None \<Rightarrow> (Inr (body, mac, sgnd), None)
           | Some c \<Rightarrow>
               let (seen, c') = tsig_Seen (tsig_replayKey (tk_name key) sgnd mac) cnow c in
               if seen then (Inl TsigReplay, Some c') else (Inr (body, mac, sgnd), Some c')))"

subsection \<open>Verification does not panic\<close>

definition np :: "tsig_error + 'a \<Rightarrow> bool" where
  "np r \<longleftrightarrow> r \<noteq> Inl TsigPanic"

lemma np_Inr [simp]: "np (Inr x)"
  by (simp add: np_def)

lemma np_Inl [simp]: "np (Inl e) \<longleftrightarrow> e \<noteq> TsigPanic"
  by (simp add: np_def)

lemma np_ebind: "np r \<Longrightarrow> (\<And>x. r = Inr x \<Longrightarrow> np (f x)) \<Longrightarrow> np (ebind r f)"
  by (cases r) (auto simp: np_def)

lemma np_if: "(b \<Longrightarrow> np x) \<Longrightarrow> (\<not> b \<Longrightarrow> np y) \<Longrightarrow> np (if b then x else y)"
  by simp

lemma np_slice: "i \<le> j \<Longrightarrow> j \<le> length b \<Longrightarrow> np (slice b i j)"
  by (simp add: slice_def)

lemma np_slice16: "i + 2 \<le> length b \<Longrightarrow> np (slice16 b i)"
  unfolding slice16_def by (intro np_ebind np_slice) simp_all

lemma np_decodeName: "np (decodeName msg off)"
  by (simp add: decodeName_def split: sum.splits)

lemma decodeName_iff: "decodeName msg off = Inr r \<longleftrightarrow> DecodeWire msg off = Inr r"
  by (simp add: decodeName_def split: sum.splits)

lemma decodeName_le: "decodeName msg off = Inr (n, nx) \<Longrightarrow> off \<le> nx"
  by (auto simp: decodeName_iff DecodeWire_iff)

lemma np_parseTSIGRData: "e \<le> length msg \<Longrightarrow> np (parseTSIGRData msg start e)"
  unfolding parseTSIGRData_def Let_def case_prod_beta
  by (intro np_ebind np_if np_decodeName np_slice np_slice16) simp_all

lemma np_skipQuestions: "np (skipQuestions msg n off)"
proof (induction n arbitrary: off)
  case (Suc n)
  then show ?case
    unfolding skipQuestions.simps case_prod_beta by (intro np_ebind np_if np_decodeName) simp_all
qed simp

lemma skipQuestions_le: "skipQuestions msg n off = Inr off' \<Longrightarrow> off \<le> off'"
proof (induction n arbitrary: off)
  case (Suc n)
  then obtain q nx where "decodeName msg off = Inr (q, nx)" "skipQuestions msg n (nx + 4) = Inr off'"
    by (auto split: if_splits)
  with Suc.IH [of "nx + 4"] decodeName_le show ?case by fastforce
qed simp

lemma np_walkRRs: "np (walkRRs msg n i off acc)"
proof (induction n arbitrary: i off acc)
  case (Suc n)
  then show ?case
    unfolding walkRRs.simps case_prod_beta Let_def
    by (intro np_ebind np_if np_decodeName np_slice16) simp_all
qed simp

lemma walkRRs_bounds:
  "walkRRs msg n i off (l, li) = Inr ((l', li'), off') \<Longrightarrow> off \<le> off' \<and> (n = 0 \<and> l' = l \<or> off \<le> l' \<and> l' \<le> length msg)"
proof (induction n arbitrary: i off l li)
  case (Suc n)
  then obtain q nx and rdlen :: u16 where w: "decodeName msg off = Inr (q, nx)" "nx + 10 \<le> length msg"
    "walkRRs msg n (i + 1) (nx + 10 + unat rdlen) (off, i) = Inr ((l', li'), off')"
    by (auto simp: Let_def not_less split: if_splits)
  have "off \<le> nx" using decodeName_le [OF w(1)] .
  with Suc.IH [OF w(3)] w(2) show ?case by auto
qed auto

lemma np_findLastRROffset: "12 \<le> length msg \<Longrightarrow> np (findLastRROffset msg)"
  unfolding findLastRROffset_def case_prod_beta
  by (intro np_ebind np_if np_slice16 np_skipQuestions np_walkRRs) simp_all

lemma slice16_Inr: "slice16 b i = Inr v \<longleftrightarrow> i + 2 \<le> length b \<and> v = rd16 (take 2 (drop i b))"
  by (auto simp: slice16_def slice_def)

lemma findLastRROffset_bounds:
  assumes "findLastRROffset msg = Inr l"
  shows "12 \<le> l \<and> l \<le> length msg"
proof -
  from assms obtain qd an ns ar :: u16 and off li off' where w: "skipQuestions msg (unat qd) 12 = Inr off"
    "walkRRs msg (unat an + unat ns + unat ar) 0 off (off, - 1) = Inr ((l, li), off')"
    "\<not> li < int (unat an + unat ns)"
    unfolding findLastRROffset_def by (auto split: if_splits)
  have "unat an + unat ns + unat ar \<noteq> 0"
  proof
    assume "unat an + unat ns + unat ar = 0"
    with w(2,3) show False by simp
  qed
  with walkRRs_bounds [OF w(2)] skipQuestions_le [OF w(1)] show ?thesis by auto
qed

lemma np_stripTSIG: "np (stripTSIG msg)"
  unfolding stripTSIG_def Let_def case_prod_beta
  by (intro np_if np_ebind np_findLastRROffset np_decodeName np_slice16 np_parseTSIGRData np_slice)
    (auto simp: slice_def dest!: findLastRROffset_bounds)

text \<open>The names of the known algorithms parse.\<close>

lemma algorithm_parse:
  "Parse HMACSHA1 = Inr (Name (9 # butlast HMACSHA1 @ [0]))"
  "Parse HMACSHA256 = Inr (Name (11 # butlast HMACSHA256 @ [0]))"
  "Parse HMACSHA384 = Inr (Name (11 # butlast HMACSHA384 @ [0]))"
  "Parse HMACSHA512 = Inr (Name (11 # butlast HMACSHA512 @ [0]))"
  by code_simp+

lemma MustParse_known: "IsKnown a \<Longrightarrow> \<exists>n. MustParseName a = Inr n"
  by (auto simp: IsKnown_def MustParseName_def algorithm_parse)

lemma np_computeHMAC: "np (computeHMAC hm key input)"
  by (simp add: computeHMAC_def)

lemma stripTSIG_body:
  assumes "stripTSIG msg = Inr (body, t)"
  shows "12 \<le> length body"
proof -
  from assms obtain start b where "findLastRROffset msg = Inr start" "slice msg 0 start = Inr b"
    "body = put16 10 (rd16 (take 2 (drop 10 msg)) - 1) b"
    unfolding stripTSIG_def by (auto simp: Let_def slice16_Inr split: if_splits)
  with findLastRROffset_bounds [of msg start] show ?thesis by (auto simp: slice_def put16_def)
qed

lemma np_verifyWithPrefix:
  assumes "IsKnown (tk_algorithm key)"
  shows "np (verifyWithPrefix hm msg key prior timers now fudge)"
proof -
  obtain n where "MustParseName (tk_algorithm key) = Inr n" using MustParse_known [OF assms] by blast
  moreover have "2 \<le> length body" if "stripTSIG msg = Inr (body, t)" for body t
    using stripTSIG_body [OF that] by simp
  ultimately show ?thesis
    unfolding verifyWithPrefix_def
    by (auto intro!: np_ebind np_stripTSIG np_computeHMAC np_slice simp: Let_def split: option.splits)
qed

subsection \<open>Stripping an appended TSIG record\<close>

lemma length_put16 [simp]: "off + 2 \<le> length b \<Longrightarrow> length (put16 off v b) = length b"
  by (simp add: put16_def)

lemma put16_append: "off + 2 \<le> length b \<Longrightarrow> put16 off v (b @ s) = put16 off v b @ s"
  by (simp add: put16_def)

lemma rd16_put16: "off + 2 \<le> length b \<Longrightarrow> rd16 (drop off (put16 off v b @ s)) = v"
  by (simp add: put16_def)

lemma rd16_take2 [simp]: "rd16 (take 2 b) = rd16 b"
  by (cases b rule: rd16.cases) (auto simp: numeral_2_eq_2)

lemma put16_same: "off + 2 \<le> length b \<Longrightarrow> put16 off (rd16 (drop off b)) b = b"
proof -
  assume l: "off + 2 \<le> length b"
  then have "be16 (rd16 (take 2 (drop off b))) = take 2 (drop off b)" by (intro be16_rd16) simp
  then show ?thesis
    using l append_take_drop_id [of 2 "drop off b"] by (simp add: put16_def add.commute)
qed

lemma put16_put16: "off + 2 \<le> length b \<Longrightarrow> put16 off v (put16 off w b) = put16 off v b"
  by (simp add: put16_def)

lemma rd16_append: "2 \<le> length xs \<Longrightarrow> rd16 (xs @ ys) = rd16 xs"
  by (cases xs rule: rd16.cases) auto

lemma rd16_put16_other:
  assumes "off' + 2 \<le> off" "off + 2 \<le> length b"
  shows "rd16 (drop off' (put16 off v b @ s)) = rd16 (drop off' b)"
proof -
  have "drop off' (put16 off v b @ s) = drop off' (take off b) @ be16 v @ drop (off + 2) b @ s"
    using assms by (simp add: put16_def)
  moreover have "drop off' b = drop off' (take off b) @ drop off b"
    using assms by (metis append_take_drop_id drop_append drop_drop le_add_diff_inverse2 length_take min.absorb2
        add_leD1 diff_is_0_eq drop_0 order_trans)
  moreover have "2 \<le> length (drop off' (take off b))" using assms by simp
  ultimately show ?thesis by (simp only: rd16_append)
qed

lemma decodeName_append: "decodeName msg off = Inr r \<Longrightarrow> decodeName (msg @ s) off = Inr r"
proof -
  assume "decodeName msg off = Inr r"
  moreover obtain n nx where r: "r = (n, nx)" by (cases r)
  ultimately obtain ls h k where "names_at msg off ls h k" "h \<le> maxPtrHops" "length (wire_of ls) \<le> maxNameLen"
    "n = Name (map foldByte (wire_of ls))" "nx = off + k"
    by (auto simp: decodeName_iff DecodeWire_iff)
  then have "DecodeWire (msg @ s) off = Inr (n, nx)" using names_at_append unfolding DecodeWire_iff by blast
  then show ?thesis by (simp add: decodeName_iff r)
qed

lemma slice16_append: "slice16 b i = Inr v \<Longrightarrow> slice16 (b @ s) i = Inr v"
  by (auto simp: slice16_Inr)

lemma skipQuestions_append: "skipQuestions msg n off = Inr off' \<Longrightarrow> skipQuestions (msg @ s) n off = Inr off'"
proof (induction n arbitrary: off)
  case (Suc n)
  then obtain q nx where "decodeName msg off = Inr (q, nx)" "nx + 4 \<le> length msg" "skipQuestions msg n (nx + 4) = Inr off'"
    by (auto simp: not_less split: if_splits)
  with Suc.IH [of "nx + 4"] decodeName_append [of msg off "(q, nx)" s] show ?case by simp
qed simp

lemma walkRRs_append: "walkRRs msg n i off acc = Inr r \<Longrightarrow> walkRRs (msg @ s) n i off acc = Inr r"
proof (induction n arbitrary: i off acc)
  case (Suc n)
  then obtain q nx rdlen where w: "decodeName msg off = Inr (q, nx)" "nx + 10 \<le> length msg" "slice16 msg (nx + 8) = Inr rdlen"
    "nx + 10 + unat rdlen \<le> length msg" "walkRRs msg n (i + 1) (nx + 10 + unat rdlen) (off, i) = Inr r"
    by (auto simp: Let_def not_less split: if_splits)
  with Suc.IH [OF w(5)] decodeName_append [OF w(1), of s] slice16_append [OF w(3), of s] show ?case by (simp add: Let_def)
qed simp

lemma walkRRs_snoc:
  "walkRRs msg n i off acc = Inr (acc', off') \<Longrightarrow> walkRRs msg (Suc n) i off acc = walkRRs msg 1 (i + int n) off' acc'"
proof (induction n arbitrary: i off acc)
  case (Suc n)
  then obtain q nx rdlen where w: "decodeName msg off = Inr (q, nx)" "nx + 10 \<le> length msg" "slice16 msg (nx + 8) = Inr rdlen"
    "nx + 10 + unat rdlen \<le> length msg" "walkRRs msg n (i + 1) (nx + 10 + unat rdlen) (off, i) = Inr (acc', off')"
    by (auto simp: Let_def not_less split: if_splits)
  then have "walkRRs msg (Suc (Suc n)) i off acc = walkRRs msg (Suc n) (i + 1) (nx + 10 + unat rdlen) (off, i)"
    by (simp add: Let_def)
  with Suc.IH [OF w(5)] show ?case by (simp add: algebra_simps)
qed simp

text \<open>A message body whose sections end where it ends; \<open>n\<close> is the number of its records.\<close>

definition framed :: "bytes \<Rightarrow> nat \<Rightarrow> bool" where
  "framed b n \<longleftrightarrow> 12 \<le> length b \<and>
     (case skipQuestions b (unat (rd16 (drop 4 b))) 12 of
        Inl _ \<Rightarrow> False
      | Inr off \<Rightarrow> (case walkRRs b n 0 off (off, - 1) of Inl _ \<Rightarrow> False | Inr (_, e) \<Rightarrow> e = length b))"

definition tsigRR :: "parsedTSIG \<Rightarrow> bytes" where
  "tsigRR t = appendTSIGRR [] (pt_keyName t)
     (buildTSIGRData (pt_algorithm t) (pt_timeSigned t) (pt_fudge t) (pt_mac t) (pt_origID t) (pt_errCode t) (pt_other t))"

definition tsig_ok :: "parsedTSIG \<Rightarrow> bool" where
  "tsig_ok t \<longleftrightarrow> nm_ok (pt_keyName t) \<and> nm_ok (pt_algorithm t) \<and> pt_timeSigned t < 2 ^ 48 \<and>
     length (pt_mac t) + length (pt_other t) \<le> 65000"

lemma decodeName_at:
  assumes "nm_ok n"
  shows "decodeName (pre @ AppendWire n [] @ post) (length pre) = Inr (n, length pre + length (wire n))"
proof -
  from assms obtain ls where ls: "n = Name (wire_of ls)" "list_all label_ok ls" "length (wire_of ls) \<le> maxNameLen"
    by (auto simp: nm_ok_def elim: wf_nameE)
  have "map foldByte (wire_of ls) = wire_of ls" using assms ls by (simp add: nm_ok_def canonical_def)
  then have "DecodeWire (pre @ wire_of ls @ post) (length pre) = Inr (n, length pre + length (wire_of ls))"
    unfolding DecodeWire_iff using names_at_wire_of [OF ls(2), of pre post] ls by (metis le0)
  with ls assms show ?thesis by (simp add: decodeName_iff AppendWire_def nm_ok_def)
qed

lemma length_wire_nm: "nm_ok n \<Longrightarrow> length (wire n) \<le> 255"
  by (auto simp: nm_ok_def maxNameLen_def elim!: wf_nameE)

lemma length_appendUint48 [simp]: "length (appendUint48 b v) = length b + 6"
  by (simp add: appendUint48_def)

lemma readUint48_append: "v < 2 ^ 48 \<Longrightarrow> readUint48 (appendUint48 [] v) = v"
proof (rule bit_word_eqI)
  fix n assume v: "v < 2 ^ 48" and "n < LENGTH(64)"
  have "unat v < 2 ^ 48" using v by (simp add: word_less_nat_alt)
  then have "take_bit 48 (unat v) = unat v" by (rule take_bit_nat_eq_self)
  then have "\<not> bit (unat v) n" if "48 \<le> n" using that bit_take_bit_iff [of 48 "unat v" n] by simp
  then have hi: "\<not> bit v n" if "48 \<le> n" using that \<open>n < LENGTH(64)\<close> by (simp add: bit_unsigned_iff)
  consider "n < 8" | "8 \<le> n \<and> n < 16" | "16 \<le> n \<and> n < 24" | "24 \<le> n \<and> n < 32" | "32 \<le> n \<and> n < 40"
    | "40 \<le> n \<and> n < 48" | "48 \<le> n" by fastforce
  then show "bit (readUint48 (appendUint48 [] v)) n = bit v n"
    by cases (use hi in \<open>auto simp: readUint48_def appendUint48_def bit_simps\<close>)
qed

lemma slice_mid: "slice (a @ b @ c) (length a) (length a + length b) = Inr b"
  by (simp add: slice_def)

lemma slice16_mid: "slice16 (a @ be16 v @ c) (length a) = Inr v"
  by (simp add: slice16_def slice_def)

lemma parseTSIGRData_at:
  assumes "tsig_ok t"
    and rd: "rd = buildTSIGRData (pt_algorithm t) (pt_timeSigned t) (pt_fudge t) (pt_mac t) (pt_origID t) (pt_errCode t) (pt_other t)"
  shows "parseTSIGRData (pre @ rd @ post) (length pre) (length pre + length rd) = Inr (t\<lparr>pt_keyName := zeroName\<rparr>)"
proof -
  define a tm fu ml m o1 er ol ot where "a = wire (pt_algorithm t)" and "tm = appendUint48 [] (pt_timeSigned t)"
    and "fu = be16 (pt_fudge t)" and "ml = be16 (word_of_nat (length (pt_mac t)))" and "m = pt_mac t"
    and "o1 = be16 (pt_origID t)" and "er = be16 (pt_errCode t)"
    and "ol = be16 (word_of_nat (length (pt_other t)))" and "ot = pt_other t"
  note parts = fu_def ml_def o1_def er_def ol_def
  have alg: "nm_ok (pt_algorithm t)" "pt_timeSigned t < 2 ^ 48" using assms(1) by (simp_all add: tsig_ok_def)
  have eq: "rd = a @ tm @ fu @ ml @ m @ o1 @ er @ ol @ ot"
    using AppendWire_nm [OF alg(1)] by (simp add: rd buildTSIGRData_def appendUint48_def a_def tm_def parts m_def ot_def)
  have len: "length tm = 6" "length fu = 2" "length ml = 2" "length o1 = 2" "length er = 2" "length ol = 2"
    by (simp_all add: tm_def parts)
  have sizes: "unat (word_of_nat (length (pt_mac t)) :: u16) = length m" "unat (word_of_nat (length (pt_other t)) :: u16) = length ot"
    using assms(1) by (simp_all add: tsig_ok_def m_def ot_def)
  let ?m = "pre @ rd @ post"
  define off where "off = length pre + length a"
  have d: "decodeName ?m (length pre) = Inr (pt_algorithm t, off)"
    using decodeName_at [OF alg(1), of pre "tm @ fu @ ml @ m @ o1 @ er @ ol @ ot @ post"] AppendWire_nm [OF alg(1)]
    by (simp add: eq a_def off_def)
  have s1: "slice ?m off (off + 6) = Inr tm"
    using slice_mid [of "pre @ a" tm "fu @ ml @ m @ o1 @ er @ ol @ ot @ post"] by (simp add: eq len off_def)
  have s2: "slice16 ?m (off + 6) = Inr (pt_fudge t)"
    using slice16_mid [of "pre @ a @ tm" "pt_fudge t" "ml @ m @ o1 @ er @ ol @ ot @ post"] by (simp add: eq len off_def parts ac_simps)
  have s3: "slice16 ?m (off + 8) = Inr (word_of_nat (length (pt_mac t)))"
    using slice16_mid [of "pre @ a @ tm @ fu" "word_of_nat (length (pt_mac t))" "m @ o1 @ er @ ol @ ot @ post"]
    by (simp add: eq len off_def parts ac_simps)
  have s4: "slice ?m (off + 10) (off + 10 + length m) = Inr m"
    using slice_mid [of "pre @ a @ tm @ fu @ ml" m "o1 @ er @ ol @ ot @ post"] by (simp add: eq len off_def ac_simps)
  have s5: "slice16 ?m (off + 10 + length m) = Inr (pt_origID t)"
    using slice16_mid [of "pre @ a @ tm @ fu @ ml @ m" "pt_origID t" "er @ ol @ ot @ post"] by (simp add: eq len off_def parts ac_simps)
  have s6: "slice16 ?m (off + 10 + length m + 2) = Inr (pt_errCode t)"
    using slice16_mid [of "pre @ a @ tm @ fu @ ml @ m @ o1" "pt_errCode t" "ol @ ot @ post"] by (simp add: eq len off_def parts ac_simps)
  have s7: "slice16 ?m (off + 10 + length m + 4) = Inr (word_of_nat (length (pt_other t)))"
    using slice16_mid [of "pre @ a @ tm @ fu @ ml @ m @ o1 @ er" "word_of_nat (length (pt_other t))" "ot @ post"]
    by (simp add: eq len off_def parts ac_simps)
  have s8: "slice ?m (off + 10 + length m + 6) (off + 10 + length m + 6 + length ot) = Inr ot"
    using slice_mid [of "pre @ a @ tm @ fu @ ml @ m @ o1 @ er @ ol" ot post] by (simp add: eq len off_def ac_simps)
  have e: "length pre + length rd = off + 10 + length m + 6 + length ot" by (simp add: eq len off_def)
  show ?thesis
    using d s1 s2 s3 s4 s5 s6 s7 s8 sizes readUint48_append [OF alg(2)] unfolding parseTSIGRData_def e Let_def
    by (simp add: tm_def m_def ot_def)
qed

lemma stripTSIG_append:
  assumes "tsig_ok t" "ar = rd16 (drop 10 b)" "ar \<noteq> 0"
    "framed b (unat (rd16 (drop 6 b)) + unat (rd16 (drop 8 b)) + unat (ar - 1))"
  shows "stripTSIG (b @ tsigRR t) = Inr (put16 10 (ar - 1) b, t)"
proof -
  define kn where "kn = wire (pt_keyName t)"
  define rd where "rd = buildTSIGRData (pt_algorithm t) (pt_timeSigned t) (pt_fudge t) (pt_mac t) (pt_origID t) (pt_errCode t) (pt_other t)"
  define msg where "msg = b @ tsigRR t"
  define off where "off = length b + length kn"
  let ?n = "unat (rd16 (drop 6 b)) + unat (rd16 (drop 8 b)) + unat (ar - 1)"
  have nm: "nm_ok (pt_keyName t)" "nm_ok (pt_algorithm t)" using assms(1) by (simp_all add: tsig_ok_def)
  have rr: "tsigRR t = kn @ be16 tsigType @ be16 tsigClass @ be32 0 @ be16 (word_of_nat (length rd)) @ rd"
    using AppendWire_nm [OF nm(1)] by (simp add: tsigRR_def appendTSIGRR_def kn_def rd_def)
  have "length rd < 65536"
    using assms(1) length_wire_nm [OF nm(2)] AppendWire_nm [OF nm(2)]
    by (simp add: rd_def buildTSIGRData_def tsig_ok_def)
  then have lrd: "unat (word_of_nat (length rd) :: u16) = length rd" by (rule unat_of_nat_u16)
  have "framed b ?n" using assms(4) .
  then obtain o1 acc where l: "12 \<le> length b" and w: "skipQuestions b (unat (rd16 (drop 4 b))) 12 = Inr o1"
    "walkRRs b ?n 0 o1 (o1, - 1) = Inr (acc, length b)"
    by (auto simp: framed_def split: sum.splits)
  have h: "slice16 msg i = Inr (rd16 (drop i b))" if "i + 2 \<le> length b" for i
    using that by (simp add: slice16_Inr msg_def)
  have dn: "decodeName msg (length b) = Inr (pt_keyName t, off)"
    using decodeName_at [OF nm(1), of b] AppendWire_nm [OF nm(1)] by (simp add: msg_def rr kn_def off_def)
  have ty: "slice16 msg off = Inr tsigType"
    using slice16_mid [of "b @ kn" tsigType] by (simp add: msg_def rr off_def)
  have rl: "slice16 msg (off + 8) = Inr (word_of_nat (length rd))"
    using slice16_mid [of "b @ kn @ be16 tsigType @ be16 tsigClass @ be32 0" "word_of_nat (length rd)" rd]
    by (simp add: msg_def rr off_def ac_simps)
  have lm: "length msg = off + 10 + length rd" by (simp add: msg_def rr off_def)
  have "unat ar = Suc (unat (ar - 1))" using assms(3) by (simp add: unat_minus_one unat_gt_0)
  then have cnt: "unat (rd16 (drop 6 b)) + unat (rd16 (drop 8 b)) + unat ar = Suc ?n" by simp
  have "walkRRs msg (Suc ?n) 0 o1 (o1, - 1) = Inr ((length b, int ?n), length msg)"
    using walkRRs_snoc [OF walkRRs_append [OF w(2), of "tsigRR t"]] dn rl lrd lm
    by (simp add: msg_def [symmetric] Let_def)
  then have wk: "walkRRs msg (unat (rd16 (drop 6 b)) + unat (rd16 (drop 8 b)) + unat (rd16 (drop 10 b))) 0 o1 (o1, - 1) =
      Inr ((length b, int ?n), length msg)" using cnt unfolding assms(2) by metis
  have sk: "skipQuestions msg (unat (rd16 (drop 4 b))) 12 = Inr o1"
    using skipQuestions_append [OF w(1)] by (simp add: msg_def)
  have fl: "findLastRROffset msg = Inr (length b)"
    using h [of 4] h [of 6] h [of 8] h [of 10] l sk wk
    by (simp add: findLastRROffset_def del: walkRRs.simps ebind_Inr)
  have pr: "parseTSIGRData msg (off + 10) (off + 10 + length rd) = Inr (t\<lparr>pt_keyName := zeroName\<rparr>)"
    using parseTSIGRData_at [OF assms(1) rd_def, of "b @ kn @ be16 tsigType @ be16 tsigClass @ be32 0 @ be16 (word_of_nat (length rd))" "[]"]
    by (simp add: msg_def rr off_def ac_simps)
  have sb: "slice msg 0 (length b) = Inr b" "slice b 10 12 = Inr (take 2 (drop 10 b))"
    using l by (simp_all add: slice_def msg_def)
  have lm12: "\<not> length msg < 12" using l by (simp add: msg_def)
  show ?thesis
    using h [of 10] l assms(2,3) fl dn ty rl lrd pr sb lm12 lm unfolding stripTSIG_def msg_def [symmetric]
    by (simp add: Let_def del: ebind_Inr)
qed

subsection \<open>Round trip\<close>

text \<open>The documented length of the output of the keyed hash.\<close>

fun digestSize :: "hash_fn \<Rightarrow> nat" where
  "digestSize SHA1 = 20"
| "digestSize SHA256 = 32"
| "digestSize SHA384 = 48"
| "digestSize SHA512 = 64"

definition hmac_len :: "hmac_fn \<Rightarrow> bool" where
  "hmac_len hm \<longleftrightarrow> (\<forall>h k p. length (hm h k p) = digestSize h)"

definition key_ok :: "tsig_key \<Rightarrow> bool" where
  "key_ok key \<longleftrightarrow> nm_ok (tk_name key) \<and> IsKnown (tk_algorithm key) \<and> (tk_algorithm key = HMACSHA1 \<longrightarrow> tk_allowSHA1 key)"

definition algName :: "tsig_algorithm \<Rightarrow> wname" where
  "algName a = (case Parse a of Inl _ \<Rightarrow> zeroName | Inr n \<Rightarrow> n)"

lemma algorithm_distinct:
  "HMACSHA1 \<noteq> HMACSHA256" "HMACSHA1 \<noteq> HMACSHA384" "HMACSHA1 \<noteq> HMACSHA512"
  "HMACSHA256 \<noteq> HMACSHA384" "HMACSHA256 \<noteq> HMACSHA512" "HMACSHA384 \<noteq> HMACSHA512"
  by code_simp+

lemma algName_canonical: "IsKnown a \<Longrightarrow> canonical (algName a)"
proof -
  have "canonical (algName HMACSHA1)" "canonical (algName HMACSHA256)" "canonical (algName HMACSHA384)"
    "canonical (algName HMACSHA512)" by code_simp+
  then show "IsKnown a \<Longrightarrow> canonical (algName a)" by (auto simp: IsKnown_def)
qed

lemma algName_parse: "IsKnown a \<Longrightarrow> MustParseName a = Inr (algName a) \<and> nm_ok (algName a)"
proof -
  assume k: "IsKnown a"
  then obtain n where n: "Parse a = Inr n" by (auto simp: IsKnown_def algorithm_parse)
  with Parse_wf [OF n] algName_canonical [OF k] show ?thesis by (simp add: MustParseName_def algName_def nm_ok_def)
qed

lemma computeHMAC_ok:
  assumes "key_ok key" "hmac_len hm"
  obtains mac lo where "computeHMAC hm key input = Inr mac" "minMACSize (tk_algorithm key) = Some lo"
    "lo \<le> length mac" "length mac \<le> 64"
  using assms algorithm_distinct
  by (auto simp: key_ok_def IsKnown_def computeHMAC_def minMACSize_def hmac_len_def)

text \<open>What verification computes for a body and an appended record.\<close>

lemma verify_append:
  assumes "tsig_ok t" "key_ok key" "hmac_len hm" "ar = rd16 (drop 10 b)" "ar \<noteq> 0"
    "framed b (unat (rd16 (drop 6 b)) + unat (rd16 (drop 8 b)) + unat (ar - 1))"
    "pt_keyName t = tk_name key" "pt_algorithm t = algName (tk_algorithm key)"
    and body: "body = put16 0 (pt_origID t) (put16 10 (ar - 1) b)"
    and mac: "computeHMAC hm key (buildSigningInput body (pt_keyName t) (pt_algorithm t) prior
      (pt_timeSigned t) (pt_fudge t) (pt_errCode t) (pt_other t) timers) = Inr mac"
    and tmac: "n \<le> length mac" "pt_mac t = take n mac" "the (minMACSize (tk_algorithm key)) \<le> n"
    and time: "\<bar>now - uint (pt_timeSigned t) * Second\<bar> \<le> fudge" "fudge < 2 ^ 63"
  shows "verifyWithPrefix hm (b @ tsigRR t) key prior timers now fudge = Inr (body, pt_mac t, uint (pt_timeSigned t) * Second)"
proof -
  obtain lo where lo: "minMACSize (tk_algorithm key) = Some lo"
    using computeHMAC_ok [OF assms(2,3)] by metis
  have strip: "stripTSIG (b @ tsigRR t) = Inr (put16 10 (ar - 1) b, t)"
    using stripTSIG_append [OF assms(1,4,5,6)] .
  have "12 \<le> length (put16 10 (ar - 1) b)" using stripTSIG_body [OF strip] .
  then have sl: "slice (put16 10 (ar - 1) b) 0 2 = Inr (take 2 (put16 10 (ar - 1) b))" by (simp add: slice_def)
  have delta: "\<not> (timeSub now (uint (pt_timeSigned t) * Second) > fudge \<or> timeSub now (uint (pt_timeSigned t) * Second) < - fudge)"
    using time by (auto simp: timeSub_def)
  have alg: "MustParseName (tk_algorithm key) = Inr (algName (tk_algorithm key))"
    using algName_parse assms(2) by (simp add: key_ok_def)
  show ?thesis
    unfolding verifyWithPrefix_def strip
    using assms(7,8) alg lo tmac sl mac delta by (simp add: NameEqual_def Let_def body [symmetric] del: ebind_Inr)
qed

text \<open>A message that can be signed: room for one more record, and sections that end where the message ends.\<close>

definition bumped :: "bytes \<Rightarrow> bytes" where
  "bumped msg = put16 10 (rd16 (drop 10 msg) + 1) msg"

definition signable :: "bytes \<Rightarrow> bool" where
  "signable msg \<longleftrightarrow> 12 \<le> length msg \<and> rd16 (drop 10 msg) \<noteq> 0xffff \<and>
     framed (bumped msg) (unat (rd16 (drop 6 msg)) + unat (rd16 (drop 8 msg)) + unat (rd16 (drop 10 msg)))"

definition signedTSIG :: "bytes \<Rightarrow> tsig_key \<Rightarrow> gotime \<Rightarrow> duration \<Rightarrow> bytes \<Rightarrow> parsedTSIG" where
  "signedTSIG msg key now fudge mac =
     \<lparr>pt_keyName = tk_name key, pt_algorithm = algName (tk_algorithm key), pt_timeSigned = word_of_int (Unix now),
      pt_fudge = word_of_int (fudge div Second), pt_mac = mac, pt_origID = rd16 msg, pt_errCode = 0, pt_other = []\<rparr>"

definition signingInput :: "bytes \<Rightarrow> tsig_key \<Rightarrow> bytes option \<Rightarrow> bool \<Rightarrow> gotime \<Rightarrow> duration \<Rightarrow> bytes" where
  "signingInput msg key prior timers now fudge =
     buildSigningInput msg (tk_name key) (algName (tk_algorithm key)) prior (word_of_int (Unix now))
       (word_of_int (fudge div Second)) 0 [] timers"

lemma signWithPrefix_eq:
  assumes "key_ok key" "12 \<le> length msg" "0 \<le> fudge" "fudge \<le> 65535 * Second"
  shows "signWithPrefix hm msg key prior timers now fudge =
    ebind (computeHMAC hm key (signingInput msg key prior timers now fudge)) (\<lambda>mac.
      Inr (bumped msg @ tsigRR (signedTSIG msg key now fudge mac), mac))"
proof -
  have alg: "MustParseName (tk_algorithm key) = Inr (algName (tk_algorithm key))"
    using algName_parse assms(1) by (simp add: key_ok_def)
  have p: "put16 10 (rd16 (drop 10 msg @ r) + 1) (msg @ r) = bumped msg @ r" for r
    using assms(2) rd16_append [of "drop 10 msg" r] by (simp add: put16_append bumped_def)
  have a: "appendTSIGRR msg n rd = msg @ appendTSIGRR [] n rd" for n rd by (simp add: appendTSIGRR_def)
  show ?thesis
    using assms(2-4) by (simp add: signWithPrefix_def alg signingInput_def Let_def a p
        tsigRR_def signedTSIG_def del: ebind_Inr)
qed

lemma bumped_facts:
  assumes "12 \<le> length msg"
  shows "rd16 (drop 10 (bumped msg)) = rd16 (drop 10 msg) + 1" "rd16 (drop 6 (bumped msg)) = rd16 (drop 6 msg)"
    "rd16 (drop 8 (bumped msg)) = rd16 (drop 8 msg)" "put16 10 (rd16 (drop 10 msg)) (bumped msg) = msg"
  using assms rd16_put16 [of 10 msg _ "[]"] rd16_put16_other [of 6 10 msg _ "[]"] rd16_put16_other [of 8 10 msg _ "[]"]
    put16_same [of 10 msg] by (simp_all add: bumped_def put16_put16)

lemma bumped_count: "rd16 (drop 10 msg) \<noteq> 0xffff \<Longrightarrow> rd16 (drop 10 msg) + 1 \<noteq> 0"
proof
  assume "rd16 (drop 10 msg) \<noteq> 0xffff" "rd16 (drop 10 msg) + 1 = 0"
  then have "rd16 (drop 10 msg) = - 1" by (simp add: eq_neg_iff_add_eq_0)
  moreover have "(- 1 :: u16) = 0xffff" by simp
  ultimately show False using \<open>rd16 (drop 10 msg) \<noteq> 0xffff\<close> by metis
qed

lemma uint_Unix: "0 \<le> Unix now \<Longrightarrow> Unix now < 2 ^ 48 \<Longrightarrow> uint (word_of_int (Unix now) :: u64) = Unix now"
  by (simp add: uint_word_of_int)

lemma Unix_small: "0 \<le> Unix now \<Longrightarrow> Unix now < 2 ^ 48 \<Longrightarrow> (word_of_int (Unix now) :: u64) < 2 ^ 48"
  by (simp add: word_less_def uint_word_of_int)

text \<open>A signature that carries the first \<open>n\<close> octets of the MAC verifies, for every \<open>n\<close> from the floor of the
  algorithm up to the full length.\<close>

lemma verify_signed:
  assumes "key_ok key" "hmac_len hm" "signable msg" "0 \<le> Unix now" "Unix now < 2 ^ 48"
    and mac: "computeHMAC hm key (signingInput msg key prior timers now fudge) = Inr mac"
    and n: "n \<le> length mac" "the (minMACSize (tk_algorithm key)) \<le> n"
    and time: "\<bar>now' - Unix now * Second\<bar> \<le> fudge'" "fudge' < 2 ^ 63"
  shows "verifyWithPrefix hm (bumped msg @ tsigRR (signedTSIG msg key now fudge (take n mac))) key prior timers now' fudge' =
    Inr (msg, take n mac, Unix now * Second)"
proof -
  let ?t = "signedTSIG msg key now fudge (take n mac)"
  have l: "12 \<le> length msg" using assms(3) by (simp add: signable_def)
  note bf = bumped_facts [OF l]
  obtain mac' where "computeHMAC hm key (signingInput msg key prior timers now fudge) = Inr mac'" "length mac' \<le> 64"
    using computeHMAC_ok [OF assms(1,2)] by metis
  with mac have l64: "length mac \<le> 64" by simp
  have ok: "tsig_ok ?t"
    using assms(1) algName_parse Unix_small [OF assms(4,5)] l64 by (simp add: tsig_ok_def signedTSIG_def key_ok_def)
  have body: "msg = put16 0 (pt_origID ?t) (put16 10 (rd16 (drop 10 msg) + 1 - 1) (bumped msg))"
    using bf(4) put16_same [of 0 msg] l by (simp add: signedTSIG_def)
  have fr: "framed (bumped msg) (unat (rd16 (drop 6 (bumped msg))) + unat (rd16 (drop 8 (bumped msg))) + unat (rd16 (drop 10 msg) + 1 - 1))"
    using assms(3) by (simp add: signable_def bf)
  have ne: "rd16 (drop 10 msg) + 1 \<noteq> 0" using assms(3) by (intro bumped_count) (simp add: signable_def)
  have "verifyWithPrefix hm (bumped msg @ tsigRR ?t) key prior timers now' fudge' =
      Inr (msg, pt_mac ?t, uint (pt_timeSigned ?t) * Second)"
    by (rule verify_append [OF ok assms(1,2) bf(1) [symmetric] ne fr _ _ body _ n(1) _ n(2) _ time(2)])
      (use mac time(1) uint_Unix [OF assms(4,5)] in \<open>simp_all add: signedTSIG_def signingInput_def\<close>)
  then show ?thesis using uint_Unix [OF assms(4,5)] by (simp add: signedTSIG_def)
qed

lemma sign_verify:
  assumes "key_ok key" "hmac_len hm" "signable msg" "0 \<le> Unix now" "Unix now < 2 ^ 48" "0 \<le> fudge" "fudge \<le> 65535 * Second"
    "\<bar>now' - Unix now * Second\<bar> \<le> fudge'" "fudge' < 2 ^ 63"
  obtains out mac where "signWithPrefix hm msg key prior timers now fudge = Inr (out, mac)"
    "verifyWithPrefix hm out key prior timers now' fudge' = Inr (msg, mac, Unix now * Second)"
proof -
  obtain mac lo where mac: "computeHMAC hm key (signingInput msg key prior timers now fudge) = Inr mac"
    "minMACSize (tk_algorithm key) = Some lo" "lo \<le> length mac"
    using computeHMAC_ok [OF assms(1,2)] by metis
  have l: "12 \<le> length msg" using assms(3) by (simp add: signable_def)
  show ?thesis
    using that [of "bumped msg @ tsigRR (signedTSIG msg key now fudge mac)" mac] mac
      signWithPrefix_eq [OF assms(1) l assms(6,7), of hm prior timers now]
      verify_signed [OF assms(1-5) mac(1) _ _ assms(8,9), of "length mac"] by simp
qed

subsection \<open>What an accepted message guarantees\<close>

lemma verify_sound:
  assumes "verifyWithPrefix hm msg key prior timers now fudge = Inr (body, mac, sgnd)"
  obtains t full where "stripTSIG msg = Inr (put16 10 (rd16 (drop 10 msg) - 1) (take (length body) msg), t)"
    "body = put16 0 (pt_origID t) (put16 10 (rd16 (drop 10 msg) - 1) (take (length body) msg))"
    "wire (pt_keyName t) = wire (tk_name key)" "mac = pt_mac t" "sgnd = uint (pt_timeSigned t) * Second"
    "computeHMAC hm key (buildSigningInput body (pt_keyName t) (pt_algorithm t) prior (pt_timeSigned t) (pt_fudge t)
       (pt_errCode t) (pt_other t) timers) = Inr full"
    "mac = take (length mac) full" "the (minMACSize (tk_algorithm key)) \<le> length mac"
    "- fudge \<le> timeSub now sgnd" "timeSub now sgnd \<le> fudge"
proof -
  obtain b0 t where s: "stripTSIG msg = Inr (b0, t)"
    using assms unfolding verifyWithPrefix_def by (cases "stripTSIG msg") auto
  define bd where "bd = put16 0 (pt_origID t) b0"
  define inp where "inp = buildSigningInput bd (pt_keyName t) (pt_algorithm t) prior (pt_timeSigned t) (pt_fudge t)
    (pt_errCode t) (pt_other t) timers"
  note eq = assms [unfolded verifyWithPrefix_def s ebind_simps prod.case Let_def, folded bd_def, folded inp_def]
  have k: "NameEqual (pt_keyName t) (tk_name key)" by (rule ccontr) (use eq in simp)
  obtain alg where a: "MustParseName (tk_algorithm key) = Inr alg"
    using eq k by (cases "MustParseName (tk_algorithm key)") simp_all
  have an: "NameEqual (pt_algorithm t) alg" by (rule ccontr) (use eq k a in simp)
  obtain lo where lo: "minMACSize (tk_algorithm key) = Some lo"
    using eq k a an by (cases "minMACSize (tk_algorithm key)") simp_all
  have ml: "lo \<le> length (pt_mac t)" by (rule ccontr) (use eq k a an lo in simp)
  obtain u where sl: "slice b0 0 2 = Inr u"
    using eq k a an lo ml by (cases "slice b0 0 2") simp_all
  obtain full where full: "computeHMAC hm key inp = Inr full"
    using eq k a an lo ml sl by (cases "computeHMAC hm key inp") simp_all
  note eq2 = eq [unfolded a ebind_simps lo option.case sl full]
  have v: "wire (pt_keyName t) = wire (tk_name key)" "body = bd" "mac = pt_mac t"
    "sgnd = uint (pt_timeSigned t) * Second" "take (length (pt_mac t)) full = pt_mac t"
    "timeSub now sgnd \<le> fudge" "- fudge \<le> timeSub now sgnd"
    using eq2 k an ml by (simp_all add: NameEqual_def not_less split: if_splits)
  from s obtain start b where f: "findLastRROffset msg = Inr start" "slice msg 0 start = Inr b"
    "b0 = put16 10 (rd16 (take 2 (drop 10 msg)) - 1) b"
    unfolding stripTSIG_def by (auto simp: Let_def slice16_Inr split: if_splits)
  have "12 \<le> start" "start \<le> length msg" using findLastRROffset_bounds [OF f(1)] by simp_all
  then have "length body = start" "b = take start msg"
    using f(2,3) v(2) by (auto simp: slice_def put16_def bd_def)
  with f(3) have b0: "put16 10 (rd16 (drop 10 msg) - 1) (take (length body) msg) = b0" by simp
  show ?thesis
    by (rule that [of t full, unfolded v(2) b0 [unfolded v(2)]])
      (use s v(1,3-7) lo ml full bd_def in \<open>simp_all add: inp_def\<close>)
qed

subsection \<open>Replay\<close>

lemma VerifyWithReplay_eq:
  "VerifyMAC hm msg key now fudge = Inr (body, mac, sgnd) \<Longrightarrow>
   VerifyWithReplay hm msg key (Some c) now cnow fudge =
     (let r = tsig_Seen (tsig_replayKey (tk_name key) sgnd mac) cnow c in
      (if fst r then Inl TsigReplay else Inr (body, mac, sgnd), Some (snd r)))"
  by (simp add: VerifyWithReplay_def Let_def split_beta)

lemma VerifyWithReplay_accept:
  assumes "VerifyWithReplay hm msg key (Some c) now cnow fudge = (Inr (body, mac, sgnd), c')"
  shows "VerifyMAC hm msg key now fudge = Inr (body, mac, sgnd)"
    "\<not> fst (tsig_Seen (tsig_replayKey (tk_name key) sgnd mac) cnow c)"
    "c' = Some (snd (tsig_Seen (tsig_replayKey (tk_name key) sgnd mac) cnow c))"
  using assms by (auto simp: VerifyWithReplay_def Let_def split: sum.splits prod.splits if_splits)

lemma VerifyMAC_deterministic:
  assumes "VerifyMAC hm msg key now fudge = Inr r" "VerifyMAC hm msg key now' fudge' = Inr r'"
  shows "r = r'"
proof -
  obtain b m g b' m' g' where r: "r = (b, m, g)" "r' = (b', m', g')" by (cases r; cases r') auto
  have "stripTSIG msg = Inr (x, t) \<Longrightarrow> VerifyMAC hm msg key n f = Inr (b, m, g) \<Longrightarrow>
      b = put16 0 (pt_origID t) x \<and> m = pt_mac t \<and> g = uint (pt_timeSigned t) * Second" for x t n f b m g
    by (auto simp: VerifyMAC_def elim!: verify_sound)
  moreover obtain x t where "stripTSIG msg = Inr (x, t)"
    using assms(1) by (cases "stripTSIG msg") (auto simp: VerifyMAC_def verifyWithPrefix_def)
  ultimately show ?thesis using assms unfolding r by blast
qed

text \<open>An accepted envelope is refused for as long as its cache entry is live and the cache has room.\<close>

lemma replay_refused:
  assumes "tsig_inv c" "VerifyWithReplay hm msg key (Some c) now t fudge = (Inr (body, mac, sgnd), Some c1)"
    "roomy tsig_Seen tsig_room cs c1" "\<forall>k \<in> set cs. snd k \<le> t'" "t' \<le> t + tc_window c"
  shows "\<exists>e c3. VerifyWithReplay hm msg key (Some (snd (runSeen tsig_Seen cs c1))) now' t' fudge' = (Inl e, c3)"
proof (cases "VerifyMAC hm msg key now' fudge'")
  case (Inl e)
  then show ?thesis by (simp add: VerifyWithReplay_def)
next
  case (Inr r)
  note acc = VerifyWithReplay_accept [OF assms(2)]
  have r: "r = (body, mac, sgnd)" using VerifyMAC_deterministic [OF Inr acc(1)] .
  let ?k = "tsig_replayKey (tk_name key) sgnd mac"
  have c1: "c1 = snd (tsig_Seen ?k t c)" using acc(3) by simp
  have "fst (tsig_Seen ?k t' (snd (runSeen tsig_Seen cs c1)))"
    unfolding c1 using assms(1,3,4,5) acc(2) c1
    by (intro tsig_guard.no_replay) (simp_all add: tsig_live_def)
  with VerifyWithReplay_eq [OF Inr [unfolded r]] show ?thesis by (simp add: Let_def)
qed

lemma tsig_Seen_True: "fst (tsig_Seen k now c) \<Longrightarrow> k \<in> fst ` set (tc_seen c)"
  by (auto simp: tsig_Seen_def tsig_evictExpiredLocked_def Let_def split: if_splits)

lemma tsig_Seen_first:
  "\<not> fst (tsig_Seen k t (tsig_NewMemoryReplayCache sz w))"
  "fst ` set (tc_seen (snd (tsig_Seen k t (tsig_NewMemoryReplayCache sz w)))) \<subseteq> {k}"
proof -
  let ?c = "tsig_NewMemoryReplayCache sz w"
  have e: "tc_seen ?c = []" by (simp add: tsig_NewMemoryReplayCache_def)
  with tsig_Seen_True [of k t ?c] show "\<not> fst (tsig_Seen k t ?c)" by auto
  show "fst ` set (tc_seen (snd (tsig_Seen k t ?c))) \<subseteq> {k}"
    using tsig_Seen_step [of ?c t k] by (auto simp: seen_step_def e split: if_splits)
qed

text \<open>The replay key contains the MAC as received.  A peer that cuts octets off a captured MAC, down to the floor of
  the algorithm, presents a different key for the same message.\<close>

lemma truncated_replay:
  assumes "key_ok key" "hmac_len hm" "signable msg" "0 \<le> Unix now" "Unix now < 2 ^ 48"
    and mac: "computeHMAC hm key (signingInput msg key None False now fudge) = Inr mac"
    and n: "n < length mac" "the (minMACSize (tk_algorithm key)) \<le> n"
    and time: "\<bar>now1 - Unix now * Second\<bar> \<le> fudge'" "\<bar>now2 - Unix now * Second\<bar> \<le> fudge'" "fudge' < 2 ^ 63"
  defines "envelope m \<equiv> bumped msg @ tsigRR (signedTSIG msg key now fudge m)"
  shows "\<exists>c1 c2.
    VerifyWithReplay hm (envelope mac) key (Some (tsig_NewMemoryReplayCache sz w)) now1 t1 fudge' =
      (Inr (msg, mac, Unix now * Second), Some c1) \<and>
    VerifyWithReplay hm (envelope (take n mac)) key (Some c1) now2 t2 fudge' =
      (Inr (msg, take n mac, Unix now * Second), Some c2)"
proof -
  let ?c = "tsig_NewMemoryReplayCache sz w" and ?k = "tsig_replayKey (tk_name key) (Unix now * Second)"
  have v1: "VerifyMAC hm (envelope mac) key now1 fudge' = Inr (msg, mac, Unix now * Second)"
    using verify_signed [OF assms(1-5) mac order_refl _ time(1,3)] n by (simp add: VerifyMAC_def envelope_def)
  have v2: "VerifyMAC hm (envelope (take n mac)) key now2 fudge' = Inr (msg, take n mac, Unix now * Second)"
    using verify_signed [OF assms(1-5) mac _ n(2) time(2,3)] n(1) by (simp add: VerifyMAC_def envelope_def)
  define c1 where "c1 = snd (tsig_Seen (?k mac) t1 ?c)"
  have wf: "wf_name (tk_name key)" using assms(1) by (simp add: key_ok_def nm_ok_def)
  have "take n mac \<noteq> mac" using n(1) by (metis length_take min.absorb4 nat_neq_iff)
  then have "?k (take n mac) \<noteq> ?k mac" using tsig_replayKey_inj [OF wf wf] by blast
  then have "\<not> fst (tsig_Seen (?k (take n mac)) t2 c1)"
    using tsig_Seen_True [of "?k (take n mac)" t2 c1] tsig_Seen_first(2) [of "?k mac" t1 sz w] by (auto simp: c1_def)
  with VerifyWithReplay_eq [OF v1, of ?c t1] VerifyWithReplay_eq [OF v2, of c1 t2] tsig_Seen_first(1) [of "?k mac" t1 sz w]
  show ?thesis by (simp add: Let_def c1_def)
qed

text \<open>A signature from a clock that runs ahead stays inside the fudge window longer than its cache entry lives, when the
  retention window is the fudge.\<close>

lemma skewed_replay:
  assumes "key_ok key" "hmac_len hm" "signable msg" "0 \<le> Unix now" "Unix now < 2 ^ 48"
    and mac: "computeHMAC hm key (signingInput msg key None False now fudge) = Inr mac"
    and win: "0 < w" "w < 2 ^ 63"
  defines "envelope \<equiv> bumped msg @ tsigRR (signedTSIG msg key now fudge mac)" and "T \<equiv> Unix now * Second"
  shows "\<exists>c1 c2.
    VerifyWithReplay hm envelope key (Some (tsig_NewMemoryReplayCache sz w)) (T - w) (T - w) w = (Inr (msg, mac, T), Some c1) \<and>
    VerifyWithReplay hm envelope key (Some c1) (T + 1) (T + 1) w = (Inr (msg, mac, T), Some c2)"
proof -
  let ?c = "tsig_NewMemoryReplayCache sz w" and ?k = "tsig_replayKey (tk_name key) T mac"
  obtain mac' lo where "computeHMAC hm key (signingInput msg key None False now fudge) = Inr mac'"
    "minMACSize (tk_algorithm key) = Some lo" "lo \<le> length mac'" using computeHMAC_ok [OF assms(1,2)] by metis
  with mac have lo: "the (minMACSize (tk_algorithm key)) \<le> length mac" by simp
  have v: "VerifyMAC hm envelope key t w = Inr (msg, mac, T)" if "\<bar>t - T\<bar> \<le> w" for t
    using verify_signed [OF assms(1-5) mac order_refl lo, of t w] that win by (simp add: VerifyMAC_def envelope_def T_def)
  define c1 where "c1 = snd (tsig_Seen ?k (T - w) ?c)"
  have c1: "c1 = \<lparr>tc_size = sz, tc_window = w, tc_seen = [(?k, T - w)], tc_lastSweep = Some (T - w)\<rparr>"
    using win by (auto simp: c1_def tsig_Seen_def tsig_shouldSweepLocked_def tsig_evictExpiredLocked_def
        tsig_NewMemoryReplayCache_def Let_def)
  have "tdiv w 4 \<le> w + 1" using win by (simp add: tdiv_nonneg)
  then have "\<not> fst (tsig_Seen ?k (T + 1) c1)"
    using win by (simp add: c1 tsig_Seen_def tsig_shouldSweepLocked_def tsig_evictExpiredLocked_def Let_def)
  with VerifyWithReplay_eq [OF v [of "T - w"], of ?c "T - w"] VerifyWithReplay_eq [OF v [of "T + 1"], of c1 "T + 1"]
    tsig_Seen_first(1) [of ?k "T - w" sz w] win
  show ?thesis by (simp add: Let_def c1_def)
qed

end
