(* ===== verification/Dns_Cookies.thy ===== *)
theory Dns_Cookies
  imports Tsig
begin

text \<open>
  DNS cookies (\<^verbatim>\<open>cookies/cookies.go\<close>): the client's cache of cookies per server, the pool of server secrets, and the
  server that mints and validates cookies.  The random source of the operating system is an argument of the operations
  that draw from it, \<open>None\<close> for a failed read; the keyed hash is the parameter \<open>hm\<close> as for transaction signatures.
\<close>

datatype cookie_error =
    CookieMissing
  | CookieTooShort
  | CookieMalformed
  | CookieExpired
  | CookieMismatch
  | CookieRetryExhausted
  | PoolRotationNeedsContext
  | RotateFailed

definition BADCOOKIE :: u16 where "BADCOOKIE = 23"

subsection \<open>The client\<close>

type_synonym addrport = "ipaddr \<times> u16"

record clientEntry =
  ce_clientCookie :: bytes
  ce_serverCookie :: bytes
  ce_updated :: gotime
  ce_badCookieStreak :: u8

definition maxBadCookieRetries :: u8 where "maxBadCookieRetries = 1"

record cookie_client =
  cl_cache :: "(addrport \<times> clientEntry) list"
  cl_maxEntries :: int
  cl_rngFailures :: u64
  cl_rngLogged :: bool

definition NewClient :: "int \<Rightarrow> cookie_client" where
  "NewClient maxEntries = \<lparr>cl_cache = [], cl_maxEntries = maxEntries, cl_rngFailures = 0, cl_rngLogged = False\<rparr>"

text \<open>The zero value that a lookup of an absent key returns; its time is the zero \<^verbatim>\<open>time.Time\<close>, the first of January of year 1.\<close>

definition zeroEntry :: clientEntry where
  "zeroEntry = \<lparr>ce_clientCookie = replicate 8 0, ce_serverCookie = [], ce_updated = - 62135596800 * Second,
     ce_badCookieStreak = 0\<rparr>"

definition setKey :: "'k \<Rightarrow> 'v \<Rightarrow> ('k \<times> 'v) list \<Rightarrow> ('k \<times> 'v) list" where
  "setKey k v es = (k, v) # deleteKey k es"

definition client_evictLocked :: "cookie_client \<Rightarrow> cookie_client" where
  "client_evictLocked c =
     (case oldest_loop None (map (\<lambda>(k, e). (k, ce_updated e)) (cl_cache c)) of
        None \<Rightarrow> c
      | Some (k, t) \<Rightarrow> c\<lparr>cl_cache := deleteKey k (cl_cache c)\<rparr>)"

text \<open>The guard in front of an insertion.\<close>

definition client_makeRoom :: "cookie_client \<Rightarrow> cookie_client" where
  "client_makeRoom c =
     (if cl_maxEntries c > 0 \<and> int (length (cl_cache c)) \<ge> cl_maxEntries c then client_evictLocked c else c)"

definition cookieOption :: "bytes \<Rightarrow> bytes \<Rightarrow> edns \<Rightarrow> edns" where
  "cookieOption cc sc b =
     (if length sc \<ge> 8 then
        case NewClientServerCookie cc sc of
          Inr opt \<Rightarrow> ednsOptionAdd opt b
        | Inl _ \<Rightarrow> ednsOptionAdd (NewClientCookie cc) b
      else ednsOptionAdd (NewClientCookie cc) b)"

definition client_Apply :: "addrport \<Rightarrow> bytes option \<Rightarrow> gotime \<Rightarrow> edns \<Rightarrow> cookie_client \<Rightarrow> edns \<times> cookie_client" where
  "client_Apply server rnd now b c =
     (case map_of (cl_cache c) server of
        None \<Rightarrow>
          (case rnd of
             None \<Rightarrow> (b, c\<lparr>cl_rngFailures := cl_rngFailures c + 1, cl_rngLogged := True\<rparr>)
           | Some cc \<Rightarrow>
               let c1 = client_makeRoom c;
                   e = \<lparr>ce_clientCookie = cc, ce_serverCookie = [], ce_updated = now, ce_badCookieStreak = 0\<rparr>
               in (cookieOption (ce_clientCookie e) (ce_serverCookie e) b, c1\<lparr>cl_cache := setKey server e (cl_cache c1)\<rparr>))
      | Some e0 \<Rightarrow>
          let e = e0\<lparr>ce_updated := now\<rparr>
          in (cookieOption (ce_clientCookie e) (ce_serverCookie e) b, c\<lparr>cl_cache := setKey server e (cl_cache c)\<rparr>))"

text \<open>The first cookie option that decodes.\<close>

fun extract_loop :: "ednsOption list \<Rightarrow> (bytes \<times> bytes) option" where
  "extract_loop [] = None"
| "extract_loop (opt # opts) =
     (if opt_code opt \<noteq> EDNSOptionCookie then extract_loop opts
      else case Cookies opt of None \<Rightarrow> extract_loop opts | Some cs \<Rightarrow> Some cs)"

definition extractCookieFromMsg :: "message \<Rightarrow> (bytes \<times> bytes) option" where
  "extractCookieFromMsg msg = (case m_edns msg of None \<Rightarrow> None | Some e \<Rightarrow> extract_loop (e_opts e))"

definition combinedRCODE :: "message \<Rightarrow> u16" where
  "combinedRCODE msg =
     (let low = ucast (RcodeOf (m_flags msg)) :: u16 in
      case m_edns msg of
        Some e \<Rightarrow> push_bit 4 (ucast (e_extRCODE e)) OR (low AND 0x0f)
      | None \<Rightarrow> low)"

definition client_entry :: "addrport \<Rightarrow> cookie_client \<Rightarrow> clientEntry" where
  "client_entry server c = (case map_of (cl_cache c) server of None \<Rightarrow> zeroEntry | Some e \<Rightarrow> e)"

definition client_Observe :: "addrport \<Rightarrow> message \<Rightarrow> gotime \<Rightarrow> cookie_client \<Rightarrow> cookie_client" where
  "client_Observe server resp now c =
     (case extractCookieFromMsg resp of
        None \<Rightarrow> c
      | Some (cc, sc) \<Rightarrow>
          if length sc < 8 then c
          else
            let e = client_entry server c;
                c1 = (if map_of (cl_cache c) server = None then client_makeRoom c else c);
                e1 = e\<lparr>ce_clientCookie := cc, ce_serverCookie := sc, ce_updated := now, ce_badCookieStreak := 0\<rparr>
            in c1\<lparr>cl_cache := setKey server e1 (cl_cache c1)\<rparr>)"

definition client_Retry :: "addrport \<Rightarrow> message \<Rightarrow> gotime \<Rightarrow> cookie_client \<Rightarrow> (cookie_error + bool) \<times> cookie_client" where
  "client_Retry server resp now c =
     (if combinedRCODE resp \<noteq> BADCOOKIE then (Inr False, c)
      else
        case extractCookieFromMsg resp of
          None \<Rightarrow> (Inl CookieMissing, c)
        | Some (cc, sc) \<Rightarrow>
            if length sc < 8 then (Inl CookieTooShort, c)
            else
              let e = client_entry server c;
                  c1 = (if map_of (cl_cache c) server = None then client_makeRoom c else c)
              in if ce_badCookieStreak e \<ge> maxBadCookieRetries then
                   (Inl CookieRetryExhausted,
                    c1\<lparr>cl_cache := setKey server (e\<lparr>ce_badCookieStreak := 0\<rparr>) (cl_cache c1)\<rparr>)
                 else
                   let e1 = e\<lparr>ce_clientCookie := cc, ce_serverCookie := sc, ce_updated := now,
                              ce_badCookieStreak := ce_badCookieStreak e + 1\<rparr>
                   in (Inr True, c1\<lparr>cl_cache := setKey server e1 (cl_cache c1)\<rparr>))"

subsection \<open>The secret pool\<close>

text \<open>
  \<open>pl_stop\<close> is the channel that stops the rotation: \<open>None\<close> for \<^verbatim>\<open>nil\<close>, otherwise whether it is closed.
\<close>

record secret_pool =
  pl_current :: bytes
  pl_previous :: bytes
  pl_stop :: "bool option"

definition pool_Rotate :: "bytes option \<Rightarrow> secret_pool \<Rightarrow> (cookie_error + unit) \<times> secret_pool" where
  "pool_Rotate rnd p =
     (case rnd of
        None \<Rightarrow> (Inl RotateFailed, p)
      | Some fresh \<Rightarrow> (Inr (), p\<lparr>pl_previous := pl_current p, pl_current := fresh\<rparr>))"

definition NewSecretPool :: "duration \<Rightarrow> bool \<Rightarrow> bytes option \<Rightarrow> cookie_error + secret_pool" where
  "NewSecretPool rotateEvery hasCtx rnd =
     (if rotateEvery > 0 \<and> \<not> hasCtx then Inl PoolRotationNeedsContext
      else
        case pool_Rotate rnd \<lparr>pl_current = [], pl_previous = [], pl_stop = None\<rparr> of
          (Inl e, _) \<Rightarrow> Inl e
        | (Inr _, p) \<Rightarrow> Inr (if rotateEvery > 0 then p\<lparr>pl_stop := Some False\<rparr> else p))"

text \<open>One tick of the rotation goroutine; \<open>cancelled\<close> is the state of its context.  A failed rotation keeps the pool.\<close>

definition pool_tick :: "bool \<Rightarrow> bytes option \<Rightarrow> secret_pool \<Rightarrow> secret_pool" where
  "pool_tick cancelled rnd p = (if cancelled \<or> pl_stop p \<noteq> Some False then p else snd (pool_Rotate rnd p))"

definition pool_Close :: "secret_pool \<Rightarrow> secret_pool" where
  "pool_Close p = (if pl_stop p = None then p else p\<lparr>pl_stop := Some True\<rparr>)"

definition pool_All :: "secret_pool \<Rightarrow> bytes list" where
  "pool_All p = (if pl_current p \<noteq> [] then [pl_current p] else []) @ (if pl_previous p \<noteq> [] then [pl_previous p] else [])"

subsection \<open>The server\<close>

definition DefaultMaxFutureSkew :: duration where "DefaultMaxFutureSkew = 5 * 60 * Second"

record cookie_server =
  cs_maxAge :: duration
  cs_maxFutureSkew :: duration

text \<open>The options, \<open>None\<close> when not given.\<close>

definition cookie_NewServer :: "duration option \<Rightarrow> duration option \<Rightarrow> cookie_server" where
  "cookie_NewServer age skew =
     \<lparr>cs_maxAge = (case age of None \<Rightarrow> 3600 * Second | Some d \<Rightarrow> if d > 0 then d else 3600 * Second),
      cs_maxFutureSkew = (case skew of None \<Rightarrow> DefaultMaxFutureSkew | Some d \<Rightarrow> if d > 0 then d else DefaultMaxFutureSkew)\<rparr>"

text \<open>\<^verbatim>\<open>netip.Addr.Unmap\<close>\<close>

fun Unmap :: "ipaddr \<Rightarrow> ipaddr" where
  "Unmap (Addr6 b z) = (if take 12 b = v4mapped then Addr4 (drop 12 b) else Addr6 b z)"
| "Unmap a = a"

fun cookieAddr :: "ipaddr \<Rightarrow> bytes" where
  "cookieAddr (Addr4 b) = b"
| "cookieAddr (Addr6 b z) = b"
| "cookieAddr ZeroAddr = []"

definition mintCookie :: "hmac_fn \<Rightarrow> bytes \<Rightarrow> bytes \<Rightarrow> ipaddr \<Rightarrow> gotime \<Rightarrow> bytes" where
  "mintCookie hm secret clientCookie addr ts =
     (let out8 = [1, 0, 0, 0] @ be32 (word_of_int (Unix ts)) in
      out8 @ take 8 (hm SHA256 secret (clientCookie @ out8 @ cookieAddr addr)))"

definition server_Make :: "hmac_fn \<Rightarrow> secret_pool \<Rightarrow> bytes \<Rightarrow> ipaddr \<Rightarrow> gotime \<Rightarrow> bytes" where
  "server_Make hm p clientCookie clientAddr ts = mintCookie hm (pl_current p) clientCookie (Unmap clientAddr) ts"

definition server_Validate ::
    "hmac_fn \<Rightarrow> cookie_server \<Rightarrow> secret_pool \<Rightarrow> bytes \<Rightarrow> bytes \<Rightarrow> ipaddr \<Rightarrow> gotime \<Rightarrow> cookie_error + gotime" where
  "server_Validate hm s p serverCookie clientCookie clientAddr now =
     (if length serverCookie \<noteq> 16 then Inl CookieMalformed
      else if serverCookie ! 0 \<noteq> 1 then Inl CookieMalformed
      else
        let ts = uint (rd32 (drop 4 serverCookie)) * Second;
            addr = Unmap clientAddr;
            matched = fold (\<lambda>sec ok. ok \<or> drop 8 (mintCookie hm sec clientCookie addr ts) = drop 8 serverCookie)
              (pool_All p) False
        in if \<not> matched then Inl CookieMismatch
           else if timeSub now ts > cs_maxAge s then Inl CookieExpired
           else if timeSub ts now > cs_maxFutureSkew s then Inl CookieExpired
           else Inr ts)"

subsection \<open>Minting and validation\<close>

lemma fold_or: "fold (\<lambda>x ok. ok \<or> f x) xs acc \<longleftrightarrow> acc \<or> (\<exists>x \<in> set xs. f x)"
  by (induction xs arbitrary: acc) auto

lemma length_mintCookie: "hmac_len hm \<Longrightarrow> length (mintCookie hm secret cc addr ts) = 16"
  by (simp add: mintCookie_def Let_def hmac_len_def)

lemma mintCookie_fields:
  "mintCookie hm secret cc addr ts ! 0 = 1"
  "rd32 (drop 4 (mintCookie hm secret cc addr ts)) = word_of_int (Unix ts)"
  by (simp_all add: mintCookie_def Let_def)

text \<open>Only the seconds of the time are hashed.\<close>

lemma mintCookie_seconds: "mintCookie hm secret cc addr (Unix ts * Second) = mintCookie hm secret cc addr ts"
  by (simp add: mintCookie_def Unix_def)

text \<open>The window of acceptance.\<close>

definition in_window :: "cookie_server \<Rightarrow> gotime \<Rightarrow> gotime \<Rightarrow> bool" where
  "in_window s ts now \<longleftrightarrow> timeSub now ts \<le> cs_maxAge s \<and> timeSub ts now \<le> cs_maxFutureSkew s"

lemma server_Validate_iff:
  "server_Validate hm s p sc cc a now = Inr ts \<longleftrightarrow>
     length sc = 16 \<and> sc ! 0 = 1 \<and> ts = uint (rd32 (drop 4 sc)) * Second \<and>
     (\<exists>sec \<in> set (pool_All p). drop 8 (mintCookie hm sec cc (Unmap a) ts) = drop 8 sc) \<and> in_window s ts now"
  by (auto simp: server_Validate_def Let_def fold_or in_window_def)

lemma mint_validates:
  assumes "hmac_len hm" "sec \<in> set (pool_All p)" "0 \<le> Unix ts" "Unix ts < 2 ^ 32" "in_window s (Unix ts * Second) now"
    "Unmap a = Unmap a'"
  shows "server_Validate hm s p (mintCookie hm sec cc (Unmap a) ts) cc a' now = Inr (Unix ts * Second)"
proof -
  have "uint (word_of_int (Unix ts) :: u32) = Unix ts"
    using assms(3,4) by (simp add: uint_word_of_int)
  then show ?thesis
    using assms by (auto simp: server_Validate_iff length_mintCookie mintCookie_fields mintCookie_seconds intro!: bexI [of _ sec])
qed

text \<open>The secret in use and the one before the last rotation are accepted.\<close>

lemma pool_All_current: "pl_current p \<noteq> [] \<Longrightarrow> pl_current p \<in> set (pool_All p)"
  by (simp add: pool_All_def)

lemma pool_Rotate_keeps:
  "pool_Rotate (Some fresh) p = (r, p') \<Longrightarrow> pl_current p \<noteq> [] \<Longrightarrow> pl_current p \<in> set (pool_All p')"
  by (auto simp: pool_Rotate_def pool_All_def)

lemma pool_tick_keeps: "pl_current p \<noteq> [] \<Longrightarrow> pl_current p \<in> set (pool_All (pool_tick cancelled rnd p))"
  by (auto simp: pool_tick_def pool_Rotate_def pool_All_def split: option.splits)

text \<open>After two rotations nothing of the old pool is accepted any more.\<close>

lemma pool_Rotate_twice:
  "set (pool_All (snd (pool_Rotate (Some f2) (snd (pool_Rotate (Some f1) p))))) \<subseteq> {f1, f2}"
  by (auto simp: pool_Rotate_def pool_All_def)

lemma pool_stopped:
  "pl_stop p \<noteq> None \<Longrightarrow> pool_tick cancelled rnd (pool_Close p) = pool_Close p"
  by (simp add: pool_tick_def pool_Close_def)

subsection \<open>The client's cache\<close>

definition entry_ok :: "clientEntry \<Rightarrow> bool" where
  "entry_ok e \<longleftrightarrow> length (ce_clientCookie e) = 8 \<and>
     (ce_serverCookie e = [] \<or> 8 \<le> length (ce_serverCookie e) \<and> length (ce_serverCookie e) \<le> 32) \<and>
     ce_badCookieStreak e \<le> maxBadCookieRetries"

definition client_inv :: "cookie_client \<Rightarrow> bool" where
  "client_inv c \<longleftrightarrow> distinct (map fst (cl_cache c)) \<and> (\<forall>e \<in> snd ` set (cl_cache c). entry_ok e) \<and>
     (cl_maxEntries c > 0 \<longrightarrow> int (length (cl_cache c)) \<le> cl_maxEntries c)"

lemma set_deleteKey: "set (deleteKey k es) \<subseteq> set es"
  by (auto simp: deleteKey_def)

lemma length_deleteKey_le: "length (deleteKey k es) \<le> length es"
  by (simp add: deleteKey_def)

lemma deleteKey_absent: "map_of es k = None \<Longrightarrow> deleteKey k es = es"
  unfolding deleteKey_def by (rule filter_True) (metis map_of_eq_None_iff image_eqI)

lemma map_of_setKey [simp]: "map_of (setKey k v es) k' = (if k' = k then Some v else map_of es k')"
  by (simp add: setKey_def map_of_deleteKey)

lemma distinct_setKey: "distinct (map fst es) \<Longrightarrow> distinct (map fst (setKey k v es))"
  using keys_deleteKey [of k es] by (simp add: setKey_def distinct_deleteKey)

lemma length_setKey: "map_of es k \<noteq> None \<Longrightarrow> length (setKey k v es) \<le> length es"
  using length_deleteKey [of k es] by (auto simp: setKey_def map_of_mem_iff)

lemma client_evict_delete:
  assumes "cl_cache c \<noteq> []"
  shows "\<exists>k \<in> fst ` set (cl_cache c). client_evictLocked c = c\<lparr>cl_cache := deleteKey k (cl_cache c)\<rparr>"
proof -
  let ?es = "map (\<lambda>(k, e). (k, ce_updated e)) (cl_cache c)"
  obtain k t where o: "oldest_loop None ?es = Some (k, t)"
    using assms oldest_loop_None [of None ?es] by (cases "oldest_loop None ?es") auto
  then have "k \<in> fst ` set (cl_cache c)" using oldest_loop_mem [OF o] by force
  with o show ?thesis by (auto simp: client_evictLocked_def)
qed

lemma client_makeRoom_inv:
  assumes "client_inv c"
  shows "client_inv (client_makeRoom c)" "cl_maxEntries (client_makeRoom c) = cl_maxEntries c"
    "set (cl_cache (client_makeRoom c)) \<subseteq> set (cl_cache c)"
    "cl_maxEntries c > 0 \<Longrightarrow> int (length (cl_cache (client_makeRoom c))) < cl_maxEntries c"
proof -
  let ?full = "cl_maxEntries c > 0 \<and> int (length (cl_cache c)) \<ge> cl_maxEntries c"
  have "client_inv (client_makeRoom c) \<and> cl_maxEntries (client_makeRoom c) = cl_maxEntries c \<and>
     set (cl_cache (client_makeRoom c)) \<subseteq> set (cl_cache c) \<and>
     (cl_maxEntries c > 0 \<longrightarrow> int (length (cl_cache (client_makeRoom c))) < cl_maxEntries c)"
  proof (cases ?full)
    case False
    then show ?thesis using assms by (auto simp: client_makeRoom_def)
  next
    case True
    then have "cl_cache c \<noteq> []" by auto
    from client_evict_delete [OF this] obtain k where k: "k \<in> fst ` set (cl_cache c)"
      and e: "client_evictLocked c = c\<lparr>cl_cache := deleteKey k (cl_cache c)\<rparr>" by blast
    have r: "client_makeRoom c = c\<lparr>cl_cache := deleteKey k (cl_cache c)\<rparr>"
      using True e by (simp add: client_makeRoom_def)
    have "length (deleteKey k (cl_cache c)) < length (cl_cache c)" using length_deleteKey [OF k] .
    then show ?thesis using assms set_deleteKey [of k "cl_cache c"]
      by (auto simp: r client_inv_def distinct_deleteKey)
  qed
  then show "client_inv (client_makeRoom c)" "cl_maxEntries (client_makeRoom c) = cl_maxEntries c"
    "set (cl_cache (client_makeRoom c)) \<subseteq> set (cl_cache c)"
    "cl_maxEntries c > 0 \<Longrightarrow> int (length (cl_cache (client_makeRoom c))) < cl_maxEntries c" by blast+
qed

text \<open>Storing an entry, with room made for a new key, keeps the invariant.\<close>

lemma client_store_inv:
  assumes "client_inv c" "entry_ok e" "c1 = (if map_of (cl_cache c) k = None then client_makeRoom c else c)"
  shows "client_inv (c1\<lparr>cl_cache := setKey k e (cl_cache c1)\<rparr>)"
proof -
  have c1: "client_inv c1" using client_makeRoom_inv(1) [OF assms(1)] assms(1,3) by simp
  have "cl_maxEntries c1 > 0 \<Longrightarrow> int (length (setKey k e (cl_cache c1))) \<le> cl_maxEntries c1"
  proof (cases "map_of (cl_cache c) k = None")
    case True
    assume "cl_maxEntries c1 > 0"
    then have "int (length (cl_cache c1)) < cl_maxEntries c1"
      using True assms(3) client_makeRoom_inv(2,4) [OF assms(1)] by simp
    then show ?thesis using length_deleteKey_le [of k "cl_cache c1"] by (simp add: setKey_def)
  next
    case False
    assume "cl_maxEntries c1 > 0"
    moreover have "length (setKey k e (cl_cache c1)) \<le> length (cl_cache c1)"
      using False assms(3) by (intro length_setKey) auto
    ultimately show ?thesis using c1 unfolding client_inv_def by linarith
  qed
  moreover have "\<forall>x \<in> snd ` set (setKey k e (cl_cache c1)). entry_ok x"
    using c1 assms(2) set_deleteKey [of k "cl_cache c1"] by (auto simp: client_inv_def setKey_def)
  ultimately show ?thesis using c1 by (simp add: client_inv_def distinct_setKey)
qed

lemma client_entry_ok: "client_inv c \<Longrightarrow> entry_ok (client_entry server c)"
  by (auto simp: client_entry_def client_inv_def entry_ok_def zeroEntry_def maxBadCookieRetries_def split: option.splits
      dest!: map_of_SomeD)

lemma extract_loop_length:
  "extract_loop opts = Some (cc, sc) \<Longrightarrow> length cc = 8 \<and> (sc = [] \<or> 8 \<le> length sc \<and> length sc \<le> 32)"
  by (induction opts) (auto split: if_splits option.splits dest: Cookies_length)

lemma extractCookie_length:
  "extractCookieFromMsg m = Some (cc, sc) \<Longrightarrow> length cc = 8 \<and> (sc = [] \<or> 8 \<le> length sc \<and> length sc \<le> 32)"
  by (auto simp: extractCookieFromMsg_def split: option.splits dest: extract_loop_length)

lemma client_Apply_inv:
  assumes "client_inv c" "\<And>cc. rnd = Some cc \<Longrightarrow> length cc = 8"
  shows "client_inv (snd (client_Apply server rnd now b c))"
proof (cases "map_of (cl_cache c) server")
  case None
  show ?thesis
  proof (cases rnd)
    case None
    then show ?thesis using assms(1) \<open>map_of (cl_cache c) server = None\<close> by (simp add: client_Apply_def client_inv_def)
  next
    case (Some cc)
    let ?e = "\<lparr>ce_clientCookie = cc, ce_serverCookie = [], ce_updated = now, ce_badCookieStreak = 0\<rparr>"
    have "entry_ok ?e" using assms(2) Some by (simp add: entry_ok_def maxBadCookieRetries_def)
    from client_store_inv [OF assms(1) this, of _ server] show ?thesis
      using None Some by (simp add: client_Apply_def Let_def)
  qed
next
  case (Some e0)
  have "entry_ok (e0\<lparr>ce_updated := now\<rparr>)"
    using client_entry_ok [OF assms(1), of server] Some by (simp add: client_entry_def entry_ok_def)
  from client_store_inv [OF assms(1) this, of _ server] Some show ?thesis by (simp add: client_Apply_def Let_def)
qed

lemma client_Observe_inv:
  assumes "client_inv c" shows "client_inv (client_Observe server resp now c)"
proof (cases "extractCookieFromMsg resp")
  case None
  then show ?thesis using assms by (simp add: client_Observe_def)
next
  case (Some cs)
  obtain cc sc where cs: "cs = (cc, sc)" by (cases cs)
  have "8 \<le> length sc \<Longrightarrow> entry_ok ((client_entry server c)\<lparr>ce_clientCookie := cc, ce_serverCookie := sc,
      ce_updated := now, ce_badCookieStreak := 0\<rparr>)"
    using extractCookie_length [of resp cc sc] Some cs by (simp add: entry_ok_def maxBadCookieRetries_def)
  with client_store_inv [OF assms _ refl, of _ server] show ?thesis
    using Some cs assms by (simp add: client_Observe_def Let_def not_less)
qed

lemma client_Retry_inv:
  assumes "client_inv c" shows "client_inv (snd (client_Retry server resp now c))"
proof (cases "extractCookieFromMsg resp")
  case None
  then show ?thesis using assms by (simp add: client_Retry_def)
next
  case (Some cs)
  obtain cc sc where cs: "cs = (cc, sc)" by (cases cs)
  let ?e = "client_entry server c"
  note store = client_store_inv [OF assms _ refl, of _ server]
  have e: "entry_ok ?e" using client_entry_ok [OF assms] .
  then have "entry_ok (?e\<lparr>ce_badCookieStreak := 0\<rparr>)" by (simp add: entry_ok_def maxBadCookieRetries_def)
  moreover have "8 \<le> length sc \<Longrightarrow> \<not> maxBadCookieRetries \<le> ce_badCookieStreak ?e \<Longrightarrow>
      entry_ok (?e\<lparr>ce_clientCookie := cc, ce_serverCookie := sc, ce_updated := now,
        ce_badCookieStreak := ce_badCookieStreak ?e + 1\<rparr>)"
    using extractCookie_length [of resp cc sc] Some cs by (simp add: entry_ok_def maxBadCookieRetries_def word_less_1 not_le)
  ultimately show ?thesis
    using store Some cs assms by (simp add: client_Retry_def Let_def not_less)
qed

text \<open>What a query carries after the server's cookie was learned.\<close>

lemma cookieOption_learned:
  "8 \<le> length sc \<Longrightarrow> length sc \<le> 32 \<Longrightarrow>
   cookieOption cc sc b = ednsOptionAdd (EDNSOption EDNSOptionCookie (cc @ sc)) b"
  by (simp add: cookieOption_def NewClientServerCookie_def)

lemma client_Apply_known:
  assumes "map_of (cl_cache c) server = Some e" "8 \<le> length (ce_serverCookie e)" "length (ce_serverCookie e) \<le> 32"
  shows "fst (client_Apply server rnd now b c) =
    ednsOptionAdd (EDNSOption EDNSOptionCookie (ce_clientCookie e @ ce_serverCookie e)) b"
  using assms by (simp add: client_Apply_def Let_def cookieOption_learned)

lemma client_Observe_stored:
  assumes "extractCookieFromMsg resp = Some (cc, sc)" "8 \<le> length sc"
  shows "\<exists>e. map_of (cl_cache (client_Observe server resp now c)) server = Some e \<and>
    ce_clientCookie e = cc \<and> ce_serverCookie e = sc \<and> ce_badCookieStreak e = 0"
  using assms by (simp add: client_Observe_def Let_def)

lemma client_Retry_True:
  "fst (client_Retry server resp now c) = Inr True \<longleftrightarrow>
     combinedRCODE resp = BADCOOKIE \<and> (\<exists>cc sc. extractCookieFromMsg resp = Some (cc, sc) \<and> 8 \<le> length sc) \<and>
     ce_badCookieStreak (client_entry server c) < maxBadCookieRetries"
  by (auto simp: client_Retry_def Let_def split: option.splits)

lemma client_Retry_stored:
  assumes "client_Retry server resp now c = (Inr True, c')" "client_inv c"
  shows "\<exists>e cc sc. map_of (cl_cache c') server = Some e \<and> extractCookieFromMsg resp = Some (cc, sc) \<and>
    8 \<le> length sc \<and> ce_clientCookie e = cc \<and> ce_serverCookie e = sc \<and> ce_badCookieStreak e = maxBadCookieRetries"
proof -
  have t: "fst (client_Retry server resp now c) = Inr True" using assms(1) by simp
  then obtain cc sc where x: "combinedRCODE resp = BADCOOKIE" "extractCookieFromMsg resp = Some (cc, sc)" "8 \<le> length sc"
    "ce_badCookieStreak (client_entry server c) < maxBadCookieRetries" using client_Retry_True by blast
  then have "ce_badCookieStreak (client_entry server c) = 0" by (simp add: maxBadCookieRetries_def word_less_1)
  with x assms(1) show ?thesis by (auto simp: client_Retry_def Let_def maxBadCookieRetries_def)
qed

text \<open>A second BADCOOKIE in a row ends the retries and resets the count.\<close>

lemma client_Retry_exhausted:
  assumes "map_of (cl_cache c) server = Some e" "ce_badCookieStreak e = maxBadCookieRetries"
    "combinedRCODE resp = BADCOOKIE" "extractCookieFromMsg resp = Some (cc, sc)" "8 \<le> length sc"
  shows "client_Retry server resp now c =
    (Inl CookieRetryExhausted, c\<lparr>cl_cache := setKey server (e\<lparr>ce_badCookieStreak := 0\<rparr>) (cl_cache c)\<rparr>)"
  using assms by (simp add: client_Retry_def client_entry_def Let_def)

text \<open>The client cookie of a response is stored without being compared with the one that was sent.\<close>

lemma client_Observe_foreign_cookie:
  assumes "map_of (cl_cache c) server = Some e" "extractCookieFromMsg resp = Some (cc, sc)" "8 \<le> length sc"
    "cc \<noteq> ce_clientCookie e"
  shows "ce_clientCookie (client_entry server (client_Observe server resp now c)) = cc"
  using assms by (simp add: client_Observe_def client_entry_def Let_def)

text \<open>Without an OPT record the combined code is the code of the header.\<close>

lemma combinedRCODE_no_edns: "m_edns msg = None \<Longrightarrow> combinedRCODE msg = ucast (RcodeOf (m_flags msg))"
  by (simp add: combinedRCODE_def Let_def)

end
