(* ===== verification/Middleware.thy ===== *)
theory Middleware
  imports Dns_Cookies
begin

text \<open>
  The handler framework (\<^verbatim>\<open>server.go\<close>) and its access control and cookie layers (\<^verbatim>\<open>middleware_acl.go\<close>,
  \<^verbatim>\<open>middleware_cookies.go\<close>).  A handler is a function of the request and of its own state to the messages it writes, in
  order, and the next state; a layer is a function of handlers.  The clock is read once per request.
\<close>

record request =
  rq_remote :: addrport
  rq_network :: string
  rq_now :: gotime

type_synonym 's handler = "request \<Rightarrow> message \<Rightarrow> 's \<Rightarrow> message list \<times> 's"

definition RCODEServFail :: u8 where "RCODEServFail = 2"
definition RCODENXDomain :: u8 where "RCODENXDomain = 3"
definition RCODERefused :: u8 where "RCODERefused = 5"

definition echoOPT :: "message \<Rightarrow> builder \<Rightarrow> builder" where
  "echoOPT q b =
     (case m_edns q of
        None \<Rightarrow> b
      | Some qe \<Rightarrow>
          case fst (ednsBuild (NewEDNSBuilder\<lparr>e_udpSize := 1232, e_do := e_do qe\<rparr>)) of
            Inl _ \<Rightarrow> b
          | Inr ed \<Rightarrow> bEDNS ed b)"

text \<open>The chain \<^verbatim>\<open>ID(q.ID()).Response(true).RecursionDesired(q.RD).RCODE(rc)\<close> and the echo of the first question.\<close>

definition replyHead :: "message \<Rightarrow> u8 \<Rightarrow> builder" where
  "replyHead q rc =
     bFlags (\<lambda>f. WithRCODE f rc) (bFlags (\<lambda>f. WithRecursionDesired f (RecursionDesired (m_flags q)))
       (bFlags (\<lambda>f. WithResponse f True) (bID (m_id q) NewMessageBuilder)))"

definition echoQuestion :: "question list \<Rightarrow> builder \<Rightarrow> builder" where
  "echoQuestion qs b = (case qs of [] \<Rightarrow> b | q # _ \<Rightarrow> bQuestion q b)"

definition writeRefused :: "message \<Rightarrow> message list" where
  "writeRefused q =
     (case fst (Build (echoOPT q (echoQuestion (m_questions q) (replyHead q RCODERefused)))) of
        Inr resp \<Rightarrow> [resp]
      | Inl _ \<Rightarrow>
          (case fst (Build (bFlags (\<lambda>f. WithRCODE f RCODEServFail) (bFlags (\<lambda>f. WithResponse f True)
             (bID (m_id q) NewMessageBuilder)))) of
             Inr fb \<Rightarrow> [fb]
           | Inl _ \<Rightarrow> []))"

subsection \<open>Access control\<close>

text \<open>\<^verbatim>\<open>netip.Prefix.Contains\<close>\<close>

definition Contains :: "ipprefix \<Rightarrow> ipaddr \<Rightarrow> bool" where
  "Contains p a \<longleftrightarrow> prefixIsValid p \<and>
     (case (prefix_addr p, a) of
        (Addr4 b, Addr4 c) \<Rightarrow> maskBytes (nat (prefix_bits p)) b = maskBytes (nat (prefix_bits p)) c
      | (Addr6 b _, Addr6 c z) \<Rightarrow> z = [] \<and> maskBytes (nat (prefix_bits p)) b = maskBytes (nat (prefix_bits p)) c
      | _ \<Rightarrow> False)"

record acl =
  acl_allow :: "ipprefix list"
  acl_deny :: "ipprefix list"
  acl_dropDenied :: bool

datatype mw_error = ErrACLNoRules | ErrNilCookieServer | ErrPublicACLRequired | ErrPublicCookiesServerRequired

datatype acl_option = ACLAllow "ipprefix list" | ACLDeny "ipprefix list" | ACLDropDenied bool

fun acl_apply :: "acl_option \<Rightarrow> acl \<Rightarrow> acl" where
  "acl_apply (ACLAllow ps) c = c\<lparr>acl_allow := acl_allow c @ ps\<rparr>"
| "acl_apply (ACLDeny ps) c = c\<lparr>acl_deny := acl_deny c @ ps\<rparr>"
| "acl_apply (ACLDropDenied d) c = c\<lparr>acl_dropDenied := d\<rparr>"

definition NewACL :: "acl_option list \<Rightarrow> mw_error + acl" where
  "NewACL opts =
     (let c = fold acl_apply opts \<lparr>acl_allow = [], acl_deny = [], acl_dropDenied = True\<rparr> in
      if length (acl_allow c) = 0 \<and> length (acl_deny c) = 0 then Inl ErrACLNoRules else Inr c)"

fun containsAny :: "ipprefix list \<Rightarrow> ipaddr \<Rightarrow> bool" where
  "containsAny [] src = False"
| "containsAny (p # ps) src = (if Contains p src then True else containsAny ps src)"

definition permit :: "acl \<Rightarrow> ipaddr \<Rightarrow> bool" where
  "permit a src =
     (if containsAny (acl_deny a) src then False
      else if length (acl_allow a) = 0 then True
      else containsAny (acl_allow a) src)"

definition acl_ServeDNS :: "acl \<Rightarrow> 's handler \<Rightarrow> 's handler" where
  "acl_ServeDNS a inner req q s =
     (let src = Unmap (fst (rq_remote req)) in
      if \<not> permit a src then
        if acl_dropDenied a then ([], s) else (writeRefused q, s)
      else inner req q s)"

subsection \<open>Cookies\<close>

record cookiesMW =
  mw_requireForLarge :: bool
  mw_largeRespMaxSize :: int

datatype cookie_option = RequireCookieForLarge bool | RequireCookieMaxBytes int

fun cookie_apply :: "cookie_option \<Rightarrow> cookiesMW \<Rightarrow> cookiesMW" where
  "cookie_apply (RequireCookieForLarge b) c = c\<lparr>mw_requireForLarge := b\<rparr>"
| "cookie_apply (RequireCookieMaxBytes v) c = (if v > 0 then c\<lparr>mw_largeRespMaxSize := v\<rparr> else c)"

definition NewCookies :: "bool \<Rightarrow> cookie_option list \<Rightarrow> mw_error + cookiesMW" where
  "NewCookies srvNil opts =
     (if srvNil then Inl ErrNilCookieServer
      else Inr (fold cookie_apply opts \<lparr>mw_requireForLarge = True, mw_largeRespMaxSize = 1232\<rparr>))"

definition isUDPNetwork :: "string \<Rightarrow> bool" where
  "isUDPNetwork net \<longleftrightarrow> net = ''udp'' \<or> net = ''dnscrypt''"

text \<open>The loop counts the cookie options and gives up at the second one.\<close>

fun extractCookies_loop :: "nat \<Rightarrow> (bytes \<times> bytes) option \<Rightarrow> ednsOption list \<Rightarrow> (bytes \<times> bytes) option" where
  "extractCookies_loop n found [] = (if n = 1 then found else None)"
| "extractCookies_loop n found (opt # opts) =
     (if opt_code opt \<noteq> EDNSOptionCookie then extractCookies_loop n found opts
      else if n + 1 > 1 then None
      else extractCookies_loop (n + 1) (Cookies opt) opts)"

definition extractCookies :: "message \<Rightarrow> (bytes \<times> bytes) option" where
  "extractCookies q = (case m_edns q of None \<Rightarrow> None | Some e \<Rightarrow> extractCookies_loop 0 None (e_opts e))"

text \<open>The fallback of the error branches: a bare SERVFAIL.\<close>

definition servFail :: message where
  "servFail = (case fst (Build (bFlags (\<lambda>f. WithRCODE f RCODEServFail) (bFlags (\<lambda>f. WithResponse f True) NewMessageBuilder))) of
     Inr m \<Rightarrow> m | Inl _ \<Rightarrow> emptyMessage)"

definition buildBadCookieResponse :: "message \<Rightarrow> bytes \<Rightarrow> bytes \<Rightarrow> message" where
  "buildBadCookieResponse q cc sc =
     (let cookieOpt = (case NewClientServerCookie cc sc of Inr opt \<Rightarrow> opt | Inl _ \<Rightarrow> EDNSOption 0 []);
          udpSize = (case m_edns q of Some e \<Rightarrow> if e_udpSize e \<noteq> 0 then e_udpSize e else 1232 | None \<Rightarrow> 1232);
          eb = ednsOptionAdd cookieOpt (NewEDNSBuilder\<lparr>e_udpSize := udpSize, e_extRCODE := drop_bit 4 23\<rparr>)
      in case fst (ednsBuild eb) of
           Inl _ \<Rightarrow> servFail
         | Inr ed \<Rightarrow>
             case fst (Build (echoQuestion (m_questions q) (bEDNS ed (replyHead q (23 AND 0x0f))))) of
               Inl _ \<Rightarrow> servFail
             | Inr out \<Rightarrow> out)"

definition attachCookieOption :: "message \<Rightarrow> bytes \<Rightarrow> bytes \<Rightarrow> message" where
  "attachCookieOption m cc sc =
     (case NewClientServerCookie cc sc of
        Inl _ \<Rightarrow> m
      | Inr cookieOpt \<Rightarrow>
          let eb = (case m_edns m of
                      Some e \<Rightarrow> fold ednsOptionAdd (filter (\<lambda>opt. opt_code opt \<noteq> EDNSOptionCookie) (e_opts e))
                        (NewEDNSBuilder\<lparr>e_udpSize := e_udpSize e, e_version := e_version e, e_extRCODE := e_extRCODE e,
                           e_do := e_do e\<rparr>)
                    | None \<Rightarrow> NewEDNSBuilder\<lparr>e_udpSize := 1232\<rparr>)
          in case fst (ednsBuild (ednsOptionAdd cookieOpt eb)) of
               Inl _ \<Rightarrow> m
             | Inr ed \<Rightarrow>
                 let b0 = bEDNS ed (bFlags (\<lambda>_. m_flags m) (bID (m_id m) NewMessageBuilder));
                     b1 = fold bAdditional (m_additionals m) (fold bAuthority (m_authorities m)
                       (fold bAnswer (m_answers m) (fold bQuestion (m_questions m) b0)))
                 in case fst (Build b1) of Inl _ \<Rightarrow> m | Inr out \<Rightarrow> out)"

text \<open>
  The truncated stub; \<^verbatim>\<open>truncateForCookieGate\<close> and \<^verbatim>\<open>truncateForRRL\<close> have the same body.
\<close>

definition truncateForCookieGate :: "message \<Rightarrow> message \<Rightarrow> message" where
  "truncateForCookieGate m q =
     (let b0 = bFlags (\<lambda>_. WithAuthenticData (WithAuthoritative (WithResponse (WithTruncated (m_flags m) True) True) False) False)
                 (bID (m_id m) NewMessageBuilder);
          b1 = (case m_questions m of
                  q0 # _ \<Rightarrow> bQuestion q0 b0
                | [] \<Rightarrow> (case m_questions q of q0 # _ \<Rightarrow> bQuestion q0 b0 | [] \<Rightarrow> b0));
          b2 = (case m_edns m of Some e \<Rightarrow> bEDNS e b1 | None \<Rightarrow> b1)
      in case fst (Build b2) of Inl _ \<Rightarrow> m | Inr out \<Rightarrow> out)"

text \<open>The writers change the first message and pass the others on.\<close>

fun wrapFirst :: "(message \<Rightarrow> message) \<Rightarrow> message list \<Rightarrow> message list" where
  "wrapFirst f [] = []"
| "wrapFirst f (m # ms) = f m # ms"

definition sizeGate :: "int \<Rightarrow> message \<Rightarrow> message \<Rightarrow> message" where
  "sizeGate maxBytes q m =
     (case PackMsg m of
        Inr buf \<Rightarrow> if int (length buf) \<le> maxBytes then m else truncateForCookieGate m q
      | Inl _ \<Rightarrow> truncateForCookieGate m q)"

definition cookies_ServeDNS :: "hmac_fn \<Rightarrow> cookie_server \<Rightarrow> secret_pool \<Rightarrow> cookiesMW \<Rightarrow> 's handler \<Rightarrow> 's handler" where
  "cookies_ServeDNS hm srv pool mw inner req q s =
     (let udp = isUDPNetwork (rq_network req) in
      case extractCookies q of
        Some (cc, sc) \<Rightarrow>
          let addr = fst (rq_remote req); now = rq_now req; fresh = server_Make hm pool cc addr now in
          if length sc \<ge> 8 \<and> (case server_Validate hm srv pool sc cc addr now of Inl _ \<Rightarrow> True | Inr _ \<Rightarrow> False) then
            ([buildBadCookieResponse q cc fresh], s)
          else
            let hasValidCookie = (length sc \<ge> 8);
                (out, s') = inner req q s;
                gated = (if mw_requireForLarge mw \<and> \<not> hasValidCookie \<and> udp
                         then wrapFirst (sizeGate (mw_largeRespMaxSize mw) q) out else out)
            in (wrapFirst (\<lambda>m. attachCookieOption m cc fresh) gated, s')
      | None \<Rightarrow>
          let (out, s') = inner req q s in
          (if mw_requireForLarge mw \<and> udp then wrapFirst (sizeGate (mw_largeRespMaxSize mw) q) out else out, s'))"

subsection \<open>Refusals and access control\<close>

lemma ednsBuild_distinct: "distinct (map opt_code (e_opts b)) \<Longrightarrow> fst (ednsBuild b) = Inr b"
  by (simp add: ednsBuild_def dupCode_iff)

lemmas builder_defs = NewMessageBuilder_def emptyMessage_def bID_def bFlags_def bQuestion_def bEDNS_def Build_def

lemma replyHead_eq:
  "replyHead q rc = \<lparr>b_msg = emptyMessage\<lparr>m_id := m_id q,
     m_flags := WithRCODE (WithRecursionDesired (WithResponse 0 True) (RecursionDesired (m_flags q))) rc\<rparr>, b_err = None\<rparr>"
  by (simp add: replyHead_def builder_defs)

lemma writeRefused_eq:
  "writeRefused q = [\<lparr>m_id = m_id q,
     m_flags = WithRCODE (WithRecursionDesired (WithResponse 0 True) (RecursionDesired (m_flags q))) RCODERefused,
     m_questions = take 1 (m_questions q), m_answers = [], m_authorities = [], m_additionals = [],
     m_edns = map_option (\<lambda>e. NewEDNSBuilder\<lparr>e_do := e_do e\<rparr>) (m_edns q)\<rparr>]"
  by (cases "m_questions q"; cases "m_edns q")
    (simp_all add: writeRefused_def replyHead_eq echoQuestion_def echoOPT_def ednsBuild_distinct builder_defs NewEDNSBuilder_def
      ednsBuild_def)

lemma containsAny_iff: "containsAny ps a \<longleftrightarrow> (\<exists>p \<in> set ps. Contains p a)"
  by (induction ps) auto

lemma permit_iff:
  "permit a src \<longleftrightarrow> (\<forall>p \<in> set (acl_deny a). \<not> Contains p src) \<and>
     (acl_allow a = [] \<or> (\<exists>p \<in> set (acl_allow a). Contains p src))"
  by (auto simp: permit_def containsAny_iff)

lemma fold_acl_apply:
  "acl_allow (fold acl_apply opts c) = acl_allow c @ concat (map (\<lambda>opt. case opt of ACLAllow ps \<Rightarrow> ps | _ \<Rightarrow> []) opts)"
  "acl_deny (fold acl_apply opts c) = acl_deny c @ concat (map (\<lambda>opt. case opt of ACLDeny ps \<Rightarrow> ps | _ \<Rightarrow> []) opts)"
  by (induction opts arbitrary: c) (auto split: acl_option.split)

lemma acl_denied:
  assumes "\<not> permit a (Unmap (fst (rq_remote req)))"
  shows "acl_ServeDNS a inner req q s = (if acl_dropDenied a then [] else writeRefused q, s)"
  using assms by (simp add: acl_ServeDNS_def)

lemma acl_permitted:
  assumes "permit a (Unmap (fst (rq_remote req)))"
  shows "acl_ServeDNS a inner req q s = inner req q s"
  using assms by (simp add: acl_ServeDNS_def)

subsection \<open>The cookie layer\<close>

lemma extractCookies_loop_eq:
  "extractCookies_loop n found opts =
     (let cs = filter (\<lambda>opt. opt_code opt = EDNSOptionCookie) opts in
      if n = 0 then (case cs of [c] \<Rightarrow> Cookies c | _ \<Rightarrow> None)
      else if cs = [] \<and> n = 1 then found else None)"
proof (induction n found opts rule: extractCookies_loop.induct)
  case (2 n found opt opts)
  then show ?case by (cases "filter (\<lambda>opt. opt_code opt = EDNSOptionCookie) opts") (auto simp: Let_def)
qed (simp add: Let_def)

lemma extractCookies_iff:
  "extractCookies q = Some cs \<longleftrightarrow>
     (\<exists>e c. m_edns q = Some e \<and> filter (\<lambda>opt. opt_code opt = EDNSOptionCookie) (e_opts e) = [c] \<and> Cookies c = Some cs)"
  by (auto simp: extractCookies_def extractCookies_loop_eq Let_def split: option.splits list.splits)

lemma extractCookies_length:
  "extractCookies q = Some (cc, sc) \<Longrightarrow> length cc = 8 \<and> (sc = [] \<or> 8 \<le> length sc \<and> length sc \<le> 32)"
  by (auto simp: extractCookies_iff dest: Cookies_length)

text \<open>The BADCOOKIE response, and what the client reads from it.\<close>

lemma badCookie_eq:
  assumes "8 \<le> length sc" "length sc \<le> 32"
  shows "buildBadCookieResponse q cc sc = \<lparr>m_id = m_id q,
     m_flags = WithRCODE (WithRecursionDesired (WithResponse 0 True) (RecursionDesired (m_flags q))) 7,
     m_questions = take 1 (m_questions q), m_answers = [], m_authorities = [], m_additionals = [],
     m_edns = Some \<lparr>e_udpSize = (case m_edns q of Some e \<Rightarrow> if e_udpSize e \<noteq> 0 then e_udpSize e else 1232 | None \<Rightarrow> 1232),
       e_extRCODE = 1, e_version = 0, e_do = False, e_opts = [EDNSOption EDNSOptionCookie (cc @ sc)]\<rparr>\<rparr>"
proof -
  have "(23 AND 0x0f :: u8) = 7" "drop_bit 4 (23 :: u8) = 1" by (simp_all add: drop_bit_eq_div)
  then show ?thesis using assms
    by (cases "m_questions q")
      (simp_all add: buildBadCookieResponse_def NewClientServerCookie_def replyHead_eq echoQuestion_def ednsBuild_def
        ednsOptionAdd_def NewEDNSBuilder_def builder_defs)
qed

lemma badCookie_read:
  assumes "length cc = 8" "8 \<le> length sc" "length sc \<le> 32"
  shows "combinedRCODE (buildBadCookieResponse q cc sc) = BADCOOKIE"
    "extractCookieFromMsg (buildBadCookieResponse q cc sc) = Some (cc, sc)"
proof -
  have "ucast (RcodeOf (WithRCODE f 7)) AND 0x0f = (7 :: u16)" for f
  proof (rule bit_word_eqI)
    fix i assume "i < LENGTH(16)"
    have m: "(0x0f :: u16) = mask 4" "(7 :: u16) = mask 3" "(7 :: u8) = mask 3" by (simp_all add: mask_eq_exp_minus_1)
    show "bit (ucast (RcodeOf (WithRCODE f 7)) AND 0x0f :: u16) i = bit (7 :: u16) i"
      unfolding m by (auto simp: bit_and_iff bit_mask_iff bit_RcodeOf bit_WithRCODE bit_ucast_iff simp del: mask_numeral)
  qed
  moreover have "(push_bit 4 (ucast (1 :: u8)) :: u16) OR 7 = 23" by (simp add: push_bit_eq_mult)
  ultimately show "combinedRCODE (buildBadCookieResponse q cc sc) = BADCOOKIE"
    using assms by (simp add: badCookie_eq combinedRCODE_def Let_def BADCOOKIE_def)
  show "extractCookieFromMsg (buildBadCookieResponse q cc sc) = Some (cc, sc)"
    using assms by (simp add: badCookie_eq extractCookieFromMsg_def Cookies_def Let_def)
qed

text \<open>A rejected cookie is answered without the handler behind the layer.\<close>

lemma cookies_rejected:
  assumes "extractCookies q = Some (cc, sc)" "8 \<le> length sc"
    "server_Validate hm srv pool sc cc (fst (rq_remote req)) (rq_now req) = Inl e"
  shows "cookies_ServeDNS hm srv pool mw inner req q s =
    ([buildBadCookieResponse q cc (server_Make hm pool cc (fst (rq_remote req)) (rq_now req))], s)"
  using assms by (simp add: cookies_ServeDNS_def Let_def)

text \<open>An accepted one is passed on, without the size gate, and the response carries a fresh cookie.\<close>

lemma cookies_accepted:
  assumes "extractCookies q = Some (cc, sc)" "8 \<le> length sc"
    "server_Validate hm srv pool sc cc (fst (rq_remote req)) (rq_now req) = Inr ts"
  shows "cookies_ServeDNS hm srv pool mw inner req q s =
    (wrapFirst (\<lambda>m. attachCookieOption m cc (server_Make hm pool cc (fst (rq_remote req)) (rq_now req))) (fst (inner req q s)),
     snd (inner req q s))"
  using assms by (simp add: cookies_ServeDNS_def Let_def case_prod_unfold)

text \<open>Without a server cookie the layer gates the response on datagram transports.\<close>

lemma cookies_unvalidated:
  assumes "mw_requireForLarge mw" "isUDPNetwork (rq_network req)"
    "extractCookies q = None \<or> extractCookies q = Some (cc, [])"
  shows "\<exists>f. cookies_ServeDNS hm srv pool mw inner req q s =
      (wrapFirst (\<lambda>m. f (sizeGate (mw_largeRespMaxSize mw) q m)) (fst (inner req q s)), snd (inner req q s)) \<and>
    (f = id \<or> (\<exists>sc. f = (\<lambda>m. attachCookieOption m cc sc)))"
proof -
  have w: "wrapFirst f (wrapFirst g ms) = wrapFirst (\<lambda>m. f (g m)) ms" for f g ms by (cases ms) simp_all
  show ?thesis
  proof (cases "extractCookies q")
    case None
    then show ?thesis using assms(1,2) by (intro exI [of _ id]) (simp add: cookies_ServeDNS_def Let_def case_prod_unfold)
  next
    case (Some cs)
    then have "cs = (cc, [])" using assms(3) by simp
    then show ?thesis using assms(1,2) Some
      by (intro exI [of _ "\<lambda>m. attachCookieOption m cc (server_Make hm pool cc (fst (rq_remote req)) (rq_now req))"])
        (auto simp: cookies_ServeDNS_def Let_def case_prod_unfold w)
  qed
qed

lemma truncate_eq:
  "truncateForCookieGate m q = m\<lparr>m_flags := WithAuthenticData (WithAuthoritative (WithResponse (WithTruncated (m_flags m) True) True) False) False,
     m_questions := (if m_questions m = [] then take 1 (m_questions q) else take 1 (m_questions m)),
     m_answers := [], m_authorities := [], m_additionals := []\<rparr>"
  by (cases "m_questions m"; cases "m_questions q"; cases "m_edns m")
    (simp_all add: truncateForCookieGate_def builder_defs)

lemma sizeGate_cases:
  "(\<exists>buf. sizeGate k q m = m \<and> PackMsg m = Inr buf \<and> int (length buf) \<le> k) \<or>
   sizeGate k q m = truncateForCookieGate m q"
  by (auto simp: sizeGate_def split: sum.splits)

text \<open>The fresh cookie replaces the cookie option of the response and leaves the rest of the message alone.\<close>

definition withCookie :: "message \<Rightarrow> bytes \<Rightarrow> bytes \<Rightarrow> edns" where
  "withCookie m cc sc =
     (let e = (case m_edns m of Some e \<Rightarrow> e | None \<Rightarrow> NewEDNSBuilder) in
      e\<lparr>e_opts := filter (\<lambda>opt. opt_code opt \<noteq> EDNSOptionCookie) (e_opts e) @ [EDNSOption EDNSOptionCookie (cc @ sc)]\<rparr>)"

context section_adder
begin

lemma fold_nonzero: "list_all (\<lambda>r. \<not> IsZero r) rs \<Longrightarrow> fold add rs b = ext rs b"
  by (induction rs arbitrary: b) (simp_all add: add ext_ext ext_Nil)

end

lemma attachCookie_eq:
  assumes "8 \<le> length sc" "length sc \<le> 32" "no_zero m"
    "\<And>e. m_edns m = Some e \<Longrightarrow> distinct (map opt_code (e_opts e))"
  shows "attachCookieOption m cc sc = m\<lparr>m_edns := Some (withCookie m cc sc)\<rparr>"
proof -
  let ?eb = "case m_edns m of
      Some e \<Rightarrow> fold ednsOptionAdd (filter (\<lambda>opt. opt_code opt \<noteq> EDNSOptionCookie) (e_opts e))
        (NewEDNSBuilder\<lparr>e_udpSize := e_udpSize e, e_version := e_version e, e_extRCODE := e_extRCODE e, e_do := e_do e\<rparr>)
    | None \<Rightarrow> NewEDNSBuilder\<lparr>e_udpSize := 1232\<rparr>"
  have eb: "ednsOptionAdd (EDNSOption EDNSOptionCookie (cc @ sc)) ?eb = withCookie m cc sc"
    by (cases "m_edns m") (simp_all add: fold_ednsOptionAdd ednsOptionAdd_def withCookie_def NewEDNSBuilder_def)
  have "distinct (map opt_code (e_opts (withCookie m cc sc)))"
    using assms(4) by (cases "m_edns m") (auto simp: withCookie_def NewEDNSBuilder_def distinct_map_filter)
  then have "fst (ednsBuild (withCookie m cc sc)) = Inr (withCookie m cc sc)" by (rule ednsBuild_distinct)
  moreover have "list_all (\<lambda>r. \<not> IsZero r) (m_answers m)" "list_all (\<lambda>r. \<not> IsZero r) (m_authorities m)"
    "list_all (\<lambda>r. \<not> IsZero r) (m_additionals m)" using assms(3) by (simp_all add: no_zero_def)
  ultimately show ?thesis
    using assms(1,2) eb by (simp add: attachCookieOption_def NewClientServerCookie_def Let_def answers.fold_nonzero
        authorities.fold_nonzero additionals.fold_nonzero fold_bQuestion builder_defs)
qed

text \<open>
  A rejected client recovers in one round: it takes the BADCOOKIE response, and the query it then sends is accepted by the
  server as long as the new cookie is in its window, even when the secret was rotated once in between.
\<close>

lemma retry_query:
  assumes "client_Retry server (buildBadCookieResponse q cc fresh) t c = (Inr True, c')" "client_inv c"
    "length cc = 8" "8 \<le> length fresh" "length fresh \<le> 32"
  shows "fst (client_Apply server rnd t' b c') = ednsOptionAdd (EDNSOption EDNSOptionCookie (cc @ fresh)) b"
proof -
  from client_Retry_stored [OF assms(1,2)] obtain e where e: "map_of (cl_cache c') server = Some e"
    "ce_clientCookie e = cc" "ce_serverCookie e = fresh"
    using badCookie_read(2) [OF assms(3-5)] by auto
  with client_Apply_known [OF e(1)] assms(4,5) show ?thesis by simp
qed

lemma cookie_retry:
  assumes "hmac_len hm" "pl_current pool \<noteq> []" "extractCookies q = Some (cc, sc)"
    "client_Retry server (buildBadCookieResponse q cc (server_Make hm pool cc (fst (rq_remote req)) (rq_now req))) t c = (Inr True, c')"
    "client_inv c" "0 \<le> Unix (rq_now req)" "Unix (rq_now req) < 2 ^ 32"
    "pool' = pool \<or> pool' = pool_tick cancelled rnd pool"
    "Unmap (fst (rq_remote req)) = Unmap (fst (rq_remote req'))"
    "in_window srv (Unix (rq_now req) * Second) (rq_now req')"
    "m_edns q' = Some (fst (client_Apply server rnd' t' b c'))" "EDNSOptionCookie \<notin> opt_code ` set (e_opts b)"
  shows "snd (cookies_ServeDNS hm srv pool' mw inner req' q' s) = snd (inner req' q' s)"
    "\<exists>f. fst (cookies_ServeDNS hm srv pool' mw inner req' q' s) = wrapFirst f (fst (inner req' q' s))"
proof -
  define fresh where "fresh = server_Make hm pool cc (fst (rq_remote req)) (rq_now req)"
  have cc: "length cc = 8" using extractCookies_length [OF assms(3)] by blast
  have f: "length fresh = 16" using length_mintCookie [OF assms(1)] by (simp add: fresh_def server_Make_def)
  have e: "m_edns q' = Some (ednsOptionAdd (EDNSOption EDNSOptionCookie (cc @ fresh)) b)"
    using assms(11) retry_query [OF assms(4) [folded fresh_def] assms(5) cc] f by simp
  have "filter (\<lambda>opt. opt_code opt = EDNSOptionCookie) (e_opts b) = []"
    using assms(12) by (force simp: filter_empty_conv)
  then have x: "extractCookies q' = Some (cc, fresh)"
    using e cc f by (simp add: extractCookies_iff ednsOptionAdd_def Cookies_def Let_def)
  have "pl_current pool \<in> set (pool_All pool')"
    using assms(8) pool_All_current [OF assms(2)] pool_tick_keeps [OF assms(2)] by auto
  from mint_validates [OF assms(1) this assms(6,7,10,9)]
  have "server_Validate hm srv pool' fresh cc (fst (rq_remote req')) (rq_now req') = Inr (Unix (rq_now req) * Second)"
    by (simp add: fresh_def server_Make_def)
  from cookies_accepted [OF x _ this, of mw inner s] f
  show "snd (cookies_ServeDNS hm srv pool' mw inner req' q' s) = snd (inner req' q' s)"
    "\<exists>f. fst (cookies_ServeDNS hm srv pool' mw inner req' q' s) = wrapFirst f (fst (inner req' q' s))" by auto
qed

end
