(* ===== verification/Zone_Lookup.thy ===== *)
theory Zone_Lookup
  imports Middleware
begin

text \<open>
  The zones of the authoritative server and the search in them (\<^verbatim>\<open>authoritative/authoritative.go\<close>, the interface \<^verbatim>\<open>Zone\<close>
  of \<^verbatim>\<open>zonefile/zonefile.go\<close>).  The index of a zone is a Go map from the wire form of a name to its records.  The records
  of a zone hold a payload, as those of the zone file parser and of the decoder do; on the zero record the source panics.
\<close>

subsection \<open>Names and their ancestors\<close>

lemma Parent_shorter: "Parent n = Some p \<Longrightarrow> length (wire p) < length (wire n)"
  by (auto simp: Parent_def Let_def IsValid_def split: if_splits)

text \<open>The walk \<^verbatim>\<open>cur := n; cur, ok = cur.Parent()\<close> that the searches share.\<close>

function ancestors :: "wname \<Rightarrow> wname list" where
  "ancestors n = n # (case Parent n of None \<Rightarrow> [] | Some p \<Rightarrow> ancestors p)"
  by pat_completeness auto
termination by (relation "measure (\<lambda>n. length (wire n))") (auto dest: Parent_shorter)

declare ancestors.simps [simp del]

definition nameKey :: "wname \<Rightarrow> bytes" where
  "nameKey n = AppendWire n []"

fun inBailiwick_loop :: "wname \<Rightarrow> wname list \<Rightarrow> bool" where
  "inBailiwick_loop origin [] = False"
| "inBailiwick_loop origin (cur # rest) =
     (if \<not> IsValid cur then False
      else if NameEqual cur origin then True
      else case rest of [] \<Rightarrow> False | p # _ \<Rightarrow> if NameEqual cur p then False else inBailiwick_loop origin rest)"

definition inBailiwick :: "wname \<Rightarrow> wname \<Rightarrow> bool" where
  "inBailiwick origin n = inBailiwick_loop origin (ancestors n)"

subsection \<open>Zones\<close>

record zone =
  zn_origin :: wname
  zn_records :: "rr list"

text \<open>\<^verbatim>\<open>wire.RDataAs\<close> at the types the server asks for.\<close>

definition asSOA :: "rr \<Rightarrow> rdSOA option" where
  "asSOA r = (case rr_rd r of Some (RD_SOA s) \<Rightarrow> Some s | _ \<Rightarrow> None)"

definition asNS :: "rr \<Rightarrow> rdNS option" where
  "asNS r = (case rr_rd r of Some (RD_NS s) \<Rightarrow> Some s | _ \<Rightarrow> None)"

definition asCNAME :: "rr \<Rightarrow> rdCNAME option" where
  "asCNAME r = (case rr_rd r of Some (RD_CNAME s) \<Rightarrow> Some s | _ \<Rightarrow> None)"

definition asDNAME :: "rr \<Rightarrow> rdDNAME option" where
  "asDNAME r = (case rr_rd r of Some (RD_DNAME s) \<Rightarrow> Some s | _ \<Rightarrow> None)"

definition firstAs :: "(rr \<Rightarrow> 'a option) \<Rightarrow> rr list \<Rightarrow> (rr \<times> 'a) option" where
  "firstAs f rs = (case find (\<lambda>r. f r \<noteq> None) rs of None \<Rightarrow> None | Some r \<Rightarrow> Some (r, the (f r)))"

definition zoneSOA :: "zone \<Rightarrow> (rr \<times> rdSOA) option" where
  "zoneSOA z = firstAs asSOA (zn_records z)"

record zoneIndex =
  zi_origin :: wname
  zi_soaRec :: rr
  zi_byName :: "(bytes \<times> rr list) list"
  zi_namesExist :: "bytes set"

datatype auth_error = ErrNoSOA | ErrApexCNAMEOrDNAME

text \<open>The name and its ancestors up to and including the origin.\<close>

fun upTo :: "wname \<Rightarrow> wname list \<Rightarrow> wname list" where
  "upTo origin [] = []"
| "upTo origin (cur # rest) = cur # (if NameEqual cur origin then [] else upTo origin rest)"

definition pathKeys :: "wname \<Rightarrow> wname \<Rightarrow> bytes set" where
  "pathKeys origin n = nameKey ` set (upTo origin (ancestors n))"

definition recsAt :: "(bytes \<times> rr list) list \<Rightarrow> bytes \<Rightarrow> rr list" where
  "recsAt m k = (case map_of m k of None \<Rightarrow> [] | Some rs \<Rightarrow> rs)"

definition indexRecord :: "rr \<Rightarrow> zoneIndex \<Rightarrow> zoneIndex" where
  "indexRecord rec idx =
     (let k = nameKey (rr_name rec) in
      idx\<lparr>zi_byName := setKey k (recsAt (zi_byName idx) k @ [rec]) (zi_byName idx),
          zi_namesExist := zi_namesExist idx \<union> pathKeys (zi_origin idx) (rr_name rec)\<rparr>)"

definition apexAlias :: "zone \<Rightarrow> rr \<Rightarrow> bool" where
  "apexAlias z rec \<longleftrightarrow> NameEqual (rr_name rec) (zn_origin z) \<and> (rrType rec = typeCNAME \<or> rrType rec = typeDNAME)"

definition AddZone :: "zone \<Rightarrow> (bytes \<times> zoneIndex) list \<Rightarrow> auth_error + (bytes \<times> zoneIndex) list" where
  "AddZone z zones =
     (case zoneSOA z of
        None \<Rightarrow> Inl ErrNoSOA
      | Some (soaRec, soa) \<Rightarrow>
          if \<exists>rec \<in> set (zn_records z). apexAlias z rec then Inl ErrApexCNAMEOrDNAME
          else
            let idx = fold indexRecord (zn_records z)
              \<lparr>zi_origin = zn_origin z, zi_soaRec = soaRec, zi_byName = [], zi_namesExist = {}\<rparr>
            in Inr (setKey (nameKey (zn_origin z)) idx zones))"

text \<open>The body of \<^verbatim>\<open>ReloadZone\<close> repeats that of \<^verbatim>\<open>AddZone\<close>.\<close>

definition ReloadZone :: "zone \<Rightarrow> (bytes \<times> zoneIndex) list \<Rightarrow> auth_error + (bytes \<times> zoneIndex) list" where
  "ReloadZone z zones = AddZone z zones"

definition Zones :: "(bytes \<times> zoneIndex) list \<Rightarrow> wname list" where
  "Zones zones = map (\<lambda>(k, z). zi_origin z) zones"

fun findZone_loop :: "(bytes \<times> zoneIndex) list \<Rightarrow> wname list \<Rightarrow> zoneIndex option" where
  "findZone_loop zones [] = None"
| "findZone_loop zones (cur # rest) =
     (case map_of zones (nameKey cur) of Some z \<Rightarrow> Some z | None \<Rightarrow> findZone_loop zones rest)"

definition findZone :: "(bytes \<times> zoneIndex) list \<Rightarrow> wname \<Rightarrow> zoneIndex option" where
  "findZone zones n = findZone_loop zones (ancestors n)"

subsection \<open>Delegations and glue\<close>

fun findDelegation_loop :: "zoneIndex \<Rightarrow> wname list \<Rightarrow> rr list" where
  "findDelegation_loop z [] = []"
| "findDelegation_loop z (cur # rest) =
     (if NameEqual cur (zi_origin z) then []
      else
        let ns = filter (\<lambda>r. rrType r = typeNS) (recsAt (zi_byName z) (nameKey cur)) in
        if length ns > 0 then ns else findDelegation_loop z rest)"

definition findDelegation :: "zoneIndex \<Rightarrow> wname \<Rightarrow> rr list" where
  "findDelegation z qname = findDelegation_loop z (ancestors qname)"

definition collectGlue :: "zoneIndex \<Rightarrow> rr list \<Rightarrow> rr list" where
  "collectGlue z nsRecs =
     concat (map (\<lambda>ns. case asNS ns of
         None \<Rightarrow> []
       | Some nsRD \<Rightarrow>
           filter (\<lambda>r. rrType r = typeA \<or> rrType r = typeAAAA) (recsAt (zi_byName z) (nameKey (NS_name nsRD)))) nsRecs)"

subsection \<open>The search\<close>

definition matchRRSet :: "rr list \<Rightarrow> u16 \<Rightarrow> rr list \<times> wname \<times> bool" where
  "matchRRSet recs qtype =
     (let matched = filter (\<lambda>r. rrType r = qtype) recs in
      if length matched > 0 then (matched, zeroName, True)
      else if qtype \<noteq> typeCNAME then
        case firstAs asCNAME recs of
          Some (r, c) \<Rightarrow> ([r], CNAME_target c, False)
        | None \<Rightarrow> ([], zeroName, True)
      else ([], zeroName, True))"

fun closestEncloser_loop :: "zoneIndex \<Rightarrow> wname list \<Rightarrow> wname option" where
  "closestEncloser_loop z [] = None"
| "closestEncloser_loop z (cur # rest) =
     (if nameKey cur \<in> zi_namesExist z then Some cur else closestEncloser_loop z rest)"

definition closestEncloser :: "zoneIndex \<Rightarrow> wname \<Rightarrow> wname option" where
  "closestEncloser z n = closestEncloser_loop z (tl (ancestors n))"

definition starLabel :: bytes where "starLabel = [0x2a]"

definition wildcardKey :: "wname \<Rightarrow> bytes" where
  "wildcardKey encloser =
     (if IsRoot encloser then
        (case FromLabels [starLabel] of Inr n \<Rightarrow> nameKey n | Inl _ \<Rightarrow> nameKey zeroName)
      else
        case FromLabels (starLabel # Labels encloser) of Inl _ \<Rightarrow> [] | Inr n \<Rightarrow> nameKey n)"

text \<open>\<^verbatim>\<open>NewRecordClass\<close> with the class, TTL and payload of the record.\<close>

definition rewriteOwners :: "rr list \<Rightarrow> wname \<Rightarrow> rr list" where
  "rewriteOwners recs owner = map (\<lambda>r. r\<lparr>rr_name := owner\<rparr>) recs"

definition labelEqualFold :: "bytes \<Rightarrow> bytes \<Rightarrow> bool" where
  "labelEqualFold a b \<longleftrightarrow> length a = length b \<and> map foldByte a = map foldByte b"

definition substituteSuffix :: "wname \<Rightarrow> wname \<Rightarrow> wname \<Rightarrow> wname option" where
  "substituteSuffix n owner target =
     (let nameLabels = Labels n; ownerLabels = Labels owner in
      if length nameLabels \<le> length ownerLabels then None
      else
        let prefixLen = length nameLabels - length ownerLabels in
        if \<not> list_all2 labelEqualFold (drop prefixLen nameLabels) ownerLabels then None
        else
          case FromLabels (take prefixLen nameLabels @ Labels target) of
            Inl _ \<Rightarrow> None
          | Inr out \<Rightarrow> Some out)"

fun findDNAME_loop :: "zoneIndex \<Rightarrow> wname \<Rightarrow> wname list \<Rightarrow> (rr \<times> wname) option" where
  "findDNAME_loop z qname [] = None"
| "findDNAME_loop z qname (cur # rest) =
     (case firstAs asDNAME (recsAt (zi_byName z) (nameKey cur)) of
        None \<Rightarrow> findDNAME_loop z qname rest
      | Some (r, d) \<Rightarrow>
          (case substituteSuffix qname cur (DNAME_target d) of None \<Rightarrow> None | Some synth \<Rightarrow> Some (r, synth)))"

definition findDNAMEAncestor :: "zoneIndex \<Rightarrow> wname \<Rightarrow> (rr \<times> wname) option" where
  "findDNAMEAncestor z qname = findDNAME_loop z qname (tl (ancestors qname))"

definition maxCNAMEChain :: nat where "maxCNAMEChain = 8"

definition RCODENoError :: u8 where "RCODENoError = 0"

text \<open>
  The loop over the chain: \<open>left\<close> iterations remain, \<open>chain\<close> of them are done.  Sections and code are the result; the error
  is the panic of the synthesis.
\<close>

fun lookup_loop ::
    "zoneIndex \<Rightarrow> u16 \<Rightarrow> nat \<Rightarrow> nat \<Rightarrow> wname \<Rightarrow> rr list \<Rightarrow> wire_error + rr list \<times> rr list \<times> u8" where
  "lookup_loop z qtype 0 chain current answer = Inr (answer, [], RCODEServFail)"
| "lookup_loop z qtype (Suc left) chain current answer =
     (let noData = (if chain = 0 then Inr ([], [zi_soaRec z], RCODENoError) else Inr (answer, [], RCODENoError)) in
      case map_of (zi_byName z) (nameKey current) of
        Some recs \<Rightarrow>
          (case matchRRSet recs qtype of (ans, follow, done) \<Rightarrow>
             if done then if length ans > 0 then Inr (answer @ ans, [], RCODENoError) else noData
             else lookup_loop z qtype left (Suc chain) follow (answer @ ans))
      | None \<Rightarrow>
          if nameKey current \<in> zi_namesExist z then noData
          else
            case findDNAMEAncestor z current of
              Some (dnameRR, synth) \<Rightarrow>
                (case NewCNAME synth of
                   Inl e \<Rightarrow> Inl (GoPanic ''authoritative: synth CNAME'')
                 | Inr cnameRD \<Rightarrow>
                     lookup_loop z qtype left (Suc chain) synth
                       (answer @ [dnameRR, NewRecord current (rr_ttl dnameRR) (RD_CNAME cnameRD)]))
            | None \<Rightarrow>
                let nxDomain = (if chain = 0 then Inr ([], [zi_soaRec z], RCODENXDomain) else Inr (answer, [], RCODENoError)) in
                case closestEncloser z current of
                  None \<Rightarrow> nxDomain
                | Some encloser \<Rightarrow>
                    (case map_of (zi_byName z) (wildcardKey encloser) of
                       None \<Rightarrow> nxDomain
                     | Some wcRecs \<Rightarrow>
                         (case matchRRSet wcRecs qtype of (ans0, follow, done) \<Rightarrow>
                            let ans = rewriteOwners ans0 current in
                            if done then if length ans > 0 then Inr (answer @ ans, [], RCODENoError) else noData
                            else lookup_loop z qtype left (Suc chain) follow (answer @ ans))))"

definition lookupAuthoritative :: "zoneIndex \<Rightarrow> wname \<Rightarrow> u16 \<Rightarrow> wire_error + rr list \<times> rr list \<times> u8" where
  "lookupAuthoritative z qname qtype = lookup_loop z qtype maxCNAMEChain 0 qname []"

record lookupResult =
  lr_answer :: "rr list"
  lr_authority :: "rr list"
  lr_additional :: "rr list"
  lr_rcode :: u8
  lr_aa :: bool

definition lookup :: "zoneIndex \<Rightarrow> wname \<Rightarrow> u16 \<Rightarrow> wire_error + lookupResult" where
  "lookup z qname qtype =
     (let nsRecs = findDelegation z qname in
      if length nsRecs > 0 then
        Inr \<lparr>lr_answer = [], lr_authority = nsRecs, lr_additional = collectGlue z nsRecs, lr_rcode = RCODENoError, lr_aa = False\<rparr>
      else
        ebind (lookupAuthoritative z qname qtype) (\<lambda>(ans, auth, rc).
          Inr \<lparr>lr_answer = ans, lr_authority = auth, lr_additional = [], lr_rcode = rc, lr_aa = True\<rparr>))"

subsection \<open>Ancestors\<close>

lemma Parent_Root: "Parent (Name [0]) = None"
  by (simp add: Parent_def IsRoot_def)

lemma ancestors_wire_of:
  "list_all label_ok ls \<Longrightarrow> ancestors (Name (wire_of ls)) = map (\<lambda>i. Name (wire_of (drop i ls))) [0..<Suc (length ls)]"
proof (induction ls)
  case Nil
  then show ?case by (subst ancestors.simps) (simp add: Parent_Root)
next
  case (Cons l ls)
  have "[0..<Suc (length (l # ls))] = 0 # map Suc [0..<Suc (length ls)]"
    by (simp add: map_Suc_upt upt_conv_Cons del: upt_Suc)
  with Cons show ?case
    by (subst ancestors.simps) (simp add: Parent_wire_of comp_def del: upt_Suc wire_of_Cons)
qed

lemma nameKey_wf: "wf_name n \<Longrightarrow> nameKey n = wire n"
  by (simp add: nameKey_def AppendWire_def wf_name_valid)

lemma wname_eqI: "wire n = wire m \<Longrightarrow> n = m"
  by (cases n; cases m) simp

lemma NameEqual_eq [simp]: "NameEqual n m \<longleftrightarrow> n = m"
  by (auto simp: NameEqual_def intro: wname_eqI)

text \<open>\<open>m\<close> is \<open>n\<close> or one of its ancestors.\<close>

definition at_or_below :: "wname \<Rightarrow> wname \<Rightarrow> bool" where
  "at_or_below n m \<longleftrightarrow> m \<in> set (ancestors n)"

lemma self_ancestor [simp]: "n \<in> set (ancestors n)"
  by (subst ancestors.simps) simp

lemma ancestors_iff: "m \<in> set (ancestors n) \<longleftrightarrow> m = n \<or> (\<exists>p. Parent n = Some p \<and> m \<in> set (ancestors p))"
  by (subst ancestors.simps) (auto split: option.splits)

lemma ancestor_shorter: "m \<in> set (ancestors n) \<Longrightarrow> length (wire m) < length (wire n) \<or> m = n"
proof (induction n rule: ancestors.induct)
  case (1 n)
  show ?case
  proof (cases "m = n")
    case False
    with 1(2) obtain p where p: "Parent n = Some p" "m \<in> set (ancestors p)" using ancestors_iff by blast
    from 1(1) [OF p] Parent_shorter [OF p(1)] show ?thesis by auto
  qed simp
qed

lemma ancestors_wf:
  assumes "wf_name n" "m \<in> set (ancestors n)"
  shows "wf_name m"
proof -
  from assms(1) obtain ls where n: "n = Name (wire_of ls)" "list_all label_ok ls" "length (wire_of ls) \<le> maxNameLen"
    by (auto elim: wf_nameE)
  have "\<exists>i. m = Name (wire_of (drop i ls))"
    using assms(2) unfolding n(1) ancestors_wire_of [OF n(2)] set_map by blast
  then obtain i where i: "m = Name (wire_of (drop i ls))" ..
  have "length (wire_of (drop i ls)) \<le> length (wire_of ls)"
    by (induction ls arbitrary: i) (auto simp: drop_Cons' split: if_splits intro: le_SucI trans_le_add2)
  with n i show ?thesis by (auto intro!: wf_nameI simp: list_all_length)
qed

lemma ancestors_trans:
  assumes "m \<in> set (ancestors n)" shows "set (ancestors m) \<subseteq> set (ancestors n)"
  using assms
proof (induction n rule: ancestors.induct)
  case (1 n)
  show ?case
  proof (cases "m = n")
    case False
    with 1(2) obtain p where p: "Parent n = Some p" "m \<in> set (ancestors p)" using ancestors_iff by blast
    with 1(1) have "set (ancestors m) \<subseteq> set (ancestors p)" by simp
    with p(1) show ?thesis using ancestors_iff by blast
  qed simp
qed

lemma at_or_below_trans: "at_or_below n m \<Longrightarrow> at_or_below m k \<Longrightarrow> at_or_below n k"
  unfolding at_or_below_def using ancestors_trans by blast

lemma Parent_wf: "wf_name n \<Longrightarrow> Parent n = Some p \<Longrightarrow> wf_name p"
  by (erule ancestors_wf) (subst ancestors_iff, simp)

text \<open>The searches over the list of ancestors.\<close>

lemma inBailiwick_iff:
  assumes "wf_name n" shows "inBailiwick origin n \<longleftrightarrow> at_or_below n origin"
  using assms
proof (induction n rule: ancestors.induct)
  case (1 n)
  show ?case
  proof (cases "Parent n")
    case None
    then show ?thesis using wf_name_valid [OF 1(2)]
      by (auto simp: inBailiwick_def at_or_below_def ancestors.simps [of n])
  next
    case (Some p)
    have "n \<noteq> p" using Parent_shorter [OF Some] by auto
    have a: "ancestors n = n # ancestors p" by (simp add: ancestors.simps [of n] Some)
    obtain rest where r: "ancestors p = p # rest" by (simp add: ancestors.simps [of p])
    have "inBailiwick origin p \<longleftrightarrow> at_or_below p origin" using 1(1) [OF Some Parent_wf [OF 1(2) Some]] .
    then show ?thesis using wf_name_valid [OF 1(2)] \<open>n \<noteq> p\<close>
      by (auto simp: inBailiwick_def at_or_below_def a r)
  qed
qed

lemma upTo_set:
  "m \<in> set (upTo origin cs) \<Longrightarrow> m \<in> set cs"
  by (induction cs) (auto split: if_splits)

lemma upTo_self: "upTo n (ancestors n) = [n]"
  by (subst ancestors.simps) simp

lemma upTo_Parent: "n \<noteq> origin \<Longrightarrow> Parent n = Some p \<Longrightarrow> upTo origin (ancestors n) = n # upTo origin (ancestors p)"
  by (subst ancestors.simps) simp

text \<open>A name on the path of \<open>n\<close> up to the origin is between the two.\<close>

lemma path_iff:
  assumes "at_or_below n origin"
  shows "m \<in> set (upTo origin (ancestors n)) \<longleftrightarrow> at_or_below n m \<and> at_or_below m origin"
  using assms
proof (induction n rule: ancestors.induct)
  case (1 n)
  show ?case
  proof (cases "n = origin")
    case True
    have "m = n" if "at_or_below n m" "at_or_below m n"
      using that ancestor_shorter [of m n] ancestor_shorter [of n m] by (auto simp: at_or_below_def)
    moreover have "at_or_below n n" by (simp add: at_or_below_def)
    ultimately show ?thesis unfolding True [symmetric] upTo_self by auto
  next
    case False
    then obtain p where p: "Parent n = Some p" "at_or_below p origin"
      using 1(2) ancestors_iff unfolding at_or_below_def by metis
    have "at_or_below n m \<longleftrightarrow> m = n \<or> at_or_below p m"
      using p(1) ancestors_iff [of m n] by (auto simp: at_or_below_def)
    then show ?thesis using 1(1) [OF p] 1(2) upTo_Parent [OF False p(1)] by auto
  qed
qed

lemma findZone_loop_append:
  "\<forall>c \<in> set pre. map_of zones (nameKey c) = None \<Longrightarrow> findZone_loop zones (pre @ cs) = findZone_loop zones cs"
  by (induction pre) simp_all

lemma findZone_loop_Some:
  "findZone_loop zones cs = Some z \<Longrightarrow>
     \<exists>pre cur post. cs = pre @ cur # post \<and> map_of zones (nameKey cur) = Some z \<and>
        (\<forall>c \<in> set pre. map_of zones (nameKey c) = None)"
proof (induction cs)
  case (Cons c cs)
  show ?case
  proof (cases "map_of zones (nameKey c)")
    case None
    with Cons obtain pre cur post where "cs = pre @ cur # post" "map_of zones (nameKey cur) = Some z"
      "\<forall>c \<in> set pre. map_of zones (nameKey c) = None" by auto
    with None show ?thesis by (intro exI [of _ "c # pre"] exI [of _ cur] exI [of _ post]) simp
  next
    case (Some z')
    with Cons.prems show ?thesis by (intro exI [of _ "[]"] exI [of _ c] exI [of _ cs]) simp
  qed
qed simp

subsection \<open>The index of a zone\<close>

definition zoneRecs :: "zoneIndex \<Rightarrow> rr set" where
  "zoneRecs z = \<Union> (set ` snd ` set (zi_byName z))"

definition zonePaths :: "zoneIndex \<Rightarrow> bytes set" where
  "zonePaths z = (\<Union>r \<in> zoneRecs z. pathKeys (zi_origin z) (rr_name r))"

text \<open>Every name lies in the zone.\<close>

definition in_zone :: "wname \<Rightarrow> wname \<Rightarrow> bool" where
  "in_zone origin n \<longleftrightarrow> wf_name n \<and> at_or_below n origin"

definition zone_inv :: "zoneIndex \<Rightarrow> bool" where
  "zone_inv z \<longleftrightarrow> wf_name (zi_origin z) \<and> distinct (map fst (zi_byName z)) \<and>
     (\<forall>(k, rs) \<in> set (zi_byName z). rs \<noteq> [] \<and> (\<forall>r \<in> set rs. nameKey (rr_name r) = k)) \<and>
     (\<forall>r \<in> zoneRecs z. in_zone (zi_origin z) (rr_name r)) \<and>
     zonePaths z \<subseteq> zi_namesExist z \<and> zi_namesExist z \<subseteq> insert (nameKey (zi_origin z)) (zonePaths z)"

lemma zone_invD:
  assumes "zone_inv z"
  shows "wf_name (zi_origin z)" "distinct (map fst (zi_byName z))"
    "map_of (zi_byName z) k = Some rs \<Longrightarrow> rs \<noteq> []"
    "map_of (zi_byName z) k = Some rs \<Longrightarrow> r \<in> set rs \<Longrightarrow> nameKey (rr_name r) = k"
    "r \<in> zoneRecs z \<Longrightarrow> in_zone (zi_origin z) (rr_name r)"
    "zonePaths z \<subseteq> zi_namesExist z" "zi_namesExist z \<subseteq> insert (nameKey (zi_origin z)) (zonePaths z)"
  using assms by (auto simp: zone_inv_def dest!: map_of_SomeD)

lemma zoneRecs_at: "map_of (zi_byName z) k = Some rs \<Longrightarrow> r \<in> set rs \<Longrightarrow> r \<in> zoneRecs z"
  by (force simp: zoneRecs_def dest: map_of_SomeD)

lemma recsAt_subset: "set (recsAt (zi_byName z) k) \<subseteq> zoneRecs z"
  by (cases "map_of (zi_byName z) k") (auto simp: recsAt_def intro: zoneRecs_at)

lemma recsAt_iff:
  assumes "zone_inv z"
  shows "r \<in> set (recsAt (zi_byName z) k) \<longleftrightarrow> r \<in> zoneRecs z \<and> nameKey (rr_name r) = k"
proof
  assume r: "r \<in> set (recsAt (zi_byName z) k)"
  then obtain rs where "map_of (zi_byName z) k = Some rs" "r \<in> set rs"
    by (cases "map_of (zi_byName z) k") (auto simp: recsAt_def)
  then show "r \<in> zoneRecs z \<and> nameKey (rr_name r) = k"
    using r recsAt_subset zone_invD(4) [OF assms] by blast
next
  assume r: "r \<in> zoneRecs z \<and> nameKey (rr_name r) = k"
  then obtain k' rs where m: "(k', rs) \<in> set (zi_byName z)" "r \<in> set rs" by (auto simp: zoneRecs_def)
  with zone_invD(2) [OF assms] have "map_of (zi_byName z) k' = Some rs" by (simp add: map_of_eq_Some_iff)
  moreover from this zone_invD(4) [OF assms] m(2) r have "k' = k" by auto
  ultimately show "r \<in> set (recsAt (zi_byName z) k)" using m(2) by (simp add: recsAt_def)
qed

lemma byName_None_iff:
  assumes "zone_inv z"
  shows "map_of (zi_byName z) k = None \<longleftrightarrow> (\<forall>r \<in> zoneRecs z. nameKey (rr_name r) \<noteq> k)"
proof -
  have "map_of (zi_byName z) k = None \<longleftrightarrow> recsAt (zi_byName z) k = []"
    using zone_invD(3) [OF assms] by (auto simp: recsAt_def split: option.splits)
  also have "\<dots> \<longleftrightarrow> (\<forall>r. r \<notin> set (recsAt (zi_byName z) k))" by auto
  finally show ?thesis using recsAt_iff [OF assms] by auto
qed

lemma nameKey_inj: "wf_name n \<Longrightarrow> wf_name m \<Longrightarrow> nameKey n = nameKey m \<longleftrightarrow> n = m"
  by (auto simp: nameKey_wf intro: wname_eqI)

lemma pathKeys_iff:
  assumes "in_zone origin n" "wf_name m"
  shows "nameKey m \<in> pathKeys origin n \<longleftrightarrow> at_or_below n m \<and> at_or_below m origin"
proof -
  have wf: "c \<in> set (upTo origin (ancestors n)) \<Longrightarrow> wf_name c" for c
    using assms(1) upTo_set ancestors_wf by (auto simp: in_zone_def)
  have "nameKey m \<in> pathKeys origin n \<longleftrightarrow> m \<in> set (upTo origin (ancestors n))"
    using wf assms(2) nameKey_inj unfolding pathKeys_def image_iff by metis
  then show ?thesis using path_iff [of n origin m] assms(1) by (simp add: in_zone_def)
qed

text \<open>A name other than the origin exists when a record is at it or below it.\<close>

lemma exists_iff:
  assumes "zone_inv z" "wf_name n" "n \<noteq> zi_origin z"
  shows "nameKey n \<in> zi_namesExist z \<longleftrightarrow> at_or_below n (zi_origin z) \<and> (\<exists>r \<in> zoneRecs z. at_or_below (rr_name r) n)"
proof -
  have "nameKey n \<noteq> nameKey (zi_origin z)" using nameKey_inj assms(2,3) zone_invD(1) [OF assms(1)] by simp
  then have "nameKey n \<in> zi_namesExist z \<longleftrightarrow> nameKey n \<in> zonePaths z" using zone_invD(6,7) [OF assms(1)] by auto
  then show ?thesis using zone_invD(5) [OF assms(1)] pathKeys_iff assms(2) by (auto simp: zonePaths_def)
qed

text \<open>Indexing one record.\<close>

lemma recsAt_setKey: "recsAt (setKey k rs m) k' = (if k' = k then rs else recsAt m k')"
  by (simp add: recsAt_def)

lemma zoneRecs_setKey:
  assumes "distinct (map fst m)"
  shows "\<Union> (set ` snd ` set (setKey k rs m)) = set rs \<union> (\<Union> (set ` snd ` {e \<in> set m. fst e \<noteq> k}))"
  by (auto simp: setKey_def deleteKey_def)

lemma indexRecord_recs:
  assumes "distinct (map fst (zi_byName z))"
  shows "zoneRecs (indexRecord r z) = insert r (zoneRecs z)"
proof -
  define k where "k = nameKey (rr_name r)"
  have "set (recsAt (zi_byName z) k) \<union> (\<Union> (set ` snd ` {e \<in> set (zi_byName z). fst e \<noteq> k})) = zoneRecs z"
  proof -
    have "\<And>e. e \<in> set (zi_byName z) \<Longrightarrow> fst e = k \<Longrightarrow> map_of (zi_byName z) k = Some (snd e)"
      using assms by (metis map_of_eq_Some_iff prod.collapse)
    then have "\<And>e. e \<in> set (zi_byName z) \<Longrightarrow> fst e = k \<Longrightarrow> snd e = recsAt (zi_byName z) k" by (simp add: recsAt_def)
    then show ?thesis using recsAt_subset [of z k] unfolding zoneRecs_def by auto
  qed
  moreover have "zoneRecs (indexRecord r z) =
      insert r (set (recsAt (zi_byName z) k) \<union> (\<Union> (set ` snd ` {e \<in> set (zi_byName z). fst e \<noteq> k})))"
    using zoneRecs_setKey [OF assms, of k "recsAt (zi_byName z) k @ [r]"]
    by (simp add: zoneRecs_def indexRecord_def Let_def k_def)
  ultimately show ?thesis by simp
qed

lemma indexRecord_origin [simp]:
  "zi_origin (indexRecord r z) = zi_origin z" "zi_soaRec (indexRecord r z) = zi_soaRec z"
  by (simp_all add: indexRecord_def Let_def)

lemma indexRecord_inv:
  assumes "zone_inv z" "in_zone (zi_origin z) (rr_name r)"
  shows "zone_inv (indexRecord r z)"
proof -
  note inv = zone_invD [OF assms(1)]
  let ?z = "indexRecord r z" and ?k = "nameKey (rr_name r)"
  have d: "distinct (map fst (zi_byName ?z))" using inv(2) by (simp add: indexRecord_def Let_def distinct_setKey)
  have recs: "zoneRecs ?z = insert r (zoneRecs z)" using indexRecord_recs [OF inv(2)] .
  then have paths: "zonePaths ?z = pathKeys (zi_origin z) (rr_name r) \<union> zonePaths z" by (simp add: zonePaths_def)
  have "\<forall>(k, rs) \<in> set (zi_byName ?z). rs \<noteq> [] \<and> (\<forall>r \<in> set rs. nameKey (rr_name r) = k)"
  proof (clarify)
    fix k rs assume "(k, rs) \<in> set (zi_byName ?z)"
    then have "(k = ?k \<and> rs = recsAt (zi_byName z) ?k @ [r]) \<or> (k, rs) \<in> set (zi_byName z)"
      by (auto simp: indexRecord_def Let_def setKey_def deleteKey_def)
    then show "rs \<noteq> [] \<and> (\<forall>r \<in> set rs. nameKey (rr_name r) = k)"
      using assms(1) recsAt_iff [OF assms(1)] by (auto simp: zone_inv_def)
  qed
  moreover have "zi_namesExist ?z = zi_namesExist z \<union> pathKeys (zi_origin z) (rr_name r)"
    by (simp add: indexRecord_def Let_def)
  ultimately show ?thesis
    unfolding zone_inv_def using inv d recs paths assms(2) by auto
qed

lemma fold_indexRecord:
  assumes "zone_inv z" "\<forall>r \<in> set rs. in_zone (zi_origin z) (rr_name r)"
  shows "zone_inv (fold indexRecord rs z) \<and> zi_origin (fold indexRecord rs z) = zi_origin z \<and>
    zi_soaRec (fold indexRecord rs z) = zi_soaRec z \<and>
    (\<forall>k. recsAt (zi_byName (fold indexRecord rs z)) k = recsAt (zi_byName z) k @ filter (\<lambda>r. nameKey (rr_name r) = k) rs)"
  using assms
proof (induction rs arbitrary: z)
  case (Cons r rs)
  have "zone_inv (indexRecord r z)" using indexRecord_inv Cons.prems by simp
  from Cons.IH [OF this] Cons.prems show ?case
    by (auto simp: indexRecord_def Let_def recsAt_setKey)
qed simp

text \<open>Loading a zone whose records lie in it.\<close>

lemma AddZone_index:
  assumes "AddZone z zones = Inr zones'" "wf_name (zn_origin z)" "\<forall>r \<in> set (zn_records z). in_zone (zn_origin z) (rr_name r)"
  shows "\<exists>idx. zones' = setKey (nameKey (zn_origin z)) idx zones \<and> zone_inv idx \<and> zi_origin idx = zn_origin z \<and>
    (\<exists>soa. zoneSOA z = Some (zi_soaRec idx, soa)) \<and>
    (\<forall>k. recsAt (zi_byName idx) k = filter (\<lambda>r. nameKey (rr_name r) = k) (zn_records z))"
proof -
  from assms(1) obtain soaRec soa where s: "zoneSOA z = Some (soaRec, soa)"
    by (auto simp: AddZone_def split: option.splits)
  define z0 where "z0 = \<lparr>zi_origin = zn_origin z, zi_soaRec = soaRec, zi_byName = [], zi_namesExist = {}\<rparr>"
  have "zone_inv z0" using assms(2) by (simp add: z0_def zone_inv_def zoneRecs_def zonePaths_def)
  from fold_indexRecord [OF this] assms(3)
  have "zone_inv (fold indexRecord (zn_records z) z0) \<and> zi_origin (fold indexRecord (zn_records z) z0) = zn_origin z \<and>
    zi_soaRec (fold indexRecord (zn_records z) z0) = soaRec \<and>
    (\<forall>k. recsAt (zi_byName (fold indexRecord (zn_records z) z0)) k = filter (\<lambda>r. nameKey (rr_name r) = k) (zn_records z))"
    by (simp add: z0_def recsAt_def)
  moreover have "zones' = setKey (nameKey (zn_origin z)) (fold indexRecord (zn_records z) z0) zones"
    using assms(1) s by (auto simp: AddZone_def z0_def Let_def split: if_splits)
  ultimately show ?thesis using s by blast
qed

subsection \<open>The search\<close>

lemma matchRRSet_cases:
  assumes "matchRRSet recs qtype = (ans, follow, done)"
  obtains "done" "ans = filter (\<lambda>r. rrType r = qtype) recs"
  | r c where "\<not> done" "filter (\<lambda>r. rrType r = qtype) recs = []" "qtype \<noteq> typeCNAME" "firstAs asCNAME recs = Some (r, c)"
      "ans = [r]" "follow = CNAME_target c"
  using assms by (auto simp: matchRRSet_def Let_def split: if_splits option.splits)

lemma substituteSuffix_valid: "substituteSuffix n owner target = Some out \<Longrightarrow> IsValid out"
  by (auto simp: substituteSuffix_def Let_def FromLabels_iff IsValid_def split: if_splits sum.splits)

lemma findDNAME_valid: "findDNAME_loop z qname cs = Some (r, synth) \<Longrightarrow> IsValid synth"
  by (induction cs) (auto split: option.splits dest: substituteSuffix_valid)

text \<open>The synthesis of a CNAME never panics.\<close>

lemma lookup_loop_total: "\<exists>res. lookup_loop z qtype left chain current answer = Inr res"
proof (induction left arbitrary: chain current answer)
  case (Suc left)
  show ?case
  proof (cases "map_of (zi_byName z) (nameKey current)")
    case (Some recs)
    then show ?thesis using Suc.IH by (auto simp: Let_def split: prod.splits)
  next
    case None
    have "findDNAMEAncestor z current = Some (r, s) \<Longrightarrow> NewCNAME s = Inr (RdCNAME s)" for r s
      using findDNAME_valid by (simp add: findDNAMEAncestor_def NewCNAME_def)
    then show ?thesis using None Suc.IH by (auto simp: Let_def split: prod.splits option.splits)
  qed
qed simp

lemma lookup_total: "\<exists>res. lookup z qname qtype = Inr res"
  using lookup_loop_total [of z qtype maxCNAMEChain 0 qname "[]"]
  by (auto simp: lookup_def lookupAuthoritative_def Let_def)

text \<open>Once an alias was followed the search gives no negative answer of its own.\<close>

lemma lookup_chain_rcode:
  "lookup_loop z qtype left (Suc chain) current answer = Inr (ans, auth, rc) \<Longrightarrow>
     auth = [] \<and> (rc = RCODENoError \<or> rc = RCODEServFail)"
proof (induction left arbitrary: chain current answer)
  case (Suc left)
  from Suc.prems show ?case
    by (auto simp: Let_def split: option.splits prod.splits if_splits sum.splits dest!: Suc.IH)
qed auto

definition typed :: "rr list \<Rightarrow> u16 \<Rightarrow> rr list" where
  "typed recs qtype = filter (\<lambda>r. rrType r = qtype) recs"

lemma lookup_exact:
  assumes "map_of (zi_byName z) (nameKey qname) = Some recs" "typed recs qtype \<noteq> []"
  shows "lookupAuthoritative z qname qtype = Inr (typed recs qtype, [], RCODENoError)"
proof -
  have "matchRRSet recs qtype = (typed recs qtype, zeroName, True)"
    using assms(2) by (simp add: matchRRSet_def Let_def typed_def)
  then show ?thesis using assms by (simp add: lookupAuthoritative_def maxCNAMEChain_def numeral_eq_Suc)
qed

lemma lookup_nodata:
  assumes "map_of (zi_byName z) (nameKey qname) = Some recs" "typed recs qtype = []" "firstAs asCNAME recs = None"
  shows "lookupAuthoritative z qname qtype = Inr ([], [zi_soaRec z], RCODENoError)"
proof -
  have "matchRRSet recs qtype = ([], zeroName, True)"
    using assms by (simp add: matchRRSet_def Let_def typed_def)
  then show ?thesis using assms by (simp add: lookupAuthoritative_def maxCNAMEChain_def numeral_eq_Suc)
qed

lemma lookup_nonterminal:
  assumes "map_of (zi_byName z) (nameKey qname) = None" "nameKey qname \<in> zi_namesExist z"
  shows "lookupAuthoritative z qname qtype = Inr ([], [zi_soaRec z], RCODENoError)"
  using assms by (simp add: lookupAuthoritative_def maxCNAMEChain_def numeral_eq_Suc)

text \<open>The name error.\<close>

definition no_wildcard :: "zoneIndex \<Rightarrow> wname \<Rightarrow> bool" where
  "no_wildcard z qname \<longleftrightarrow>
     (\<forall>e. closestEncloser z qname = Some e \<longrightarrow> map_of (zi_byName z) (wildcardKey e) = None)"

lemma lookup_nxdomain:
  "lookupAuthoritative z qname qtype = Inr (ans, auth, RCODENXDomain) \<longleftrightarrow>
     map_of (zi_byName z) (nameKey qname) = None \<and> nameKey qname \<notin> zi_namesExist z \<and>
     findDNAMEAncestor z qname = None \<and> no_wildcard z qname \<and> ans = [] \<and> auth = [zi_soaRec z]"
proof -
  have rc: "RCODENXDomain \<noteq> RCODENoError" "RCODENXDomain \<noteq> RCODEServFail"
    by (simp_all add: RCODENXDomain_def RCODENoError_def RCODEServFail_def)
  then have follow: "lookup_loop z qtype left (Suc chain) current answer \<noteq> Inr (ans, auth, RCODENXDomain)" for left chain current answer
    using lookup_chain_rcode [of z qtype left chain current answer ans auth RCODENXDomain] by auto
  define left where "left = (7 :: nat)"
  have l: "lookupAuthoritative z qname qtype = lookup_loop z qtype (Suc left) 0 qname []"
    by (simp add: lookupAuthoritative_def maxCNAMEChain_def numeral_eq_Suc left_def)
  have wc: "(case matchRRSet recs qtype of (ans0, follow, done) \<Rightarrow>
      let a = f ans0 in if done then if length a > 0 then Inr ([] @ a, [], RCODENoError) else Inr ([], [zi_soaRec z], RCODENoError)
      else lookup_loop z qtype left (Suc 0) follow ([] @ a)) \<noteq> Inr (ans, auth, RCODENXDomain)" for recs f
    using follow rc by (auto simp: Let_def split: prod.splits)
  show ?thesis
    unfolding l lookup_loop.simps Let_def no_wildcard_def
    using wc [where f = "\<lambda>a. a"] wc [where f = "\<lambda>a. rewriteOwners a qname"] follow rc
    by (auto simp: Let_def split: option.splits sum.splits)
qed

text \<open>Delegations.\<close>

lemma findDelegation_loop_iff:
  "findDelegation_loop z cs = ns \<and> ns \<noteq> [] \<longleftrightarrow>
     (\<exists>pre c post. cs = pre @ c # post \<and> zi_origin z \<notin> set (pre @ [c]) \<and> ns = typed (recsAt (zi_byName z) (nameKey c)) typeNS \<and>
        ns \<noteq> [] \<and> (\<forall>d \<in> set pre. typed (recsAt (zi_byName z) (nameKey d)) typeNS = []))"
proof (induction cs)
  case (Cons c cs)
  show ?case (is "_ \<longleftrightarrow> (\<exists>pre d post. ?P pre d post)")
  proof
    assume l: "findDelegation_loop z (c # cs) = ns \<and> ns \<noteq> []"
    then have c: "c \<noteq> zi_origin z" by (auto split: if_splits)
    show "\<exists>pre d post. ?P pre d post"
    proof (cases "typed (recsAt (zi_byName z) (nameKey c)) typeNS = []")
      case True
      then have "findDelegation_loop z cs = ns" using l c by (auto simp: typed_def)
      with l Cons.IH obtain pre d post where "cs = pre @ d # post" "zi_origin z \<notin> set (pre @ [d])"
        "ns = typed (recsAt (zi_byName z) (nameKey d)) typeNS" "\<forall>d \<in> set pre. typed (recsAt (zi_byName z) (nameKey d)) typeNS = []"
        by blast
      with True c l show ?thesis by (intro exI [of _ "c # pre"] exI [of _ d] exI [of _ post]) auto
    next
      case False
      with l c show ?thesis by (intro exI [of _ "[]"] exI [of _ c] exI [of _ cs]) (auto simp: typed_def Let_def)
    qed
  next
    assume "\<exists>pre d post. ?P pre d post"
    then obtain pre d post where p: "?P pre d post" by blast
    show "findDelegation_loop z (c # cs) = ns \<and> ns \<noteq> []"
    proof (cases pre)
      case Nil
      with p show ?thesis by (auto simp: typed_def Let_def)
    next
      case (Cons c' pre')
      then have "findDelegation_loop z cs = ns \<and> ns \<noteq> []"
        using p Cons.IH by auto
      moreover have "c \<noteq> zi_origin z" "typed (recsAt (zi_byName z) (nameKey c)) typeNS = []" using Cons p by auto
      ultimately show ?thesis by (auto simp: typed_def Let_def)
    qed
  qed
qed simp

lemma ancestors_split:
  "ancestors n = pre @ c # post \<Longrightarrow> c # post = ancestors c \<and> (\<forall>x \<in> set pre. at_or_below x c \<and> x \<noteq> c)"
proof (induction n arbitrary: pre rule: ancestors.induct)
  case (1 n)
  have e: "pre @ c # post = n # (case Parent n of None \<Rightarrow> [] | Some p \<Rightarrow> ancestors p)"
    using 1(2) ancestors.simps [of n] by (simp only:)
  show ?case
  proof (cases pre)
    case Nil
    then have "n = c" using e by simp
    with Nil 1(2) show ?thesis by simp
  next
    case (Cons x pre')
    with e obtain p where p: "Parent n = Some p" "ancestors p = pre' @ c # post" "x = n"
      by (cases "Parent n") auto
    from 1(1) [OF p(1,2)] have ih: "c # post = ancestors c" "\<forall>x \<in> set pre'. at_or_below x c \<and> x \<noteq> c" by simp_all
    have m: "c \<in> set (ancestors p)" using p(2) by simp
    then have "at_or_below n c" using p(1) ancestors_iff [of c n] by (simp add: at_or_below_def)
    moreover have "n \<noteq> c" using ancestor_shorter [OF m] Parent_shorter [OF p(1)] by auto
    ultimately show ?thesis using ih Cons p(3) by simp
  qed
qed

lemma findDelegation_loop_nonempty:
  "zi_origin z \<notin> set (pre @ [c]) \<Longrightarrow> typed (recsAt (zi_byName z) (nameKey c)) typeNS \<noteq> [] \<Longrightarrow>
   findDelegation_loop z (pre @ c # post) \<noteq> []"
  by (induction pre) (auto simp: typed_def Let_def)

lemma at_or_below_antisym: "at_or_below n m \<Longrightarrow> at_or_below m n \<Longrightarrow> n = m"
  using ancestor_shorter [of m n] ancestor_shorter [of n m] by (auto simp: at_or_below_def)

text \<open>The delegation is the deepest name at or above the query, below the apex, that has NS records.\<close>

definition cut_at :: "zoneIndex \<Rightarrow> wname \<Rightarrow> wname \<Rightarrow> bool" where
  "cut_at z qname c \<longleftrightarrow> at_or_below qname c \<and> c \<noteq> zi_origin z \<and> (\<exists>r \<in> zoneRecs z. rrType r = typeNS \<and> rr_name r = c)"

lemma delegation_empty_iff:
  assumes "zone_inv z" "in_zone (zi_origin z) qname"
  shows "findDelegation z qname \<noteq> [] \<longleftrightarrow> (\<exists>c. cut_at z qname c)"
proof
  assume n: "findDelegation z qname \<noteq> []"
  then obtain pre c post where s: "ancestors qname = pre @ c # post" "zi_origin z \<notin> set (pre @ [c])"
    "typed (recsAt (zi_byName z) (nameKey c)) typeNS \<noteq> []"
    using findDelegation_loop_iff [of z "ancestors qname" "findDelegation z qname"] by (auto simp: findDelegation_def)
  then obtain r where r: "r \<in> zoneRecs z" "rrType r = typeNS" "nameKey (rr_name r) = nameKey c"
    using recsAt_iff [OF assms(1), of _ "nameKey c"] by (auto simp: typed_def filter_empty_conv)
  have "wf_name c" using s(1) assms(2) ancestors_wf [of qname c] by (simp add: in_zone_def)
  moreover have "wf_name (rr_name r)" using zone_invD(5) [OF assms(1) r(1)] by (simp add: in_zone_def)
  ultimately have "rr_name r = c" using r(3) nameKey_inj by simp
  then show "\<exists>c. cut_at z qname c" using s r by (auto simp: cut_at_def at_or_below_def)
next
  assume "\<exists>c. cut_at z qname c"
  then obtain c r where c: "at_or_below qname c" "c \<noteq> zi_origin z" "r \<in> zoneRecs z" "rrType r = typeNS" "rr_name r = c"
    by (auto simp: cut_at_def)
  then obtain pre post where s: "ancestors qname = pre @ c # post" by (auto simp: at_or_below_def dest: split_list)
  have "at_or_below c (zi_origin z)" using zone_invD(5) [OF assms(1) c(3)] c(5) by (simp add: in_zone_def)
  then have "zi_origin z \<notin> set pre" using ancestors_split [OF s] at_or_below_antisym by blast
  moreover have "typed (recsAt (zi_byName z) (nameKey c)) typeNS \<noteq> []"
    using c(3-5) recsAt_iff [OF assms(1)] by (auto simp: typed_def filter_empty_conv)
  ultimately show "findDelegation z qname \<noteq> []"
    using findDelegation_loop_nonempty [of z pre c post] c(2) by (simp add: findDelegation_def s)
qed

lemma delegation_deepest:
  assumes "zone_inv z" "in_zone (zi_origin z) qname" "findDelegation z qname = ns" "ns \<noteq> []"
  shows "\<exists>c. cut_at z qname c \<and> set ns = {r \<in> zoneRecs z. rrType r = typeNS \<and> rr_name r = c} \<and>
    (\<forall>d. cut_at z qname d \<longrightarrow> at_or_below c d)"
proof -
  from assms(3,4) obtain pre c post where s: "ancestors qname = pre @ c # post" "zi_origin z \<notin> set (pre @ [c])"
    "ns = typed (recsAt (zi_byName z) (nameKey c)) typeNS" "\<forall>d \<in> set pre. typed (recsAt (zi_byName z) (nameKey d)) typeNS = []"
    using findDelegation_loop_iff [of z "ancestors qname" ns] by (auto simp: findDelegation_def)
  have wf: "wf_name c" using s(1) assms(2) ancestors_wf [of qname c] by (simp add: in_zone_def)
  have set: "set ns = {r \<in> zoneRecs z. rrType r = typeNS \<and> rr_name r = c}"
    using s(3) recsAt_iff [OF assms(1)] nameKey_inj [OF _ wf] zone_invD(5) [OF assms(1)]
    by (auto simp: typed_def in_zone_def)
  moreover obtain r where "r \<in> set ns" using assms(4) by (cases ns) auto
  then have "cut_at z qname c" using s(1,2) set by (auto simp: cut_at_def at_or_below_def)
  moreover have "at_or_below c d" if cut: "cut_at z qname d" for d
  proof -
    have "d \<in> set (ancestors qname)" using cut by (simp add: cut_at_def at_or_below_def)
    moreover obtain r where "r \<in> zoneRecs z" "rrType r = typeNS" "rr_name r = d" using cut by (auto simp: cut_at_def)
    then have "typed (recsAt (zi_byName z) (nameKey d)) typeNS \<noteq> []"
      using recsAt_iff [OF assms(1)] by (auto simp: typed_def filter_empty_conv)
    then have "d \<notin> set pre" using s(4) by blast
    ultimately show ?thesis using ancestors_split [OF s(1)] s(1) by (auto simp: at_or_below_def)
  qed
  ultimately show ?thesis by blast
qed

text \<open>No record of the zone is at or below a name that is answered with a name error.\<close>

lemma nxdomain_sound:
  assumes "zone_inv z" "in_zone (zi_origin z) qname" "lookupAuthoritative z qname qtype = Inr (ans, auth, RCODENXDomain)"
  shows "\<not> (\<exists>r \<in> zoneRecs z. at_or_below (rr_name r) qname)"
proof
  assume "\<exists>r \<in> zoneRecs z. at_or_below (rr_name r) qname"
  then obtain r where r: "r \<in> zoneRecs z" "at_or_below (rr_name r) qname" by blast
  have "nameKey qname \<in> pathKeys (zi_origin z) (rr_name r)"
    using pathKeys_iff [OF zone_invD(5) [OF assms(1) r(1)]] assms(2) r(2) by (simp add: in_zone_def)
  then have "nameKey qname \<in> zi_namesExist z" using r(1) zone_invD(6) [OF assms(1)] by (auto simp: zonePaths_def)
  with assms(3) lookup_nxdomain show False by simp
qed

text \<open>What an answer may hold: records of the zone, their copies under another owner, and synthesised aliases.\<close>

definition from_zone :: "zoneIndex \<Rightarrow> rr \<Rightarrow> bool" where
  "from_zone z r \<longleftrightarrow> r \<in> zoneRecs z \<or> (\<exists>r0 \<in> zoneRecs z. \<exists>n. r = r0\<lparr>rr_name := n\<rparr>) \<or>
     (\<exists>n r0 c. r0 \<in> zoneRecs z \<and> asDNAME r0 \<noteq> None \<and> r = NewRecord n (rr_ttl r0) (RD_CNAME c))"

lemma firstAs_Some: "firstAs f rs = Some (r, x) \<Longrightarrow> r \<in> set rs \<and> f r = Some x"
  by (auto simp: firstAs_def find_Some_iff split: option.splits)

lemma matchRRSet_subset: "matchRRSet recs qtype = (ans, follow, done) \<Longrightarrow> set ans \<subseteq> set recs"
  by (erule matchRRSet_cases) (auto dest: firstAs_Some)

lemma findDNAME_zone: "findDNAME_loop z qname cs = Some (r, synth) \<Longrightarrow> r \<in> zoneRecs z \<and> asDNAME r \<noteq> None"
proof (induction cs)
  case (Cons c cs)
  show ?case
  proof (cases "firstAs asDNAME (recsAt (zi_byName z) (nameKey c))")
    case (Some rd)
    obtain r' d where rd: "rd = (r', d)" by (cases rd)
    with Cons.prems Some have "r' = r" by (auto split: option.splits)
    with Some rd firstAs_Some recsAt_subset show ?thesis by fastforce
  qed (use Cons in simp)
qed simp

lemma dname_from_zone:
  assumes "findDNAMEAncestor z current = Some (r, s)"
  shows "from_zone z r" "from_zone z (NewRecord current (rr_ttl r) (RD_CNAME (RdCNAME s)))" "NewCNAME s = Inr (RdCNAME s)"
proof -
  have r: "r \<in> zoneRecs z" "asDNAME r \<noteq> None" "IsValid s"
    using assms findDNAME_zone findDNAME_valid by (auto simp: findDNAMEAncestor_def)
  then show "from_zone z r" "NewCNAME s = Inr (RdCNAME s)" by (simp_all add: from_zone_def NewCNAME_def)
  show "from_zone z (NewRecord current (rr_ttl r) (RD_CNAME (RdCNAME s)))" unfolding from_zone_def using r(1,2) by blast
qed

lemma match_from_zone:
  assumes "map_of (zi_byName z) k = Some recs" "matchRRSet recs qtype = (a, f, d)"
  shows "\<forall>r \<in> set a. from_zone z r" "\<forall>r \<in> set (rewriteOwners a n). from_zone z r"
  using matchRRSet_subset [OF assms(2)] zoneRecs_at [OF assms(1)] by (fastforce simp: from_zone_def rewriteOwners_def)+

text \<open>One turn of the loop ends with records of the zone, or with the SOA record, or follows an alias.\<close>

definition turn :: "zoneIndex \<Rightarrow> u16 \<Rightarrow> nat \<Rightarrow> nat \<Rightarrow> rr list \<Rightarrow> wire_error + rr list \<times> rr list \<times> u8 \<Rightarrow> bool" where
  "turn z qtype left chain answer res \<longleftrightarrow>
     (\<exists>a rc. res = Inr (answer @ a, [], rc) \<and> (\<forall>r \<in> set a. from_zone z r)) \<or> (\<exists>rc. res = Inr ([], [zi_soaRec z], rc)) \<or>
     (\<exists>current a. res = lookup_loop z qtype left (Suc chain) current (answer @ a) \<and> (\<forall>r \<in> set a. from_zone z r))"

lemma turn_intros:
  "turn z qtype left chain answer (Inr (answer, [], rc))"
  "turn z qtype left chain answer (Inr ([], [zi_soaRec z], rc))"
  "\<forall>r \<in> set a. from_zone z r \<Longrightarrow> turn z qtype left chain answer (Inr (answer @ a, [], rc))"
  "\<forall>r \<in> set a. from_zone z r \<Longrightarrow> turn z qtype left chain answer (lookup_loop z qtype left (Suc chain) current (answer @ a))"
  by (auto simp: turn_def intro: exI [of _ "[]"])

lemma turn_follow: "turn z qtype left chain answer (lookup_loop z qtype left (Suc chain) current answer)"
  using turn_intros(4) [of "[]"] by simp

lemma lookup_loop_turn: "turn z qtype left chain answer (lookup_loop z qtype (Suc left) chain current answer)"
proof -
  have dn: "turn z qtype left ch answer (case NewCNAME s of
        Inl e \<Rightarrow> Inl (GoPanic ''authoritative: synth CNAME'')
      | Inr rd \<Rightarrow> lookup_loop z qtype left (Suc ch) s (answer @ [r, NewRecord current (rr_ttl r) (RD_CNAME rd)]))"
    if "findDNAMEAncestor z current = Some (r, s)" for r s ch
    using dname_from_zone [OF that] by (simp add: turn_intros(4))
  show ?thesis
    by (auto simp: Let_def turn_intros turn_follow dn match_from_zone split: option.split prod.split)
qed

lemma lookup_loop_zone:
  assumes "lookup_loop z qtype left chain current answer = Inr (ans, auth, rc)" "\<forall>r \<in> set answer. from_zone z r"
  shows "(\<forall>r \<in> set ans. from_zone z r) \<and> (auth = [] \<or> auth = [zi_soaRec z])"
  using assms
proof (induction left arbitrary: chain current answer)
  case (Suc left)
  have t: "turn z qtype left chain answer (Inr (ans, auth, rc))"
    using lookup_loop_turn [of z qtype left chain answer current] unfolding Suc.prems(1) .
  from t [unfolded turn_def] show ?case
  proof (elim disjE exE conjE)
    fix current' a assume a: "Inr (ans, auth, rc) = lookup_loop z qtype left (Suc chain) current' (answer @ a)"
      "\<forall>r \<in> set a. from_zone z r"
    show ?thesis by (rule Suc.IH [OF a(1) [symmetric]]) (use a(2) Suc.prems(2) in auto)
  qed (use Suc.prems(2) in auto)
qed simp

text \<open>A query for all types of a name is answered as if the name had no records of the type asked for.\<close>

lemma lookup_any_nodata:
  assumes "map_of (zi_byName z) (nameKey qname) = Some recs" "\<forall>r \<in> set recs. rrType r \<noteq> typeANY \<and> asCNAME r = None"
  shows "lookupAuthoritative z qname typeANY = Inr ([], [zi_soaRec z], RCODENoError)"
proof -
  have "typed recs typeANY = []" "firstAs asCNAME recs = None"
    using assms(2) by (auto simp: typed_def firstAs_def filter_empty_conv find_None_iff split: option.splits)
  from lookup_nodata [OF assms(1) this] show ?thesis .
qed

end
