(* ===== verification/Zone_Update.thy ===== *)
theory Zone_Update
  imports Zone_Lookup
begin

text \<open>
  Dynamic updates (\<^verbatim>\<open>authoritative/update.go\<close>).  The handler looks at the published zones twice, first under the read lock
  and then again under the write lock; both views are arguments of the model.  Aliasing does not show: the update works on a
  copy of the index, and the slices it filters in place belong to the copy.
\<close>

definition RCODEFormErr :: u8 where "RCODEFormErr = 1"
definition RCODEYXDomain :: u8 where "RCODEYXDomain = 6"
definition RCODEYXRRSet :: u8 where "RCODEYXRRSet = 7"
definition RCODENXRRSet :: u8 where "RCODENXRRSet = 8"
definition RCODENotAuth :: u8 where "RCODENotAuth = 9"
definition RCODENotZone :: u8 where "RCODENotZone = 10"

definition OpcodeUpdate :: u8 where "OpcodeUpdate = 5"

subsection \<open>Responses\<close>

definition setRCODE :: "builder \<Rightarrow> message \<Rightarrow> u8 \<Rightarrow> builder" where
  "setRCODE b q code =
     (let b1 = bFlags (\<lambda>f. WithRCODE f (code AND 0x0f)) b in
      case m_edns q of
        None \<Rightarrow> b1
      | Some qe \<Rightarrow>
          let eb = NewEDNSBuilder\<lparr>e_udpSize := 1232, e_do := e_do qe\<rparr>;
              hi = drop_bit 4 code;
              eb1 = (if hi \<noteq> 0 then eb\<lparr>e_extRCODE := hi\<rparr> else eb)
          in case fst (ednsBuild eb1) of Inl _ \<Rightarrow> b1 | Inr ed \<Rightarrow> bEDNS ed b1)"

definition echoEDNS :: "builder \<Rightarrow> message \<Rightarrow> builder" where
  "echoEDNS b q = setRCODE b q RCODENoError"

text \<open>\<^verbatim>\<open>ID(q.ID()).Response(true).RecursionDesired(q.RD)\<close>\<close>

definition authHead :: "message \<Rightarrow> builder" where
  "authHead q = bFlags (\<lambda>f. WithRecursionDesired f (RecursionDesired (m_flags q)))
     (bFlags (\<lambda>f. WithResponse f True) (bID (m_id q) NewMessageBuilder))"

definition mustBuild :: "builder \<Rightarrow> message \<Rightarrow> message" where
  "mustBuild b q =
     (case fst (Build b) of
        Inr m \<Rightarrow> m
      | Inl _ \<Rightarrow>
          (case fst (Build (setRCODE (echoQuestion (m_questions q) (authHead q)) q RCODEServFail)) of
             Inr out \<Rightarrow> out
           | Inl _ \<Rightarrow> servFail))"

subsection \<open>Prerequisites\<close>

definition hasRData :: "rr \<Rightarrow> bool" where
  "hasRData r \<longleftrightarrow> length (rdBytes r) > 0"

definition rdataEqual :: "rr \<Rightarrow> rr \<Rightarrow> bool" where
  "rdataEqual a b \<longleftrightarrow> rrType a = rrType b \<and> rdBytes a = rdBytes b"

definition hasName :: "zoneIndex \<Rightarrow> wname \<Rightarrow> bool" where
  "hasName z n \<longleftrightarrow> map_of (zi_byName z) (nameKey n) \<noteq> None"

definition hasType :: "zoneIndex \<Rightarrow> wname \<Rightarrow> u16 \<Rightarrow> bool" where
  "hasType z n t \<longleftrightarrow> (\<exists>r \<in> set (recsAt (zi_byName z) (nameKey n)). rrType r = t)"

type_synonym wanted = "((bytes \<times> u16) \<times> bytes set) list"

text \<open>\<open>Inl\<close> is the code the function returns early.\<close>

fun prereq_loop :: "zoneIndex \<Rightarrow> wanted \<Rightarrow> rr list \<Rightarrow> u8 + wanted" where
  "prereq_loop z want [] = Inr want"
| "prereq_loop z want (p # ps) =
     (let t = rrType p; class = rr_class p in
      if rr_ttl p \<noteq> 0 then Inl RCODEFormErr
      else if class = ClassANY then
        if hasRData p then Inl RCODEFormErr
        else if t = typeANY then
          if \<not> hasName z (rr_name p) then Inl RCODENXDomain else prereq_loop z want ps
        else if \<not> hasType z (rr_name p) t then Inl RCODENXRRSet else prereq_loop z want ps
      else if class = ClassNONE then
        if hasRData p then Inl RCODEFormErr
        else if t = typeANY then
          if hasName z (rr_name p) then Inl RCODEYXDomain else prereq_loop z want ps
        else if hasType z (rr_name p) t then Inl RCODEYXRRSet else prereq_loop z want ps
      else if class = ClassIN then
        let k = (nameKey (rr_name p), t);
            s = (case map_of want k of None \<Rightarrow> {} | Some s \<Rightarrow> s)
        in prereq_loop z (setKey k (insert (rdBytes p) s) want) ps
      else Inl RCODEFormErr)"

fun want_loop :: "zoneIndex \<Rightarrow> wanted \<Rightarrow> u8" where
  "want_loop z [] = RCODENoError"
| "want_loop z (((n, t), s) # rest) =
     (case map_of (zi_byName z) n of
        None \<Rightarrow> RCODENXRRSet
      | Some recs \<Rightarrow>
          let got = rdBytes ` set (filter (\<lambda>r. rrType r = t) recs) in
          if card got \<noteq> card s then RCODENXRRSet
          else if \<not> s \<subseteq> got then RCODENXRRSet
          else want_loop z rest)"

definition evaluatePrereqs :: "zoneIndex \<Rightarrow> rr list \<Rightarrow> u8" where
  "evaluatePrereqs z prereqs = (case prereq_loop z [] prereqs of Inl rc \<Rightarrow> rc | Inr want \<Rightarrow> want_loop z want)"

fun validateUpdates :: "zoneIndex \<Rightarrow> rr list \<Rightarrow> u8" where
  "validateUpdates z [] = RCODENoError"
| "validateUpdates z (u # us) =
     (let t = rrType u; class = rr_class u in
      if class = ClassANY then
        if rr_ttl u \<noteq> 0 \<or> hasRData u then RCODEFormErr else validateUpdates z us
      else if class = ClassNONE then
        if rr_ttl u \<noteq> 0 \<or> \<not> hasRData u then RCODEFormErr else validateUpdates z us
      else if class = ClassIN then
        if NameEqual (rr_name u) (zi_origin z) \<and> (t = typeCNAME \<or> t = typeDNAME) then RCODEFormErr
        else validateUpdates z us
      else RCODEFormErr)"

subsection \<open>Applying an update\<close>

text \<open>\<^verbatim>\<open>delete\<close> for an empty slice, an assignment otherwise.\<close>

definition storeRecs :: "bytes \<Rightarrow> rr list \<Rightarrow> zoneIndex \<Rightarrow> zoneIndex" where
  "storeRecs k kept z =
     (if length kept = 0 then z\<lparr>zi_byName := deleteKey k (zi_byName z)\<rparr>
      else z\<lparr>zi_byName := setKey k kept (zi_byName z)\<rparr>)"

definition markExists :: "wname \<Rightarrow> zoneIndex \<Rightarrow> zoneIndex" where
  "markExists n z = z\<lparr>zi_namesExist := zi_namesExist z \<union> pathKeys (zi_origin z) n\<rparr>"

definition applyUpdate :: "rr \<Rightarrow> zoneIndex \<Rightarrow> bool \<times> zoneIndex" where
  "applyUpdate u z =
     (let n = rr_name u; t = rrType u; class = rr_class u; k = nameKey n in
      if class = ClassANY then
        (case map_of (zi_byName z) k of
           None \<Rightarrow> (False, z)
         | Some recs \<Rightarrow>
             if NameEqual n (zi_origin z) \<and> (t = typeSOA \<or> t = typeNS \<or> t = typeANY) then
               if t = typeANY then
                 let kept = filter (\<lambda>r. rrType r = typeSOA \<or> rrType r = typeNS) recs in
                 if length kept = length recs then (False, z) else (True, storeRecs k kept z)
               else (False, z)
             else if t = typeANY then (True, z\<lparr>zi_byName := deleteKey k (zi_byName z)\<rparr>)
             else
               let kept = filter (\<lambda>r. rrType r \<noteq> t) recs in
               if length kept = length recs then (False, z) else (True, storeRecs k kept z))
      else if class = ClassNONE then
        (case map_of (zi_byName z) k of
           None \<Rightarrow> (False, z)
         | Some recs \<Rightarrow>
             if NameEqual n (zi_origin z) \<and> (t = typeSOA \<or> t = typeNS) then (False, z)
             else
               let kept = filter (\<lambda>r. \<not> (rrType r = t \<and> rdataEqual r u)) recs in
               if length kept = length recs then (False, z) else (True, storeRecs k kept z))
      else
        let stored = \<lparr>rr_name = n, rr_class = ClassIN, rr_ttl = rr_ttl u, rr_rd = rr_rd u\<rparr>;
            recs = recsAt (zi_byName z) k
        in if \<exists>r \<in> set recs. rrType r = t \<and> rr_ttl r = rr_ttl u \<and> rdataEqual r u then (False, z)
           else if NameEqual n (zi_origin z) \<and> t = typeSOA then
             let out = filter (\<lambda>r. rrType r \<noteq> typeSOA) recs @ [stored] in
             (True, markExists n (z\<lparr>zi_byName := setKey k out (zi_byName z), zi_soaRec := stored\<rparr>))
           else (True, markExists n (z\<lparr>zi_byName := setKey k (recs @ [stored]) (zi_byName z)\<rparr>)))"

definition rebuildNamesExist :: "zoneIndex \<Rightarrow> zoneIndex" where
  "rebuildNamesExist z = z\<lparr>zi_namesExist :=
     insert (nameKey (zi_origin z))
       (\<Union>(k, recs) \<in> set (zi_byName z). if length recs = 0 then {} else pathKeys (zi_origin z) (rr_name (hd recs)))\<rparr>"

fun replaceSOA :: "rr \<Rightarrow> rr list \<Rightarrow> rr list" where
  "replaceSOA new [] = [new]"
| "replaceSOA new (r # rs) = (if rrType r = typeSOA then new # rs else r # replaceSOA new rs)"

definition bumpSOA :: "zoneIndex \<Rightarrow> zoneIndex" where
  "bumpSOA z =
     (case asSOA (zi_soaRec z) of
        None \<Rightarrow> z
      | Some soa \<Rightarrow>
          (case NewSOA (SOA_mname soa) (SOA_rname soa) (SOA_serial soa + 1) (SOA_refresh soa) (SOA_retry soa)
                  (SOA_expire soa) (SOA_minimum soa) of
             Inl _ \<Rightarrow> z
           | Inr soa1 \<Rightarrow>
               let newRec = NewRecord (rr_name (zi_soaRec z)) (rr_ttl (zi_soaRec z)) (RD_SOA soa1);
                   apexKey = nameKey (zi_origin z)
               in z\<lparr>zi_soaRec := newRec,
                    zi_byName := setKey apexKey (replaceSOA newRec (recsAt (zi_byName z) apexKey)) (zi_byName z)\<rparr>))"

subsection \<open>The handler\<close>

text \<open>The checks made under a lock.\<close>

definition updateChecks :: "(bytes \<times> zoneIndex) list \<Rightarrow> wname \<Rightarrow> message \<Rightarrow> u8 + zoneIndex" where
  "updateChecks zones zoneName q =
     (case map_of zones (nameKey zoneName) of
        None \<Rightarrow> Inl RCODENotAuth
      | Some z \<Rightarrow>
          if evaluatePrereqs z (m_answers q) \<noteq> RCODENoError then Inl (evaluatePrereqs z (m_answers q))
          else if validateUpdates z (m_authorities q) \<noteq> RCODENoError then Inl (validateUpdates z (m_authorities q))
          else Inr z)"

fun applyAll :: "rr list \<Rightarrow> bool \<times> zoneIndex \<Rightarrow> bool \<times> zoneIndex" where
  "applyAll [] (changed, z) = (changed, z)"
| "applyAll (u # us) (changed, z) = (case applyUpdate u z of (c, z') \<Rightarrow> applyAll us (changed \<or> c, z'))"

definition serialOf :: "zoneIndex \<Rightarrow> u32 \<Rightarrow> u32" where
  "serialOf z dflt = (case asSOA (zi_soaRec z) of Some soa \<Rightarrow> SOA_serial soa | None \<Rightarrow> dflt)"

text \<open>The new index, whether it changed, and the two serials reported to the callback.\<close>

definition commitUpdate :: "rr list \<Rightarrow> zoneIndex \<Rightarrow> zoneIndex \<times> bool \<times> u32 \<times> u32" where
  "commitUpdate us z =
     (case applyAll us (False, z) of (changed, z1) \<Rightarrow>
        let oldSerial = serialOf z1 0 in
        if changed then
          let z2 = rebuildNamesExist (bumpSOA z1) in (z2, True, oldSerial, serialOf z2 oldSerial)
        else (z1, False, oldSerial, oldSerial))"

datatype auth_event = UpdateEvent wname u32 u32 | NotifyEvent question request

definition updateHead :: "message \<Rightarrow> builder" where
  "updateHead q = fold bQuestion (m_questions q)
     (bFlags (\<lambda>f. WithOpcode f OpcodeUpdate) (bFlags (\<lambda>f. WithResponse f True) (bID (m_id q) NewMessageBuilder)))"

text \<open>
  \<open>zones1\<close> is read under the read lock and \<open>zones2\<close> under the write lock; \<open>allowed\<close> is the verdict of the policy, false
  without one.  The result is the response, the published zones, and the call of \<^verbatim>\<open>onUpdate\<close>.
\<close>

definition serveUpdate ::
    "int \<Rightarrow> bool \<Rightarrow> (bytes \<times> zoneIndex) list \<Rightarrow> (bytes \<times> zoneIndex) list \<Rightarrow> message \<Rightarrow>
     message \<times> (bytes \<times> zoneIndex) list \<times> auth_event list" where
  "serveUpdate maxUpdateRecords allowed zones1 zones2 q =
     (let b = updateHead q; refuse = (\<lambda>rc. (mustBuild (setRCODE b q rc) q, zones2, [])) in
      case m_questions q of
        [zoneQ] \<Rightarrow>
          if q_type zoneQ \<noteq> typeSOA then refuse RCODEFormErr
          else if maxUpdateRecords > 0 \<and> int (length (m_answers q) + length (m_authorities q)) > maxUpdateRecords then refuse RCODEFormErr
          else if \<not> allowed then refuse RCODERefused
          else if \<exists>p \<in> set (m_answers q). \<not> inBailiwick (q_name zoneQ) (rr_name p) then refuse RCODENotZone
          else if \<exists>u \<in> set (m_authorities q). \<not> inBailiwick (q_name zoneQ) (rr_name u) then refuse RCODENotZone
          else
            (case updateChecks zones1 (q_name zoneQ) q of
               Inl rc \<Rightarrow> refuse rc
             | Inr _ \<Rightarrow>
                 (case updateChecks zones2 (q_name zoneQ) q of
                    Inl rc \<Rightarrow> refuse rc
                  | Inr z \<Rightarrow>
                      (case commitUpdate (m_authorities q) z of (newZone, changed, oldSerial, newSerial) \<Rightarrow>
                         (mustBuild (echoEDNS b q) q, setKey (nameKey (q_name zoneQ)) newZone zones2,
                          if changed then [UpdateEvent (q_name zoneQ) oldSerial newSerial] else []))))
      | _ \<Rightarrow> refuse RCODEFormErr)"

subsection \<open>Updates as operations on the set of records\<close>

text \<open>The invariant of the index without the existing names, which are recomputed at the end of an update.\<close>

definition zone_base :: "zoneIndex \<Rightarrow> bool" where
  "zone_base z \<longleftrightarrow> wf_name (zi_origin z) \<and> distinct (map fst (zi_byName z)) \<and>
     (\<forall>(k, rs) \<in> set (zi_byName z). rs \<noteq> [] \<and> (\<forall>r \<in> set rs. nameKey (rr_name r) = k)) \<and>
     (\<forall>r \<in> zoneRecs z. in_zone (zi_origin z) (rr_name r))"

lemma zone_inv_base: "zone_inv z \<Longrightarrow> zone_base z"
  by (simp add: zone_inv_def zone_base_def)

text \<open>The existing names do not matter for the records of a key.\<close>

lemma base_inv: "zone_base z \<Longrightarrow> zone_inv (z\<lparr>zi_namesExist := zonePaths z\<rparr>)"
  by (simp add: zone_inv_def zone_base_def zoneRecs_def zonePaths_def subset_insertI)

lemma base_recsAt_iff:
  "zone_base z \<Longrightarrow> r \<in> set (recsAt (zi_byName z) k) \<longleftrightarrow> r \<in> zoneRecs z \<and> nameKey (rr_name r) = k"
  using recsAt_iff [OF base_inv, of z r k] by (simp add: zoneRecs_def)

lemma base_recs_name:
  assumes "zone_base z" "wf_name n"
  shows "set (recsAt (zi_byName z) (nameKey n)) = {r \<in> zoneRecs z. rr_name r = n}"
  using base_recsAt_iff [OF assms(1)] nameKey_inj [OF _ assms(2)] assms(1) by (auto simp: zone_base_def in_zone_def)

lemma base_map_of:
  assumes "zone_base z" "map_of (zi_byName z) k = Some rs"
  shows "recsAt (zi_byName z) k = rs" "rs \<noteq> []"
  using assms by (auto simp: recsAt_def zone_base_def dest!: map_of_SomeD)

text \<open>Replacing the records of one key.\<close>

lemma others_recs:
  assumes "zone_base z"
  shows "\<Union> (set ` snd ` {e \<in> set (zi_byName z). fst e \<noteq> k}) = {r \<in> zoneRecs z. nameKey (rr_name r) \<noteq> k}"
proof -
  have k: "\<And>e r. e \<in> set (zi_byName z) \<Longrightarrow> r \<in> set (snd e) \<Longrightarrow> nameKey (rr_name r) = fst e"
    using assms by (auto simp: zone_base_def)
  show ?thesis unfolding zoneRecs_def by (auto simp: k)
qed

lemma setKey_recs:
  assumes "zone_base z" "zi_byName z' = setKey k rs (zi_byName z)"
  shows "zoneRecs z' = set rs \<union> {r \<in> zoneRecs z. nameKey (rr_name r) \<noteq> k}"
  using others_recs [OF assms(1), of k] by (auto simp: zoneRecs_def assms(2) setKey_def deleteKey_def)

lemma deleteKey_recs:
  assumes "zone_base z" "zi_byName z' = deleteKey k (zi_byName z)"
  shows "zoneRecs z' = {r \<in> zoneRecs z. nameKey (rr_name r) \<noteq> k}"
  using others_recs [OF assms(1), of k] by (auto simp: zoneRecs_def assms(2) deleteKey_def)

lemma setKey_base:
  assumes "zone_base z" "zi_byName z' = setKey k rs (zi_byName z)" "zi_origin z' = zi_origin z" "rs \<noteq> []"
    "\<forall>r \<in> set rs. nameKey (rr_name r) = k \<and> in_zone (zi_origin z) (rr_name r)"
  shows "zone_base z'"
proof -
  have "\<forall>(k', rs') \<in> set (zi_byName z'). rs' \<noteq> [] \<and> (\<forall>r \<in> set rs'. nameKey (rr_name r) = k')"
    using assms(1,4,5) by (auto simp: assms(2) setKey_def deleteKey_def zone_base_def)
  moreover have "\<forall>r \<in> zoneRecs z'. in_zone (zi_origin z') (rr_name r)"
    using assms(1,3,5) by (auto simp: setKey_recs [OF assms(1,2)] zone_base_def)
  ultimately show ?thesis using assms(1-3) by (simp add: zone_base_def distinct_setKey)
qed

lemma deleteKey_base:
  assumes "zone_base z" "zi_byName z' = deleteKey k (zi_byName z)" "zi_origin z' = zi_origin z"
  shows "zone_base z'"
proof -
  have "\<forall>(k', rs') \<in> set (zi_byName z'). rs' \<noteq> [] \<and> (\<forall>r \<in> set rs'. nameKey (rr_name r) = k')"
    using assms(1) by (auto simp: assms(2) deleteKey_def zone_base_def)
  moreover have "\<forall>r \<in> zoneRecs z'. in_zone (zi_origin z') (rr_name r)"
    using assms(1,3) by (auto simp: deleteKey_recs [OF assms(1,2)] zone_base_def)
  ultimately show ?thesis using assms(1-3) by (simp add: zone_base_def distinct_deleteKey)
qed

lemma storeRecs_base:
  assumes "zone_base z" "\<forall>r \<in> set rs. nameKey (rr_name r) = k \<and> in_zone (zi_origin z) (rr_name r)"
  shows "zone_base (storeRecs k rs z)"
    "zoneRecs (storeRecs k rs z) = set rs \<union> {r \<in> zoneRecs z. nameKey (rr_name r) \<noteq> k}"
  using assms setKey_base [OF assms(1), of "storeRecs k rs z" k rs] deleteKey_base [OF assms(1), of "storeRecs k rs z" k]
    setKey_recs [OF assms(1), of "storeRecs k rs z" k rs] deleteKey_recs [OF assms(1), of "storeRecs k rs z" k]
  by (cases rs; simp add: storeRecs_def)+

text \<open>What RFC 2136 asks of one record of the update section, with the protection of the apex.\<close>

definition storedRR :: "rr \<Rightarrow> rr" where
  "storedRR u = \<lparr>rr_name = rr_name u, rr_class = ClassIN, rr_ttl = rr_ttl u, rr_rd = rr_rd u\<rparr>"

definition updateSpec :: "wname \<Rightarrow> rr \<Rightarrow> rr set \<Rightarrow> rr set" where
  "updateSpec origin u Z =
     (let t = rrType u; apex = (rr_name u = origin); here = {r \<in> Z. rr_name r = rr_name u} in
      if rr_class u = ClassANY then
        if apex \<and> (t = typeSOA \<or> t = typeNS) then Z
        else if apex \<and> t = typeANY then Z - {r \<in> here. rrType r \<noteq> typeSOA \<and> rrType r \<noteq> typeNS}
        else if t = typeANY then Z - here
        else Z - {r \<in> here. rrType r = t}
      else if rr_class u = ClassNONE then
        if apex \<and> (t = typeSOA \<or> t = typeNS) then Z else Z - {r \<in> here. rrType r = t \<and> rdataEqual r u}
      else if \<exists>r \<in> here. rrType r = t \<and> rr_ttl r = rr_ttl u \<and> rdataEqual r u then Z
      else if apex \<and> t = typeSOA then insert (storedRR u) (Z - {r \<in> here. rrType r = typeSOA})
      else insert (storedRR u) Z)"

text \<open>The three ways an update leaves the index: untouched, with some records of one name dropped, with a record added.\<close>

lemma drop_refines:
  assumes "zone_base z" "wf_name n" "map_of (zi_byName z) (nameKey n) = Some recs"
  shows "zone_base (storeRecs (nameKey n) (filter P recs) z)"
    "zoneRecs (storeRecs (nameKey n) (filter P recs) z) = zoneRecs z - {r \<in> zoneRecs z. rr_name r = n \<and> \<not> P r}"
    "length (filter P recs) = length recs \<Longrightarrow> {r \<in> zoneRecs z. rr_name r = n \<and> \<not> P r} = {}"
proof -
  have recs: "set recs = {r \<in> zoneRecs z. rr_name r = n}"
    using base_recs_name [OF assms(1,2)] base_map_of(1) [OF assms(1,3)] by simp
  then have ok: "\<forall>r \<in> set (filter P recs). nameKey (rr_name r) = nameKey n \<and> in_zone (zi_origin z) (rr_name r)"
    using assms(1) by (auto simp: zone_base_def)
  show "zone_base (storeRecs (nameKey n) (filter P recs) z)" by (rule storeRecs_base(1) [OF assms(1) ok])
  have "\<And>r. r \<in> zoneRecs z \<Longrightarrow> nameKey (rr_name r) = nameKey n \<longleftrightarrow> rr_name r = n"
    using nameKey_inj [OF _ assms(2)] assms(1) by (auto simp: zone_base_def in_zone_def)
  then show "zoneRecs (storeRecs (nameKey n) (filter P recs) z) = zoneRecs z - {r \<in> zoneRecs z. rr_name r = n \<and> \<not> P r}"
    using storeRecs_base(2) [OF assms(1) ok] recs by auto
  show "{r \<in> zoneRecs z. rr_name r = n \<and> \<not> P r} = {}" if "length (filter P recs) = length recs"
  proof -
    have "\<forall>r \<in> set recs. P r" using that length_filter_less [of _ recs P] by fastforce
    then show ?thesis using recs by auto
  qed
qed

lemma markExists_simps [simp]:
  "zi_byName (markExists n z) = zi_byName z" "zi_origin (markExists n z) = zi_origin z" "zi_soaRec (markExists n z) = zi_soaRec z"
  "zoneRecs (markExists n z) = zoneRecs z"
  by (simp_all add: markExists_def zoneRecs_def)

lemma add_refines:
  assumes "zone_base z" "in_zone (zi_origin z) n" "rr_name new = n"
    "zi_byName z' = setKey (nameKey n) (filter P (recsAt (zi_byName z) (nameKey n)) @ [new]) (zi_byName z)" "zi_origin z' = zi_origin z"
  shows "zone_base z'" "zoneRecs z' = insert new (zoneRecs z - {r \<in> zoneRecs z. rr_name r = n \<and> \<not> P r})"
proof -
  have wf: "wf_name n" using assms(2) by (simp add: in_zone_def)
  have recs: "set (recsAt (zi_byName z) (nameKey n)) = {r \<in> zoneRecs z. rr_name r = n}"
    using base_recs_name [OF assms(1) wf] .
  show "zone_base z'"
    by (rule setKey_base [OF assms(1,4,5)]) (use recs assms(1,2,3) in \<open>auto simp: zone_base_def\<close>)
  have "\<And>r. r \<in> zoneRecs z \<Longrightarrow> nameKey (rr_name r) = nameKey n \<longleftrightarrow> rr_name r = n"
    using nameKey_inj [OF _ wf] assms(1) by (auto simp: zone_base_def in_zone_def)
  then show "zoneRecs z' = insert new (zoneRecs z - {r \<in> zoneRecs z. rr_name r = n \<and> \<not> P r})"
    using setKey_recs [OF assms(1,4)] recs by auto
qed

text \<open>One record: the index implements the operation on the set, and reports a change exactly when the set changes.\<close>

lemma zone_base_name: "zone_base z \<Longrightarrow> r \<in> zoneRecs z \<Longrightarrow> wf_name (rr_name r)"
  by (simp add: zone_base_def in_zone_def)

lemma absent_name:
  assumes "zone_base z" "wf_name n" "map_of (zi_byName z) (nameKey n) = None"
  shows "{r \<in> zoneRecs z. rr_name r = n} = {}"
  using base_recs_name [OF assms(1,2)] assms(3) by (simp add: recsAt_def)

lemma storedRR_type [simp]: "rrType (storedRR u) = rrType u" "rr_name (storedRR u) = rr_name u"
  by (simp_all add: storedRR_def rrType_def)

definition implements :: "rr \<Rightarrow> zoneIndex \<Rightarrow> bool \<times> zoneIndex \<Rightarrow> bool" where
  "implements u z res \<longleftrightarrow> zone_base (snd res) \<and> zi_origin (snd res) = zi_origin z \<and>
     zoneRecs (snd res) = updateSpec (zi_origin z) u (zoneRecs z)"

lemma implements_same: "zone_base z \<Longrightarrow> updateSpec (zi_origin z) u (zoneRecs z) = zoneRecs z \<Longrightarrow> implements u z (False, z)"
  by (simp add: implements_def)

lemma implements_drop:
  assumes "zone_base z" "wf_name (rr_name u)" "map_of (zi_byName z) (nameKey (rr_name u)) = Some recs"
    "updateSpec (zi_origin z) u (zoneRecs z) = zoneRecs z - {r \<in> zoneRecs z. rr_name r = rr_name u \<and> \<not> P r}"
  shows "implements u z (if length (filter P recs) = length recs then (False, z)
    else (True, storeRecs (nameKey (rr_name u)) (filter P recs) z))"
proof -
  note d = drop_refines [OF assms(1-3), of P]
  have "zi_origin (storeRecs (nameKey (rr_name u)) (filter P recs) z) = zi_origin z" by (simp add: storeRecs_def)
  then show ?thesis using d assms(1,4) by (auto simp: implements_def)
qed

lemma apply_ANY:
  assumes "zone_base z" "wf_name (rr_name u)" "rr_class u = ClassANY"
  shows "implements u z (applyUpdate u z)"
proof (cases "map_of (zi_byName z) (nameKey (rr_name u))")
  case None
  from absent_name [OF assms(1,2) None] have "updateSpec (zi_origin z) u (zoneRecs z) = zoneRecs z"
    using assms(3) by (auto simp: updateSpec_def Let_def)
  with None assms show ?thesis by (simp add: applyUpdate_def implements_same)
next
  case (Some recs)
  have spec: "updateSpec (zi_origin z) u (zoneRecs z) = (let t = rrType u; apex = (rr_name u = zi_origin z) in
      if apex \<and> (t = typeSOA \<or> t = typeNS) then zoneRecs z
      else zoneRecs z - {r \<in> zoneRecs z. rr_name r = rr_name u \<and>
        \<not> (if apex \<and> t = typeANY then rrType r = typeSOA \<or> rrType r = typeNS else if t = typeANY then False else rrType r \<noteq> t)})"
    using assms(3) by (auto simp: updateSpec_def Let_def)
  note dr = implements_drop [OF assms(1,2) Some]
  consider "rr_name u = zi_origin z \<and> (rrType u = typeSOA \<or> rrType u = typeNS)"
    | "rr_name u = zi_origin z" "rrType u = typeANY" | "rr_name u \<noteq> zi_origin z" "rrType u = typeANY"
    | "rrType u \<noteq> typeANY" "\<not> (rr_name u = zi_origin z \<and> (rrType u = typeSOA \<or> rrType u = typeNS))" by blast
  then show ?thesis
  proof cases
    case 1
    then show ?thesis using assms Some spec by (auto simp: applyUpdate_def Let_def implements_same)
  next
    case 2
    then show ?thesis using assms(3) Some dr [of "\<lambda>r. rrType r = typeSOA \<or> rrType r = typeNS"] spec
      by (auto simp: applyUpdate_def Let_def split: if_splits)
  next
    case 3
    have d: "zoneRecs (z\<lparr>zi_byName := deleteKey (nameKey (rr_name u)) (zi_byName z)\<rparr>) =
        {r \<in> zoneRecs z. nameKey (rr_name r) \<noteq> nameKey (rr_name u)}" by (rule deleteKey_recs [OF assms(1)]) simp
    have "\<And>r. r \<in> zoneRecs z \<Longrightarrow> nameKey (rr_name r) = nameKey (rr_name u) \<longleftrightarrow> rr_name r = rr_name u"
      using nameKey_inj assms(2) zone_base_name [OF assms(1)] by blast
    then have "implements u z (True, z\<lparr>zi_byName := deleteKey (nameKey (rr_name u)) (zi_byName z)\<rparr>)"
      using 3 spec d deleteKey_base [OF assms(1), of "z\<lparr>zi_byName := deleteKey (nameKey (rr_name u)) (zi_byName z)\<rparr>"]
      by (auto simp: implements_def Let_def)
    with 3 assms(3) Some show ?thesis by (simp add: applyUpdate_def Let_def)
  next
    case 4
    then show ?thesis using assms(3) Some dr [of "\<lambda>r. rrType r \<noteq> rrType u"] spec
      by (auto simp: applyUpdate_def Let_def)
  qed
qed

lemma apply_NONE:
  assumes "zone_base z" "wf_name (rr_name u)" "rr_class u = ClassNONE"
  shows "implements u z (applyUpdate u z)"
proof (cases "map_of (zi_byName z) (nameKey (rr_name u))")
  case None
  from absent_name [OF assms(1,2) None] have "updateSpec (zi_origin z) u (zoneRecs z) = zoneRecs z"
    using assms(3) by (auto simp: updateSpec_def Let_def)
  with None assms show ?thesis by (simp add: applyUpdate_def implements_same)
next
  case (Some recs)
  let ?P = "\<lambda>r. \<not> (rrType r = rrType u \<and> rdataEqual r u)"
  have spec: "updateSpec (zi_origin z) u (zoneRecs z) =
     (if rr_name u = zi_origin z \<and> (rrType u = typeSOA \<or> rrType u = typeNS) then zoneRecs z
      else zoneRecs z - {r \<in> zoneRecs z. rr_name r = rr_name u \<and> \<not> ?P r})"
    using assms(3) by (auto simp: updateSpec_def Let_def)
  show ?thesis
  proof (cases "rr_name u = zi_origin z \<and> (rrType u = typeSOA \<or> rrType u = typeNS)")
    case True
    then show ?thesis using assms Some spec by (auto simp: applyUpdate_def Let_def implements_same)
  next
    case False
    then show ?thesis using assms(3) Some implements_drop [OF assms(1,2) Some, of ?P] spec
      by (auto simp: applyUpdate_def Let_def)
  qed
qed

lemma apply_add:
  assumes "zone_base z" "in_zone (zi_origin z) (rr_name u)" "rr_class u \<noteq> ClassANY" "rr_class u \<noteq> ClassNONE"
  shows "implements u z (applyUpdate u z)"
proof -
  let ?k = "nameKey (rr_name u)" and ?t = "rrType u"
  have wf: "wf_name (rr_name u)" using assms(2) by (simp add: in_zone_def)
  have here: "set (recsAt (zi_byName z) ?k) = {r \<in> zoneRecs z. rr_name r = rr_name u}"
    using base_recs_name [OF assms(1) wf] .
  let ?dup = "\<exists>r \<in> {r \<in> zoneRecs z. rr_name r = rr_name u}. rrType r = ?t \<and> rr_ttl r = rr_ttl u \<and> rdataEqual r u"
  let ?out = "filter (\<lambda>r. rrType r \<noteq> typeSOA) (recsAt (zi_byName z) ?k) @ [storedRR u]"
  let ?z1 = "markExists (rr_name u) (z\<lparr>zi_byName := setKey ?k ?out (zi_byName z), zi_soaRec := storedRR u\<rparr>)"
  let ?z2 = "markExists (rr_name u) (z\<lparr>zi_byName := setKey ?k (recsAt (zi_byName z) ?k @ [storedRR u]) (zi_byName z)\<rparr>)"
  have a: "applyUpdate u z = (if ?dup then (False, z)
      else if rr_name u = zi_origin z \<and> ?t = typeSOA then (True, ?z1) else (True, ?z2))"
    unfolding applyUpdate_def Let_def NameEqual_eq here storedRR_def [symmetric] using assms(3,4) by (simp only: if_False)
  have 1: "zone_base ?z1" "zoneRecs ?z1 = insert (storedRR u) (zoneRecs z - {r \<in> zoneRecs z. rr_name r = rr_name u \<and> \<not> rrType r \<noteq> typeSOA})"
    using add_refines [OF assms(1,2), of "storedRR u" ?z1 "\<lambda>r. rrType r \<noteq> typeSOA"] by simp_all
  have 2: "zone_base ?z2" "zoneRecs ?z2 = insert (storedRR u) (zoneRecs z)"
    using add_refines [OF assms(1,2), of "storedRR u" ?z2 "\<lambda>_. True"] by simp_all
  show ?thesis
    unfolding a using assms(1,3,4) 1 2 by (auto simp: implements_def updateSpec_def Let_def)
qed

lemma applyUpdate_refines:
  assumes "zone_base z" "in_zone (zi_origin z) (rr_name u)"
  shows "implements u z (applyUpdate u z)"
proof -
  have "wf_name (rr_name u)" using assms(2) by (simp add: in_zone_def)
  then show ?thesis using apply_ANY apply_NONE apply_add assms by metis
qed

lemma applyUpdate_unchanged: "applyUpdate u z = (False, z') \<Longrightarrow> z' = z"
  by (auto simp: applyUpdate_def Let_def split: if_splits option.splits)

end
