(* ===== verification/Spec2Isabelle.thy ===== *)
theory Spec2Isabelle
  imports Zone_Update
begin

text \<open>
  acidns is a DNS toolkit in Go: a wire codec (\<^verbatim>\<open>wire\<close>, \<^verbatim>\<open>wire/wirebb\<close>, \<^verbatim>\<open>wire/rdata\<close>), message authentication (\<^verbatim>\<open>tsig\<close>,
  \<^verbatim>\<open>sig0\<close>, \<^verbatim>\<open>cookies\<close>, \<^verbatim>\<open>dnscrypt\<close>), DNSSEC (\<^verbatim>\<open>dnssec\<close>), servers and resolvers (\<^verbatim>\<open>authoritative\<close>, \<^verbatim>\<open>recursive\<close>,
  \<^verbatim>\<open>forward\<close>, the root package) and transports.  Everything but the transports works on the messages that the codec decodes;
  what they rely on is that decoding is total and safe on hostile input and that encoding is its inverse.  The development
  follows that order: the codec from octets to messages, then the components that work on messages.

  \<^bold>\<open>Conventions.\<close>  An octet is an \<^typ>\<open>8 word\<close>, a Go slice or string of octets a list of them; unsigned integers are words of
  their width, so that conversions wrap as in Go; \<^verbatim>\<open>int\<close> is \<^typ>\<open>int\<close> or \<^typ>\<open>nat\<close> where it is a length or an offset.  A function
  that returns an error has a sum type, \<^const>\<open>Inl\<close> the error.  Where a Go expression can panic (a slice out of range, a nil
  interface) the panic is an error value of its own, and its absence is a theorem.  A reader is a function of the message and
  the offset; a writer is a function of the buffer and the compression table.  Loops over input are recursive functions that
  terminate because the offset grows; there is no fuel in the codec.  A time is the integer number of nanoseconds since the
  epoch.  A Go map is an association list with distinct keys, whose order is the order in which \<^verbatim>\<open>range\<close> enumerates it; the
  theorems about maps hold for every such order.

  \<^bold>\<open>The theories\<close>, in the order of their imports, with the sources they model:
    \<^item> \<^verbatim>\<open>Prelude\<close>: results, octet lists, big-endian integers, and the collections of rules;
    \<^item> \<^verbatim>\<open>Wire_Errors\<close> (wire/errors.go): the error kinds;
    \<^item> \<^verbatim>\<open>Wire_Name\<close> (wire/wirebb/name.go): names, \<^verbatim>\<open>Parse\<close>, \<^verbatim>\<open>String\<close>, \<^verbatim>\<open>DecodeWire\<close>.  The decoder is characterised exactly
      (labels reached through at most 32 backward pointers, at most 255 octets), and printing and parsing are inverse;
    \<^item> \<^verbatim>\<open>Wire_Codec\<close> (wire/wirebb/wire.go): the packer with its compression table and the unpacker; the locales of readers
      and writers, and the invariant that every entry of the table is a position that denotes the name;
    \<^item> \<^verbatim>\<open>Rdata_Core\<close>, \<^verbatim>\<open>Rdata_Names\<close>, \<^verbatim>\<open>Rdata_Strings\<close>, \<^verbatim>\<open>Rdata_Fixed\<close>, \<^verbatim>\<open>Rdata_Dnssec\<close>, \<^verbatim>\<open>Rdata_Window\<close>, \<^verbatim>\<open>Rdata_Svcb\<close>,
      \<^verbatim>\<open>Rdata\<close> (wire/rdata): one datatype, packer and unpacker per RR type, each an interpretation of the codec locale, and
      the dispatch by type code;
    \<^item> \<^verbatim>\<open>Wire_Record\<close> (wire/flags.go, question.go, record.go, edns.go): header bits, questions, records, the OPT record;
    \<^item> \<^verbatim>\<open>Wire_Message\<close> (wire/dnsmsg.go, builder.go): \<^verbatim>\<open>Pack\<close>, \<^verbatim>\<open>Unpack\<close> and the builder;
    \<^item> \<^verbatim>\<open>Edns_Options\<close> (wire/edns_options.go, edns_padding.go, edns_reporting.go, edns_chain_keytag.go): every EDNS option,
      the padding of encrypted messages, the name of an error report;
    \<^item> \<^verbatim>\<open>Wire_RRset\<close> (wire/rrset.go, compare.go): record sets, canonical sorting, semantic comparison of messages;
    \<^item> \<^verbatim>\<open>Replay_Cache\<close> (tsig/replay.go, sig0/replay.go, dnscrypt/replay.go): the three replay caches as interpretations of one
      locale, and their refinement of a cache that never forgets;
    \<^item> \<^verbatim>\<open>Tsig\<close> (tsig/tsig.go): signing and verification with every slice of the source checked;
    \<^item> \<^verbatim>\<open>Dns_Cookies\<close> (cookies/cookies.go): the client's cookie cache, the rotating secrets, minting and validation;
    \<^item> \<^verbatim>\<open>Middleware\<close> (server.go, middleware_acl.go, middleware_cookies.go): handlers as functions of the request and their state to
      the messages they write, access control, and the cookie layer;
    \<^item> \<^verbatim>\<open>Zone_Lookup\<close> (authoritative/authoritative.go, zonefile/zonefile.go): the index of a zone, delegations, and the search
      with wildcards, CNAME and DNAME;
    \<^item> \<^verbatim>\<open>Zone_Update\<close> (authoritative/update.go): dynamic updates, as operations on the set of records that the index implements.

  \<^bold>\<open>What the properties show.\<close>  Messages: \<^verbatim>\<open>Unpack\<close> inverts \<^verbatim>\<open>Pack\<close> up to what the wire form cannot express, is total with
  error offsets inside the input, and decoding followed by encoding and decoding changes nothing; a question is echoed in the
  received spelling; the builder never leads to a panic; sections reserve no more than the input can fill.  Payloads: the
  round trip and the safety of all RR types, canonical type bitmaps, mandatory service parameters.  Names: the decoder, the
  compression invariant, printing and parsing.  Options and sets: padding reaches the block size, the client subnet hides the
  host bits, grouping partitions, and comparison is equality of multisets.  TSIG: round trip, soundness of acceptance, absence
  of panics, refusal of replays, and the bound and the refinement of the caches.

  \<^bold>\<open>Parameters.\<close>  HMAC is the Go crypto library: the definitions of \<^verbatim>\<open>Tsig\<close> take it as an argument, and the round trip assumes
  of it the documented length of its output.  The clock of a cache is an argument of each call.

  \<^bold>\<open>Not modelled.\<close>  Mutual exclusion: each method of a cache is one atomic step, as its mutex makes it.  Sockets, TLS, HTTP and
  QUIC sessions, goroutines, logging and option plumbing are I/O around the modelled code.  The textual names of types, classes
  and codes are not modelled, nor are DNSSEC, the zone file parser, zone transfer and NOTIFY, the rate limiters, whose token
  buckets are floating-point numbers, and the resolvers.
\<close>

section \<open>Messages\<close>

text \<open>A response with a compressed owner name, a compressed name inside rdata, and an OPT record.\<close>

definition exMsg :: message where
  "exMsg = \<lparr>m_id = 7, m_flags = 0x8180, m_questions = [NewQuestion (Name [1, 0x61, 0]) typeA],
     m_answers = [NewRecord (Name [1, 0x61, 0]) (300 * Second) (RD_CNAME (RdCNAME (Name [1, 0x62, 1, 0x61, 0]))),
       NewRecord (Name [1, 0x62, 1, 0x61, 0]) (300 * Second) (RD_A (RdA (Addr4 [192, 0, 2, 1])))],
     m_authorities = [], m_additionals = [], m_edns = Some NewEDNSBuilder\<rparr>"

definition exWire :: bytes where
  "exWire = [0, 7, 0x81, 0x80, 0, 1, 0, 2, 0, 0, 0, 1, 1, 0x61, 0, 0, 1, 0, 1,
     1, 0x61, 0, 0, 5, 0, 1, 0, 0, 1, 0x2c, 0, 4, 1, 0x62, 0xc0, 19,
     0xc0, 32, 0, 1, 0, 1, 0, 0, 1, 0x2c, 0, 4, 192, 0, 2, 1, 0, 0, 41, 4, 0xd0, 0, 0, 0, 0, 0, 0]"

lemmas put_defs = putRaw_def putUint8_def putUint16_def putUint32_def putName_def putNameUncompressed_def
  be16_def be32_def nameWire_def IsValid_def AppendWire_def comp_hit_def comp_record_def NewPacker_def
  patchUint16_def putName_loop.simps

lemmas message_defs = PackMsg_def packHeader_def arCount_def packQuestion_def packRecord_def rrType_def
  packOPT_def putOption_def NewQuestion_def NewRecord_def NewEDNSBuilder_def optTypeWire_def optTTL_def

lemma secs300: "secs32 (300 * Second) = 300" "tdiv (300 * Second) Second = 300" "\<not> 300 * Second < 0"
  by (simp_all add: secs32_def tdiv_def Second_def)

lemma exMsg_packs: "PackMsg exMsg = Inr exWire" "PackMsg (msg_norm exMsg) = Inr exWire"
  by (simp_all add: put_defs message_defs exMsg_def exWire_def packCNAME_def packA_def secs300
      maxRecordTTLSeconds_def Let_def drop_bit_eq_div msg_norm_def q_norm_def rr_norm_def of_secs_def normRdata_def packBytes_def)

lemma exMsg_ok: "msg_ok exMsg" "msg_few exMsg"
  by code_simp+

text \<open>
  C1: unpacking the packed form of a message gives the message back.  The hypothesis \<open>msg_ok\<close>
  asks for well-formed names and payloads, at most 32 labels in a compressed name, no OPT record
  among the additional records, and pairwise distinct EDNS option codes.  \<open>msg_norm\<close> is the identity up to what the wire
  format cannot express: fractions of a second in a TTL, the type of a payload without octets, and
  the spelling of a question that was not received from the wire.
\<close>

theorem message_roundtrip:
  "msg_ok m \<Longrightarrow> PackMsg m = Inr b \<Longrightarrow> UnpackMsg b = Inr (msg_norm m)"
  by (rule UnpackMsg_PackMsg)

theorem message_roundtrip_witness:
  "PackMsg exMsg = Inr exWire \<and> UnpackMsg exWire = Inr (msg_norm exMsg)"
  using message_roundtrip [OF exMsg_ok(1) exMsg_packs(1)] exMsg_packs(1) by simp

text \<open>
  C2: unpacking is total.  On every input it returns a well-formed message (names in lower case and
  within the limits, payloads satisfying the invariant of their type, TTLs in whole seconds below
  \<open>2 ^ 31\<close>, uncompressed question names, at most one OPT record, without duplicate options), or a
  parse error whose offset lies inside the input; no loop exceeds its bound.
\<close>

theorem unpack_total:
  "case UnpackMsg b of Inr m \<Rightarrow> msg_wf m | Inl e \<Rightarrow> parse_error (length b) e"
  using UnpackMsg_wf UnpackMsg_error by (auto split: sum.split)



text \<open>
  C4: a decoded question packs to exactly the octets it was decoded from, so that a server echoes
  the query name in the case the client chose.
\<close>

theorem question_echo:
  "unpackQuestion u = (Inr q, u') \<Longrightarrow> uoff u \<le> length (umsg u) \<Longrightarrow>
   packQuestion q p = putRaw (take (uoff u' - uoff u) (drop (uoff u) (umsg u))) p"
  by (rule unpackQuestion_echo)

lemma exQuestion:
  "unpackQuestion (NewUnpacker [1, 0x41, 0, 0, 1, 0, 1]) =
     (Inr \<lparr>q_name = Name [1, 0x61, 0], q_type = 1, q_class = 1, q_raw = [1, 0x41, 0]\<rparr>,
      \<lparr>umsg = [1, 0x41, 0, 0, 1, 0, 1], uoff = 7\<rparr>)"
  by code_simp

theorem question_echo_witness:
  "packQuestion \<lparr>q_name = Name [1, 0x61, 0], q_type = 1, q_class = 1, q_raw = [1, 0x41, 0]\<rparr> (NewPacker []) =
   putRaw [1, 0x41, 0, 0, 1, 0, 1] (NewPacker [])"
  using question_echo [OF exQuestion, of "NewPacker []"] by (simp add: NewUnpacker_def)

text \<open>
  C5: packing a record fails with \<^verbatim>\<open>ErrInvalidTTL\<close> exactly when the TTL is negative or at least \<open>2 ^ 31\<close>
  seconds.
\<close>

theorem record_ttl_bounds:
  "(\<exists>t. packRecord r p = Inl (ErrInvalidTTL t)) \<longleftrightarrow> rr_ttl r < 0 \<or> 2 ^ 31 * Second \<le> rr_ttl r"
  by (rule packRecord_ttl_error)



text \<open>
  C7: each setter of the header flags changes its own field and no other; an opcode or response code
  is cut to four bits.
\<close>

theorem flag_setters:
  "flag_fields (WithResponse f v) = (let (bs, opc, rc) = flag_fields f in (bs[0 := v], opc, rc)) \<and>
   flag_fields (WithAuthoritative f v) = (let (bs, opc, rc) = flag_fields f in (bs[1 := v], opc, rc)) \<and>
   flag_fields (WithTruncated f v) = (let (bs, opc, rc) = flag_fields f in (bs[2 := v], opc, rc)) \<and>
   flag_fields (WithRecursionDesired f v) = (let (bs, opc, rc) = flag_fields f in (bs[3 := v], opc, rc)) \<and>
   flag_fields (WithRecursionAvailable f v) = (let (bs, opc, rc) = flag_fields f in (bs[4 := v], opc, rc)) \<and>
   flag_fields (WithAuthenticData f v) = (let (bs, opc, rc) = flag_fields f in (bs[5 := v], opc, rc)) \<and>
   flag_fields (WithCheckingDisabled f v) = (let (bs, opc, rc) = flag_fields f in (bs[6 := v], opc, rc)) \<and>
   flag_fields (WithOpcode f opc') = (let (bs, opc, rc) = flag_fields f in (bs, opc' AND 0x0f, rc)) \<and>
   flag_fields (WithRCODE f rc') = (let (bs, opc, rc) = flag_fields f in (bs, opc, rc' AND 0x0f))"
  using flag_fields_With by blast


section \<open>Record data\<close>



text \<open>
  C10: decoding a payload always terminates, stays inside the message, consumes exactly the record's
  length on success, and returns a payload of the requested type that satisfies its invariant.
\<close>

theorem rdata_unpack_safe:
  assumes "uoff u \<le> length (umsg u)" "Unpack t n u = (r, u')"
  shows "r \<noteq> Inl Diverges \<and> umsg u' = umsg u \<and> uoff u' \<le> length (umsg u) \<and>
    (\<forall>rd. r = Inr rd \<longrightarrow> int (uoff u') = int (uoff u) + n \<and> Type rd = t \<and> validRdata rd)"
proof -
  note * = forwardD [OF forward_Unpack assms]
  have "int (uoff u') = int (uoff u) + n \<and> Type rd = t \<and> validRdata rd" if "r = Inr rd" for rd
    using Unpack_ok assms(2) that by blast
  with * show ?thesis by simp
qed

theorem rdata_unpack_safe_witness:
  "Unpack typeA 4 (NewUnpacker [1, 2, 3, 4]) = (Inr (RD_A (RdA (Addr4 [1, 2, 3, 4]))), \<lparr>umsg = [1, 2, 3, 4], uoff = 4\<rparr>) \<and>
   validRdata (RD_A (RdA (Addr4 [1, 2, 3, 4])))"
proof -
  have *: "Unpack typeA 4 (NewUnpacker [1, 2, 3, 4]) =
      (Inr (RD_A (RdA (Addr4 [1, 2, 3, 4]))), \<lparr>umsg = [1, 2, 3, 4], uoff = 4\<rparr>)" by code_simp
  from rdata_unpack_safe [OF _ *] * show ?thesis by (simp add: NewUnpacker_def)
qed

text \<open>
  C11: the type bitmap of NSEC, NSEC3 and CSYNC decodes to the sorted set of the types it was encoded from.
\<close>

theorem bitmap_roundtrip:
  "decodeTypeBitmap (int (length (packBytes encodeTypeBitmap types))) (cur_at pre (packBytes encodeTypeBitmap types @ s)) =
     (Inr (sorted_list_of_set (set types)), cur_at (pre @ packBytes encodeTypeBitmap types) s)"
proof -
  have "packBytes encodeTypeBitmap types = encTypes types" by (simp add: packBytes_def wire_simps)
  then show ?thesis
    using decodeTypeBitmap_at [OF refl, of types ureturn pre s]
    by (auto simp: ubind_def ureturn_def split: prod.splits sum.splits)
qed

text \<open>
  C12: in a decoded service binding the list of mandatory keys is non-empty, strictly increasing, does not name
  itself, and every key it names is present.
\<close>

theorem svcb_mandatory_present:
  assumes "unpackSvcbBody n u = (Inr b, u')" "p \<in> set (svcb_params b)" "svc_key p = 0"
  shows "svc_data p \<noteq> [] \<and> sorted_wrt (<) (key_list (svc_data p)) \<and>
    (\<forall>k \<in> set (key_list (svc_data p)). k \<noteq> 0 \<and> k \<in> svc_key ` set (svcb_params b))"
  using invSvcb_mandatory [OF _ assms(2,3)] svcb.unpack_inv assms(1) unfolding yields_def by blast

theorem svcb_mandatory_present_witness:
  "key_list [0, 3] = [3] \<and> (3 :: u16) \<in> svc_key ` set [SVCBParam 0 [0, 3], SVCBParam 3 [1, 0xbb]]"
proof -
  have "fst (unpackSvcbBody 15 (NewUnpacker [0, 1, 0, 0, 0, 0, 2, 0, 3, 0, 3, 0, 2, 1, 0xbb])) =
      Inr (SvcbBody 1 Root [SVCBParam 0 [0, 3], SVCBParam 3 [1, 0xbb]])" by code_simp
  then obtain u' where "unpackSvcbBody 15 (NewUnpacker [0, 1, 0, 0, 0, 0, 2, 0, 3, 0, 3, 0, 2, 1, 0xbb]) =
      (Inr (SvcbBody 1 Root [SVCBParam 0 [0, 3], SVCBParam 3 [1, 0xbb]]), u')"
    by (metis prod.collapse)
  from svcb_mandatory_present [OF this, of "SVCBParam 0 [0, 3]"] show ?thesis by simp
qed

section \<open>Domain names\<close>

text \<open>
  C13: \<^verbatim>\<open>DecodeWire\<close> returns a name exactly when the octets at the offset denote a sequence of
  labels, reached through at most 32 backward compression pointers and at most 255 octets long; the
  result is that sequence in lower case, and the next offset is the one behind the inline part.
\<close>

theorem DecodeWire_characterised:
  "DecodeWire msg off = Inr (N, nx) \<longleftrightarrow>
     (\<exists>ls h n. names_at msg off ls h n \<and> h \<le> maxPtrHops \<and> length (wire_of ls) \<le> maxNameLen \<and>
        N = Name (map foldByte (wire_of ls)) \<and> nx = off + n)"
  by (rule DecodeWire_iff)

text \<open>
  C14: the compression of the packer is sound: whatever names were written before, the octets
  appended for a name denote that name, through no more pointers than it has labels, and the
  compression table keeps pointing at names.
\<close>

theorem compression_sound:
  assumes "wf_name n" "comp_ok p"
  shows "\<exists>enc h. pbuf (putName n p) = pbuf p @ enc \<and> comp_ok (putName n p) \<and> h \<le> NumLabels n \<and>
    names_at (pbuf p @ enc) (length (pbuf p)) (Labels n) h (length enc)"
  using putName_ok [OF assms] unfolding NumLabels_eq by metis

theorem compression_sound_witness:
  "comp_ok (putName (Name [1, 0x62, 1, 0x61, 0]) (putName (Name [1, 0x61, 0]) (NewPacker [])))"
proof -
  have "wf_name (Name [1, 0x61, 0])" "wf_name (Name [1, 0x62, 1, 0x61, 0])" by code_simp+
  with compression_sound [of "Name [1, 0x62, 1, 0x61, 0]" "putName (Name [1, 0x61, 0]) (NewPacker [])"]
    compression_sound [of "Name [1, 0x61, 0]" "NewPacker []"] show ?thesis by auto
qed

text \<open>
  C15: printing a well-formed lower-case name without zero octets and parsing the text gives the
  name back, whatever other octets its labels hold.
\<close>

theorem Parse_String_roundtrip:
  "wf_name n \<Longrightarrow> canonical n \<Longrightarrow> no_nul n \<Longrightarrow> Parse (NameString n) = Inr n"
  by (rule Parse_NameString)

theorem Parse_String_roundtrip_witness:
  "wf_name (Name [3, 0x61, 0x2e, 0x07, 0]) \<and>
   Parse (NameString (Name [3, 0x61, 0x2e, 0x07, 0])) = Inr (Name [3, 0x61, 0x2e, 0x07, 0])"
proof -
  let ?n = "Name [3, 0x61, 0x2e, 0x07, 0]"
  have "wf_name ?n" "canonical ?n" "no_nul ?n" by code_simp+
  then show ?thesis using Parse_String_roundtrip [of ?n] by simp
qed


section \<open>EDNS options and record sets\<close>

text \<open>
  C17: \<^verbatim>\<open>PadEncrypted\<close> pads a query for an encrypted transport.  If the message carries no padding option and can be
  packed with an empty one, to at most 65408 octets, then the result is the message with one padding option of less than
  128 octets added, everything else unchanged, and it packs to a multiple of 128 octets.
\<close>

theorem padding_aligned:
  assumes "\<not> hasPadding m" "padBuild m 0 = Inr (m0, buf0)" "length buf0 \<le> 65408"
  shows "\<exists>k buf. k < 128 \<and> PadEncrypted m = padded m k \<and> PackMsg (PadEncrypted m) = Inr buf \<and>
    length buf = length buf0 + k \<and> 128 dvd length buf"
proof -
  let ?k = "padLen (length buf0)"
  have k: "?k < 128" "128 dvd length buf0 + ?k" using padLen_dvd by blast+
  with assms(3) have "length buf0 + ?k \<le> 65535" "?k \<le> 65535" by simp_all
  with padBuild_extend(1) [OF assms(2), of ?k] obtain buf where
    "PackMsg (padded m ?k) = Inr buf" "length buf = length buf0 + ?k" by blast
  with k PadEncrypted_padded [OF assms(1,2)] assms(3) show ?thesis by auto
qed

text \<open>The empty query packs to 12 octets of header and an OPT record of 15 octets.\<close>

lemma padBuild_empty: "\<exists>buf. padBuild emptyMessage 0 = Inr (padded emptyMessage 0, buf) \<and> length buf = 27"
  by (simp add: padBuild_def padded_def emptyMessage_def NewEDNSBuilder_def NewEDNSOption_def Let_def bFlags_def bID_def
      NewMessageBuilder_def ednsOptionAdd_def ednsBuild_def Build_def bEDNS_def PackMsg_def packHeader_def arCount_def
      packOPT_def putOption_def optTypeWire_def wire_simps patchUint16_def NewPacker_def be16_def be32_def)

theorem padding_aligned_witness:
  "\<exists>k buf. k < 128 \<and> PadEncrypted emptyMessage = padded emptyMessage k \<and>
     PackMsg (PadEncrypted emptyMessage) = Inr buf \<and> length buf = 27 + k \<and> 128 dvd length buf"
proof -
  from padBuild_empty obtain buf where b: "padBuild emptyMessage 0 = Inr (padded emptyMessage 0, buf)" "length buf = 27" by blast
  have "\<not> hasPadding emptyMessage" by (simp add: hasPadding_def emptyMessage_def)
  from padding_aligned [OF this b(1)] b(2) show ?thesis by simp
qed

text \<open>
  C18: the client-subnet option keeps the privacy boundary.  For every valid prefix \<^verbatim>\<open>NewClientSubnet\<close> succeeds, the option
  it builds is the one built for the masked prefix, so no address bit behind the prefix length reaches the wire, and
  \<^verbatim>\<open>ClientSubnet\<close> reads back the masked prefix and the scope.
\<close>

theorem client_subnet_private:
  assumes "prefix_ok p"
  shows "\<exists>opt. NewClientSubnet p scope = Inr opt \<and> NewClientSubnet (Masked p) scope = Inr opt \<and>
    ClientSubnet opt = Some (Masked p, scope)"
  using ClientSubnet_masked [OF assms] .

theorem client_subnet_private_witness:
  "\<exists>opt. NewClientSubnet (Prefix (Addr4 [192, 0, 2, 255]) 20) 0 = Inr opt \<and>
    ClientSubnet opt = Some (Prefix (Addr4 [192, 0, 0, 0]) 20, 0)"
proof -
  have "prefix_ok (Prefix (Addr4 [192, 0, 2, 255]) 20)" by code_simp
  from client_subnet_private [OF this, of 0] show ?thesis by (auto simp: Masked_def)
qed





text \<open>Two records that differ in their TTL only: the comparison depends on their order.\<close>

definition ttlPair :: "duration \<Rightarrow> duration \<Rightarrow> message" where
  "ttlPair s t = emptyMessage\<lparr>m_answers :=
     [NewRecord Root s (RD_A (RdA (Addr4 [1, 2, 3, 4]))), NewRecord Root t (RD_A (RdA (Addr4 [1, 2, 3, 4])))]\<rparr>"

lemma message_equal_ttl_order: "MessageEqual (ttlPair 1 2) (ttlPair 2 1) = Inr False"
  by (simp add: ttlPair_def emptyMessage_def MessageEqual_def andThen_def recordsSectionEqual_def SortRecords_def
      SortFunc_def compareRecords_def rdPack_def recordEqual_def NewRecord_def NameEqual_def rrType_def)

section \<open>Transaction signatures and replay caches\<close>

text \<open>A keyed hash with outputs of the documented lengths, a key, and a message without records.\<close>

definition exHmac :: hmac_fn where
  "exHmac h k p = replicate (digestSize h) (of_nat (length p))"

definition exKey :: tsig_key where
  "exKey = \<lparr>tk_name = Name [1, 0x6b, 0], tk_algorithm = HMACSHA256, tk_secret = [1], tk_allowSHA1 = False\<rparr>"

definition exBody :: bytes where
  "exBody = [0, 7, 0, 0, 0, 0, 0, 0, 0, 0, 0, 0]"

lemma exHmac_len: "hmac_len exHmac"
  by (simp add: hmac_len_def exHmac_def)

lemma exName: "nm_ok (Name [1, 0x6b, 0])"
proof -
  have "Parse [0x6b] = Inr (Name [1, 0x6b, 0])" "canonical (Name [1, 0x6b, 0])" by code_simp+
  with Parse_wf show ?thesis by (auto simp: nm_ok_def)
qed

lemma exKey_ok: "key_ok exKey"
  using exName algorithm_distinct by (simp add: key_ok_def exKey_def IsKnown_def)

lemma exBody_signable: "signable exBody"
  by (simp add: signable_def exBody_def bumped_def put16_def framed_def be16_def)

lemma exSigned:
  "\<exists>out mac. verifyWithPrefix exHmac out exKey None False (1001 * Second) (300 * Second) = Inr (exBody, mac, 1000 * Second)"
proof -
  have le: "\<bar>1001 * Second - Unix (1000 * Second) * Second\<bar> \<le> 300 * Second" "300 * Second < 2 ^ 63"
    "0 \<le> Unix (1000 * Second)" "Unix (1000 * Second) < 2 ^ 48" "0 \<le> 300 * Second" "300 * Second \<le> 65535 * Second"
    by (simp_all add: Unix_def Second_def)
  have u: "Unix (1000 * Second) = 1000" by (simp add: Unix_def Second_def)
  show ?thesis
    by (rule sign_verify [OF exKey_ok exHmac_len exBody_signable le(3-6) le(1,2), of None False]) (unfold u, blast)
qed

text \<open>
  C21: verification accepts what signing produces.  For a known algorithm, a message whose sections end where the message
  ends, a fudge that fits its field and a verifier whose clock is within its fudge of the signing time, signing succeeds
  and verification of the result returns the original message, the MAC and the signing time.  The prior MAC and the flag
  for the timers cover plain messages, responses and the chained envelopes of a zone transfer at once.
\<close>

theorem tsig_roundtrip:
  assumes "key_ok key" "hmac_len hm" "signable msg" "0 \<le> Unix now" "Unix now < 2 ^ 48" "0 \<le> fudge" "fudge \<le> 65535 * Second"
    "\<bar>now' - Unix now * Second\<bar> \<le> fudge'" "fudge' < 2 ^ 63"
  shows "\<exists>out mac. signWithPrefix hm msg key prior timers now fudge = Inr (out, mac) \<and>
    verifyWithPrefix hm out key prior timers now' fudge' = Inr (msg, mac, Unix now * Second)"
  using sign_verify [OF assms] by blast

theorem tsig_roundtrip_witness:
  "\<exists>out mac. signWithPrefix exHmac exBody exKey None False (1000 * Second) (300 * Second) = Inr (out, mac) \<and>
    verifyWithPrefix exHmac out exKey None False (1001 * Second) (300 * Second) = Inr (exBody, mac, 1000 * Second)"
  using tsig_roundtrip [OF exKey_ok exHmac_len exBody_signable, of "1000 * Second" "300 * Second" "1001 * Second" "300 * Second" None False]
  by (simp add: Unix_def Second_def)

text \<open>
  C22: what an accepted TSIG message guarantees.  The octets returned as the body are those in front of the TSIG record,
  with the record count decremented and the original message identifier restored; the record names the key; its MAC is a
  prefix, at least as long as the floor of the algorithm, of the keyed hash over the prior MAC, exactly this body and the
  fields of the record; and the signed time is within the fudge of the clock.
\<close>

theorem tsig_accept_sound:
  assumes "verifyWithPrefix hm msg key prior timers now fudge = Inr (body, mac, sgnd)"
  shows "\<exists>t full. stripTSIG msg = Inr (put16 10 (rd16 (drop 10 msg) - 1) (take (length body) msg), t) \<and>
    body = put16 0 (pt_origID t) (put16 10 (rd16 (drop 10 msg) - 1) (take (length body) msg)) \<and>
    wire (pt_keyName t) = wire (tk_name key) \<and> mac = pt_mac t \<and> sgnd = uint (pt_timeSigned t) * Second \<and>
    computeHMAC hm key (buildSigningInput body (pt_keyName t) (pt_algorithm t) prior (pt_timeSigned t) (pt_fudge t)
       (pt_errCode t) (pt_other t) timers) = Inr full \<and>
    mac = take (length mac) full \<and> the (minMACSize (tk_algorithm key)) \<le> length mac \<and>
    - fudge \<le> timeSub now sgnd \<and> timeSub now sgnd \<le> fudge"
  by (rule verify_sound [OF assms]) blast

theorem tsig_accept_sound_witness:
  "\<exists>out mac. verifyWithPrefix exHmac out exKey None False (1001 * Second) (300 * Second) = Inr (exBody, mac, 1000 * Second) \<and>
     16 \<le> length mac"
proof -
  obtain out mac where
    v: "verifyWithPrefix exHmac out exKey None False (1001 * Second) (300 * Second) = Inr (exBody, mac, 1000 * Second)"
    using exSigned by blast
  have "the (minMACSize (tk_algorithm exKey)) = 16"
    using algorithm_distinct by (simp add: exKey_def minMACSize_def)
  with tsig_accept_sound [OF v] v show ?thesis by auto
qed

text \<open>
  C23: verification never panics.  For a key with a known algorithm, which is what \<^verbatim>\<open>NewKey\<close> builds, no input makes a slice
  of the verifier leave the message.
\<close>

theorem tsig_verify_no_panic:
  assumes "NewKey n alg secret allow = Inr key"
  shows "verifyWithPrefix hm msg key prior timers now fudge \<noteq> Inl TsigPanic"
proof -
  have "IsKnown (tk_algorithm key)" using assms by (auto simp: NewKey_def split: if_splits)
  from np_verifyWithPrefix [OF this] show ?thesis by (simp add: np_def)
qed

theorem tsig_verify_no_panic_witness:
  "NewKey (Name [1, 0x6b, 0]) HMACSHA256 [1] False = Inr exKey \<and>
   verifyWithPrefix exHmac [0, 7] exKey None False 0 0 \<noteq> Inl TsigPanic"
proof -
  have k: "NewKey (Name [1, 0x6b, 0]) HMACSHA256 [1] False = Inr exKey"
    by (simp add: NewKey_def IsValid_def IsKnown_def exKey_def)
  from tsig_verify_no_panic [OF k] k show ?thesis by blast
qed

text \<open>
  C24: a captured envelope is refused.  Once \<^verbatim>\<open>VerifyWithReplay\<close> has accepted a message at time \<open>t\<close> of the cache clock, the
  same octets are refused at every time up to the retention window after \<open>t\<close>, whatever other signatures the cache has seen
  in between, as long as it never held as many live entries as its capacity.
\<close>

theorem tsig_replay_refused:
  assumes "tsig_inv c" "VerifyWithReplay hm msg key (Some c) now t fudge = (Inr (body, mac, sgnd), Some c1)"
    "roomy tsig_Seen tsig_room cs c1" "\<forall>k \<in> set cs. snd k \<le> t'" "t' \<le> t + tc_window c"
  shows "\<exists>e c3. VerifyWithReplay hm msg key (Some (snd (runSeen tsig_Seen cs c1))) now' t' fudge' = (Inl e, c3)"
  using replay_refused [OF assms] .

theorem tsig_replay_refused_witness:
  "\<exists>out mac c1 e c3. VerifyWithReplay exHmac out exKey (Some (tsig_NewMemoryReplayCache 4 (300 * Second))) (1001 * Second) (1001 * Second) (300 * Second)
       = (Inr (exBody, mac, 1000 * Second), Some c1) \<and>
     VerifyWithReplay exHmac out exKey (Some c1) (1002 * Second) (1002 * Second) (300 * Second) = (Inl e, c3)"
proof -
  let ?c = "tsig_NewMemoryReplayCache 4 (300 * Second)"
  obtain out mac where
    v: "VerifyMAC exHmac out exKey (1001 * Second) (300 * Second) = Inr (exBody, mac, 1000 * Second)"
    using exSigned by (auto simp: VerifyMAC_def)
  have a: "VerifyWithReplay exHmac out exKey (Some ?c) (1001 * Second) (1001 * Second) (300 * Second) =
      (Inr (exBody, mac, 1000 * Second), Some (snd (tsig_Seen (tsig_replayKey (tk_name exKey) (1000 * Second) mac) (1001 * Second) ?c)))"
    using VerifyWithReplay_eq [OF v, of ?c "1001 * Second"] tsig_Seen_first(1) by (simp add: Let_def)
  have inv: "tsig_inv ?c" by (simp add: tsig_inv_def tsig_NewMemoryReplayCache_def)
  have "1002 * Second \<le> 1001 * Second + tc_window ?c"
    by (simp add: tsig_NewMemoryReplayCache_def Second_def)
  with tsig_replay_refused [OF inv a, of "[]" "1002 * Second" "1002 * Second" "300 * Second"] a show ?thesis
    by (simp only: roomy.simps runSeen.simps snd_conv list.set ball_empty) blast
qed

text \<open>
  C25: the replay cache of the DNSCrypt server refines the cache that never forgets.  Started empty, and as long as it never
  holds as many live entries as its capacity, it gives for every sequence of calls with a clock that does not run
  backwards the answers of the specification that keeps the last fresh sighting of each client key and nonce for ever and
  reports a replay exactly within the window.
\<close>

theorem dnscrypt_cache_refines:
  assumes "sorted (map snd cs)" "roomy dc_seen dc_room cs (newReplayCache window mx)"
  shows "fst (runSeen dc_seen cs (newReplayCache window mx)) = specRun (\<lambda>now t. now - window < t) cs Map.empty"
proof -
  have "dc_live (newReplayCache window mx) = (\<lambda>now t. now - window < t)"
    by (intro ext) (simp add: dc_live_def newReplayCache_def)
  with dc_guard.refines [OF _ assms(1) assms(2), of Map.empty] show ?thesis
    by (simp add: dc_inv_def newReplayCache_def)
qed

theorem dnscrypt_cache_refines_witness:
  "fst (runSeen dc_seen [([1], 5), ([1], 6), ([1], 15)] (newReplayCache 10 3)) = [False, True, False]"
proof -
  have r: "roomy dc_seen dc_room [([1], 5), ([1], 6), ([1], 15)] (newReplayCache 10 3)"
    by (simp add: newReplayCache_def dc_room_def dc_seen_def deleteKey_def)
  from dnscrypt_cache_refines [OF _ r] show ?thesis by simp
qed

text \<open>The states the cache reaches: calls at arbitrary times, and any enumeration order of the map between them.\<close>

inductive tsig_reach :: "int \<Rightarrow> duration \<Rightarrow> tsig_cache \<Rightarrow> bool" for sz window where
  start: "tsig_reach sz window (tsig_NewMemoryReplayCache sz window)"
| call: "tsig_reach sz window c \<Longrightarrow> tsig_reach sz window (snd (tsig_Seen k now c))"
| reorder: "tsig_reach sz window c \<Longrightarrow> mset es = mset (tc_seen c) \<Longrightarrow> tsig_reach sz window (c\<lparr>tc_seen := es\<rparr>)"

lemma tsig_reach_inv: "tsig_reach sz window c \<Longrightarrow> tsig_inv c \<and> tc_size c = sz \<and> tc_window c = window"
proof (induction rule: tsig_reach.induct)
  case start
  show ?case by (simp add: tsig_inv_def tsig_NewMemoryReplayCache_def)
next
  case (call c k now)
  then show ?case using tsig_guard.inv_seen by (simp add: tsig_Seen_conf)
next
  case (reorder c es)
  have "distinct (map fst es) \<longleftrightarrow> distinct (map fst (tc_seen c))"
    using reorder.hyps(2) by (metis mset_eq_imp_distinct_iff mset_map)
  moreover have "length es = length (tc_seen c)" using mset_eq_length [OF reorder.hyps(2)] .
  ultimately show ?case using reorder.IH by (auto simp: tsig_inv_def)
qed

text \<open>
  C26: the TSIG cache stays within its capacity.  Every state reached from a new cache of positive size by calls at
  arbitrary times, with the entries enumerated in any order between the calls, has distinct keys and at most that many
  entries.
\<close>

theorem tsig_cache_bounded:
  assumes "0 < sz" "tsig_reach sz window c"
  shows "int (tsig_Len c) \<le> sz \<and> distinct (map fst (tc_seen c))"
  using tsig_reach_inv [OF assms(2)] assms(1) by (auto simp: tsig_inv_def tsig_Len_def)

theorem tsig_cache_bounded_witness:
  "int (tsig_Len (snd (tsig_Seen [1] 5 (snd (tsig_Seen [2] 5 (tsig_NewMemoryReplayCache 1 10)))))) \<le> 1"
  using tsig_cache_bounded [OF _ tsig_reach.call [OF tsig_reach.call [OF tsig_reach.start]], of 1 "[1]" 5 "[2]" 5 10] by simp

end
